(* ===== verification/Prelude.thy ===== *)
theory Prelude
  imports Main "HOL-Library.Word"
begin

text \<open>
  Shared vocabulary of the development: the ways a C function of the library can fail to
  return (\<open>fault\<close>), results as a sum of a fault and a value, the sequencing function
  \<open>bnd\<close> with its rewrite and elimination rules, C's truncating division, and generic
  facts on words, lists and maps used by several components.
\<close>

unbundle bit_operations_syntax

named_theorems res_simps \<open>evaluation of results and sequencing\<close>
named_theorems res_elims \<open>elimination of successful sequencing\<close>

section \<open>Faults and results\<close>

text \<open>
  \<^item> \<open>Null_deref\<close>: a NULL pointer is followed (SIGSEGV);
  \<^item> \<open>Wild_deref\<close>: memory outside an object, or not allocated, is read or written;
  \<^item> \<open>Uninit_read\<close>: an uninitialised local variable is used;
  \<^item> \<open>Assert_spin\<close>: \<open>assert\<close> of lib/assert.c failed: \<open>user_spin\<close> prints and loops;
  \<^item> \<open>Panic_spin\<close>: \<open>PANIC\<close> of task/debug.c: \<open>panic_spin\<close> prints and loops;
  \<^item> \<open>Idle_spin\<close>: the \<open>while(1)\<close> entered when the ready list is empty;
  \<^item> \<open>No_return\<close>: a loop that never ends.
\<close>

datatype fault =
    Null_deref
  | Wild_deref
  | Uninit_read
  | Assert_spin
  | Panic_spin
  | Idle_spin
  | No_return

type_synonym 'a res = "fault + 'a"

definition bnd :: "'a res \<Rightarrow> ('a \<Rightarrow> 'b res) \<Rightarrow> 'b res" where
  "bnd m f = (case m of Inl e \<Rightarrow> Inl e | Inr x \<Rightarrow> f x)"

lemma bnd_Inr [simp, res_simps, code]: "bnd (Inr x) f = f x"
  by (simp add: bnd_def)

lemma bnd_Inl [simp, res_simps, code]: "bnd (Inl e) f = Inl e"
  by (simp add: bnd_def)

lemma bnd_eq_Inr: "bnd m f = Inr y \<longleftrightarrow> (\<exists>x. m = Inr x \<and> f x = Inr y)"
  by (cases m) auto

lemma bnd_InrE [res_elims]:
  assumes "bnd m f = Inr y"
  obtains x where "m = Inr x" and "f x = Inr y"
  using assms by (auto simp: bnd_eq_Inr)

lemma bnd_assoc: "bnd (bnd m f) g = bnd m (\<lambda>x. bnd (f x) g)"
  by (cases m) simp_all

lemma bnd_cong [fundef_cong]:
  "m = m' \<Longrightarrow> (\<And>x. m' = Inr x \<Longrightarrow> f x = f' x) \<Longrightarrow> bnd m f = bnd m' f'"
  by (cases m') auto

text \<open>
  \<open>check b e\<close> goes on when \<open>b\<close> holds and ends in \<open>e\<close> otherwise; \<open>assert\<close> is the macro of
  include/assert.h: a failed condition calls \<open>panic\<close>, i.e. \<open>user_spin\<close>, which loops.
\<close>

definition check :: "bool \<Rightarrow> fault \<Rightarrow> unit res" where
  "check b e = (if b then Inr () else Inl e)"

definition user_spin :: "unit res" where
  "user_spin = Inl Assert_spin"

definition assert_c :: "bool \<Rightarrow> unit res" where
  "assert_c b = (if \<not> b then user_spin else Inr ())"

lemma check_simps [simp, res_simps]:
  "check True e = Inr ()" "check False e = Inl e"
  by (simp_all add: check_def)

lemma assert_c_simps [simp, res_simps]:
  "assert_c True = Inr ()" "assert_c False = Inl Assert_spin"
  by (simp_all add: assert_c_def user_spin_def)

lemma check_eq_Inr [simp]: "check b e = Inr u \<longleftrightarrow> b"
  by (simp add: check_def)

lemma assert_c_eq_Inr [simp]: "assert_c b = Inr u \<longleftrightarrow> b"
  by (simp add: assert_c_def user_spin_def)

text \<open>
  A loop that may not end is a \<open>partial_function (option)\<close>; \<open>returns\<close> turns its \<open>None\<close>
  (no value: the loop runs forever) into the fault \<open>No_return\<close>.
\<close>

definition returns :: "'a res option \<Rightarrow> 'a res" where
  "returns r = (case r of None \<Rightarrow> Inl No_return | Some x \<Rightarrow> x)"

lemma returns_simps [simp, res_simps]:
  "returns None = Inl No_return" "returns (Some x) = x"
  by (simp_all add: returns_def)

section \<open>C integers\<close>

text \<open>C's \<open>/\<close> on signed integers truncates towards zero.\<close>

definition c_div :: "int \<Rightarrow> int \<Rightarrow> int" where
  "c_div a b = sgn a * sgn b * (\<bar>a\<bar> div \<bar>b\<bar>)"

lemma c_div_nonneg: "0 \<le> a \<Longrightarrow> 0 < b \<Longrightarrow> c_div a b = a div b"
  by (cases "a = 0") (simp_all add: c_div_def)

text \<open>C's \<open>%\<close> has the sign of the dividend.\<close>

definition c_mod :: "int \<Rightarrow> int \<Rightarrow> int" where
  "c_mod a b = a - b * c_div a b"

lemma c_mod_nonneg: "0 \<le> a \<Longrightarrow> 0 < b \<Longrightarrow> c_mod a b = a mod b"
  by (simp add: c_mod_def c_div_nonneg minus_mult_div_eq_mod)

section \<open>Text\<close>

definition newline :: string where
  "newline = [CHR 0x0A]"

text \<open>Decimal and hexadecimal output of \<open>printf\<close>.\<close>

function digits_of :: "nat \<Rightarrow> nat \<Rightarrow> string" where
  "digits_of b n = (if b < 2 \<or> n < b then [''0123456789abcdef'' ! (n mod 16)]
     else digits_of b (n div b) @ [''0123456789abcdef'' ! (n mod b)])"
  by pat_completeness auto
termination by (relation "measure snd") auto

declare digits_of.simps [simp del]

definition print_int :: "int \<Rightarrow> string" where
  "print_int i = (if i < 0 then ''-'' @ digits_of 10 (nat (- i)) else digits_of 10 (nat i))"

section \<open>Words\<close>

lemma unat_plus_one_less:
  fixes i n :: "'a::len word"
  assumes "i < n"
  shows "unat (i + 1) = Suc (unat i)"
proof -
  have "unat i < unat n" using assms by (simp add: word_less_nat_alt)
  also have "unat n < 2 ^ LENGTH('a)" by simp
  finally have "Suc (unat i) < 2 ^ LENGTH('a) \<or> Suc (unat i) = 2 ^ LENGTH('a)" by linarith
  moreover have "Suc (unat i) \<le> unat n" using \<open>unat i < unat n\<close> by simp
  ultimately have "Suc (unat i) < 2 ^ LENGTH('a)"
    using \<open>unat n < 2 ^ LENGTH('a)\<close> by linarith
  then show ?thesis by (simp add: unat_word_ariths)
qed

lemma unat_minus_one_pos:
  fixes i :: "'a::len word"
  assumes "0 < i"
  shows "unat (i - 1) = unat i - 1"
  using assms by (simp add: unat_minus_one word_gt_0)

lemma unat_of_nat_small:
  "n < 2 ^ LENGTH('a) \<Longrightarrow> unat (of_nat n :: 'a::len word) = n"
  by (simp add: unat_of_nat)

lemma unat_max_word: "unat (- 1 :: 'a::len word) = 2 ^ LENGTH('a) - 1"
  by (simp add: unsigned_minus_1_eq_mask mask_eq_exp_minus_1)

end
