(* ===== verification/CList.thy ===== *)
theory CList
  imports Prelude
begin

text \<open>
  The intrusive doubly linked list of lib/list.c (include/list.h). List nodes live in a heap,
  a map from addresses of type \<open>'n\<close> to the two pointers of a \<open>struct list_elem\<close>; a pointer is
  an address or NULL (\<open>None\<close>). A \<open>struct list\<close> is its two sentinel nodes. Every operation
  follows the pointers the C code follows and faults where it would dereference NULL or memory
  that is no node. The second half relates a list on the heap to a HOL list (\<open>is_list\<close>) and
  shows what each operation does to it, the rest of the heap being unchanged.
\<close>

section \<open>Nodes, the heap and the operations\<close>

record 'n list_elem =
  elem_prev :: "'n option"
  elem_next :: "'n option"

type_synonym 'n heap = "'n \<rightharpoonup> 'n list_elem"

record 'n clist =
  list_head :: 'n
  list_tail :: 'n

definition deref :: "'n heap \<Rightarrow> 'n option \<Rightarrow> 'n list_elem res" where
  "deref h p = (case p of None \<Rightarrow> Inl Null_deref
     | Some a \<Rightarrow> (case h a of None \<Rightarrow> Inl Wild_deref | Some e \<Rightarrow> Inr e))"

definition set_prev :: "'n heap \<Rightarrow> 'n option \<Rightarrow> 'n option \<Rightarrow> 'n heap res" where
  "set_prev h p v = bnd (deref h p) (\<lambda>e. Inr (h(the p \<mapsto> e\<lparr>elem_prev := v\<rparr>)))"

definition set_next :: "'n heap \<Rightarrow> 'n option \<Rightarrow> 'n option \<Rightarrow> 'n heap res" where
  "set_next h p v = bnd (deref h p) (\<lambda>e. Inr (h(the p \<mapsto> e\<lparr>elem_next := v\<rparr>)))"

text \<open>The sentinels of a \<open>struct list\<close> are part of the structure, so writing them cannot fault.\<close>

definition list_init :: "'n heap \<Rightarrow> 'n clist \<Rightarrow> 'n heap" where
  "list_init h l =
     h(list_head l \<mapsto> \<lparr>elem_prev = None, elem_next = Some (list_tail l)\<rparr>,
       list_tail l \<mapsto> \<lparr>elem_prev = Some (list_head l), elem_next = None\<rparr>)"

definition list_insert_before :: "'n heap \<Rightarrow> 'n option \<Rightarrow> 'n \<Rightarrow> 'n heap res" where
  "list_insert_before h before elem =
     bnd (deref h before) (\<lambda>b.
     bnd (set_next h (elem_prev b) (Some elem)) (\<lambda>h.
     bnd (deref h before) (\<lambda>b.
     bnd (set_prev h (Some elem) (elem_prev b)) (\<lambda>h.
     bnd (set_next h (Some elem) before) (\<lambda>h.
     set_prev h before (Some elem))))))"

definition list_push :: "'n heap \<Rightarrow> 'n clist \<Rightarrow> 'n \<Rightarrow> 'n heap res" where
  "list_push h plist elem =
     bnd (deref h (Some (list_head plist))) (\<lambda>hd. list_insert_before h (elem_next hd) elem)"

definition list_append :: "'n heap \<Rightarrow> 'n clist \<Rightarrow> 'n \<Rightarrow> 'n heap res" where
  "list_append h plist elem = list_insert_before h (Some (list_tail plist)) elem"

definition list_remove :: "'n heap \<Rightarrow> 'n option \<Rightarrow> 'n heap res" where
  "list_remove h pelem =
     bnd (deref h pelem) (\<lambda>e.
     bnd (set_next h (elem_prev e) (elem_next e)) (\<lambda>h.
     bnd (deref h pelem) (\<lambda>e.
     set_prev h (elem_next e) (elem_prev e))))"

definition list_pop :: "'n heap \<Rightarrow> 'n clist \<Rightarrow> ('n option \<times> 'n heap) res" where
  "list_pop h plist =
     bnd (deref h (Some (list_head plist))) (\<lambda>hd.
     bnd (list_remove h (elem_next hd)) (\<lambda>h. Inr (elem_next hd, h)))"

definition list_empty :: "'n heap \<Rightarrow> 'n clist \<Rightarrow> bool res" where
  "list_empty h plist =
     bnd (deref h (Some (list_head plist))) (\<lambda>hd. Inr (elem_next hd = Some (list_tail plist)))"

text \<open>
  The three traversals run until they meet the tail sentinel; on a chain that never reaches it
  they do not return, so the loops are partial functions.
\<close>

partial_function (option) elem_find_from ::
    "'n heap \<Rightarrow> 'n clist \<Rightarrow> 'n \<Rightarrow> 'n option \<Rightarrow> bool res option" where
  "elem_find_from h plist obj_elem elem =
     (if elem = Some (list_tail plist) then Some (Inr False)
      else if elem = Some obj_elem then Some (Inr True)
      else (case deref h elem of Inl e \<Rightarrow> Some (Inl e)
            | Inr n \<Rightarrow> elem_find_from h plist obj_elem (elem_next n)))"

declare elem_find_from.simps [code]

definition elem_find :: "'n heap \<Rightarrow> 'n clist \<Rightarrow> 'n \<Rightarrow> bool res" where
  "elem_find h plist obj_elem =
     bnd (deref h (Some (list_head plist))) (\<lambda>hd.
     returns (elem_find_from h plist obj_elem (elem_next hd)))"

partial_function (option) list_traversal_from ::
    "'n heap \<Rightarrow> 'n clist \<Rightarrow> ('n option \<Rightarrow> 'a \<Rightarrow> bool res) \<Rightarrow> 'a \<Rightarrow> 'n option
     \<Rightarrow> 'n option res option" where
  "list_traversal_from h plist func arg elem =
     (if elem = Some (list_tail plist) then Some (Inr None)
      else (case func elem arg of Inl e \<Rightarrow> Some (Inl e)
            | Inr found \<Rightarrow>
                (if found then Some (Inr elem)
                 else (case deref h elem of Inl e \<Rightarrow> Some (Inl e)
                       | Inr n \<Rightarrow> list_traversal_from h plist func arg (elem_next n)))))"

declare list_traversal_from.simps [code]

definition list_traversal ::
    "'n heap \<Rightarrow> 'n clist \<Rightarrow> ('n option \<Rightarrow> 'a \<Rightarrow> bool res) \<Rightarrow> 'a \<Rightarrow> 'n option res" where
  "list_traversal h plist func arg =
     bnd (deref h (Some (list_head plist))) (\<lambda>hd.
     bnd (list_empty h plist) (\<lambda>empty.
     if empty then Inr None
     else returns (list_traversal_from h plist func arg (elem_next hd))))"

text \<open>The counter is a \<open>uint32_t\<close>.\<close>

partial_function (option) list_len_from ::
    "'n heap \<Rightarrow> 'n clist \<Rightarrow> 'n option \<Rightarrow> 32 word \<Rightarrow> 32 word res option" where
  "list_len_from h plist elem len =
     (if elem = Some (list_tail plist) then Some (Inr len)
      else (case deref h elem of Inl e \<Rightarrow> Some (Inl e)
            | Inr n \<Rightarrow> list_len_from h plist (elem_next n) (len + 1)))"

declare list_len_from.simps [code]

definition list_len :: "'n heap \<Rightarrow> 'n clist \<Rightarrow> 32 word res" where
  "list_len h plist =
     bnd (deref h (Some (list_head plist))) (\<lambda>hd.
     returns (list_len_from h plist (elem_next hd) 0))"

section \<open>Lists on the heap\<close>

definition hd_or :: "'n list \<Rightarrow> 'n option \<Rightarrow> 'n option" where
  "hd_or xs q = (case xs of [] \<Rightarrow> q | x # _ \<Rightarrow> Some x)"

definition last_or :: "'n list \<Rightarrow> 'n option \<Rightarrow> 'n option" where
  "last_or xs p = (if xs = [] then p else Some (last xs))"

lemma hd_or_simps [simp]:
  "hd_or [] q = q" "hd_or (x # xs) q = Some x" "hd_or (xs @ ys) q = hd_or xs (hd_or ys q)"
  by (simp_all add: hd_or_def split: list.split)

lemma last_or_simps [simp]:
  "last_or [] p = p" "last_or (x # xs) p = last_or xs (Some x)"
  "last_or (xs @ ys) p = last_or ys (last_or xs p)"
  by (simp_all add: last_or_def)

text \<open>
  \<open>dchain h p xs q\<close>: the nodes \<open>xs\<close> form a doubly linked segment, entered from \<open>p\<close> and left
  to \<open>q\<close>.
\<close>

fun dchain :: "'n heap \<Rightarrow> 'n option \<Rightarrow> 'n list \<Rightarrow> 'n option \<Rightarrow> bool" where
  "dchain h p [] q \<longleftrightarrow> True"
| "dchain h p (x # xs) q \<longleftrightarrow>
     h x = Some \<lparr>elem_prev = p, elem_next = hd_or xs q\<rparr> \<and> dchain h (Some x) xs q"

lemma dchain_append [simp]:
  "dchain h p (xs @ ys) q \<longleftrightarrow> dchain h p xs (hd_or ys q) \<and> dchain h (last_or xs p) ys q"
  by (induction xs arbitrary: p) auto

lemma dchain_frame:
  "(\<And>x. x \<in> set xs \<Longrightarrow> h' x = h x) \<Longrightarrow> dchain h' p xs q = dchain h p xs q"
  by (induction xs arbitrary: p) auto

definition is_list :: "'n heap \<Rightarrow> 'n clist \<Rightarrow> 'n list \<Rightarrow> bool" where
  "is_list h l xs \<longleftrightarrow>
     distinct (list_head l # xs @ [list_tail l])
     \<and> dchain h None (list_head l # xs @ [list_tail l]) None"

lemma is_list_frame:
  assumes "\<And>x. x \<in> set (list_head l # xs @ [list_tail l]) \<Longrightarrow> h' x = h x"
  shows "is_list h' l xs = is_list h l xs"
  by (simp only: is_list_def dchain_frame [of "list_head l # xs @ [list_tail l]" h' h, OF assms])

text \<open>The nodes of a list, sentinels included; what an operation on the list may write.\<close>

definition list_nodes :: "'n clist \<Rightarrow> 'n list \<Rightarrow> 'n set" where
  "list_nodes l xs = insert (list_head l) (insert (list_tail l) (set xs))"

definition frame_eq :: "'n set \<Rightarrow> 'n heap \<Rightarrow> 'n heap \<Rightarrow> bool" where
  "frame_eq A h h' \<longleftrightarrow> dom h' = dom h \<and> (\<forall>x. x \<notin> A \<longrightarrow> h' x = h x)"

lemma frame_eqD: "frame_eq A h h' \<Longrightarrow> x \<notin> A \<Longrightarrow> h' x = h x"
  by (simp add: frame_eq_def)

lemma frame_eq_dom: "frame_eq A h h' \<Longrightarrow> dom h' = dom h"
  by (simp add: frame_eq_def)

lemma frame_eq_mono: "frame_eq A h h' \<Longrightarrow> A \<subseteq> B \<Longrightarrow> frame_eq B h h'"
  by (auto simp: frame_eq_def)

lemma is_list_nodes_frame:
  assumes "frame_eq A h h'" and "A \<inter> list_nodes l xs = {}"
  shows "is_list h' l xs = is_list h l xs"
  by (rule is_list_frame) (use assms in \<open>auto simp: frame_eq_def list_nodes_def\<close>)

lemma is_list_dom: "is_list h l xs \<Longrightarrow> list_nodes l xs \<subseteq> dom h"
proof -
  have "dchain h p ys q \<Longrightarrow> set ys \<subseteq> dom h" for p ys q
    by (induction ys arbitrary: p) auto
  then show "is_list h l xs \<Longrightarrow> list_nodes l xs \<subseteq> dom h"
    unfolding is_list_def list_nodes_def by fastforce
qed

lemma is_list_distinct: "is_list h l xs \<Longrightarrow> distinct xs"
  by (simp add: is_list_def)

lemma is_list_head:
  "is_list h l xs \<Longrightarrow>
   h (list_head l) = Some \<lparr>elem_prev = None, elem_next = hd_or xs (Some (list_tail l))\<rparr>"
  by (simp add: is_list_def)

lemma list_init_is_list:
  "list_head l \<noteq> list_tail l \<Longrightarrow> is_list (list_init h l) l []"
  by (simp add: is_list_def list_init_def)

section \<open>Linking and unlinking a node\<close>

lemma deref_Some [simp]: "h a = Some e \<Longrightarrow> deref h (Some a) = Inr e"
  by (simp add: deref_def)

lemma deref_None [simp]: "deref h None = Inl Null_deref"
  by (simp add: deref_def)

lemma insert_before_chain:
  assumes ch: "dchain h p (us @ a # b # vs) q" and d: "distinct (us @ a # b # vs)"
    and e: "e \<notin> set (us @ a # b # vs)" and he: "e \<in> dom h"
  shows "\<exists>h'. list_insert_before h (Some b) e = Inr h' \<and> dchain h' p (us @ a # e # b # vs) q
           \<and> frame_eq {a, e, b} h h'"
proof -
  obtain n where n: "h e = Some n" using he by auto
  have ha: "h a = Some \<lparr>elem_prev = last_or us p, elem_next = Some b\<rparr>"
    and hb: "h b = Some \<lparr>elem_prev = Some a, elem_next = hd_or vs q\<rparr>"
    and us: "dchain h p us (Some a)" and vs: "dchain h (Some b) vs q"
    using ch by auto
  have neq: "a \<noteq> b" "e \<noteq> a" "e \<noteq> b" using d e by auto
  let ?h = "h(a \<mapsto> \<lparr>elem_prev = last_or us p, elem_next = Some e\<rparr>,
              e \<mapsto> \<lparr>elem_prev = Some a, elem_next = Some b\<rparr>,
              b \<mapsto> \<lparr>elem_prev = Some e, elem_next = hd_or vs q\<rparr>)"
  have run: "list_insert_before h (Some b) e = Inr ?h"
    using ha hb n neq
    by (cases n) (auto simp: list_insert_before_def set_next_def set_prev_def fun_eq_iff)
  have "dchain ?h p us (Some a)"
    using us d e by (subst dchain_frame [of us ?h h]) auto
  moreover have "dchain ?h (Some b) vs q"
    using vs d e by (subst dchain_frame [of vs ?h h]) auto
  ultimately have "dchain ?h p (us @ a # e # b # vs) q"
    using neq by simp
  moreover have "frame_eq {a, e, b} h ?h"
    using ha hb n by (auto simp: frame_eq_def)
  ultimately show ?thesis using run by blast
qed

lemma remove_chain:
  assumes ch: "dchain h p (us @ a # e # b # vs) q" and d: "distinct (us @ a # e # b # vs)"
  shows "\<exists>h'. list_remove h (Some e) = Inr h' \<and> dchain h' p (us @ a # b # vs) q
           \<and> frame_eq {a, b} h h'"
proof -
  have ha: "h a = Some \<lparr>elem_prev = last_or us p, elem_next = Some e\<rparr>"
    and he: "h e = Some \<lparr>elem_prev = Some a, elem_next = Some b\<rparr>"
    and hb: "h b = Some \<lparr>elem_prev = Some e, elem_next = hd_or vs q\<rparr>"
    and us: "dchain h p us (Some a)" and vs: "dchain h (Some b) vs q"
    using ch by auto
  have neq: "a \<noteq> b" "e \<noteq> a" "e \<noteq> b" using d by auto
  let ?h = "h(a \<mapsto> \<lparr>elem_prev = last_or us p, elem_next = Some b\<rparr>,
              b \<mapsto> \<lparr>elem_prev = Some a, elem_next = hd_or vs q\<rparr>)"
  have run: "list_remove h (Some e) = Inr ?h"
    using ha hb he neq by (simp add: list_remove_def set_next_def set_prev_def)
  have "dchain ?h p us (Some a)"
    using us d by (subst dchain_frame [of us ?h h]) auto
  moreover have "dchain ?h (Some b) vs q"
    using vs d by (subst dchain_frame [of vs ?h h]) auto
  ultimately have "dchain ?h p (us @ a # b # vs) q"
    using neq by simp
  moreover have "frame_eq {a, b} h ?h"
    using ha hb by (auto simp: frame_eq_def)
  ultimately show ?thesis using run by blast
qed


section \<open>The operations on a list of the heap\<close>

text \<open>
  Each lemma states that the operation returns, which HOL list the heap holds afterwards, and
  that nothing but nodes of the list (and the inserted node) changed.
\<close>

lemma list_append_spec:
  assumes l: "is_list h l xs" and e: "e \<notin> list_nodes l xs" and he: "e \<in> dom h"
  obtains h' where "list_append h l e = Inr h'" and "is_list h' l (xs @ [e])"
    and "frame_eq (insert e (list_nodes l xs)) h h'"
proof -
  let ?ns = "list_head l # xs"
  have split: "?ns @ [list_tail l] = butlast ?ns @ last ?ns # list_tail l # []"
    by (metis append_butlast_last_id append_Cons append_Nil append_assoc list.distinct(1))
  have ch: "dchain h None (butlast ?ns @ last ?ns # list_tail l # []) None"
    and d: "distinct (butlast ?ns @ last ?ns # list_tail l # [])"
    using l unfolding is_list_def by (simp_all only: split [symmetric] append_Cons)
  have en: "e \<notin> set (butlast ?ns @ last ?ns # list_tail l # [])"
    using e by (simp only: split [symmetric]) (auto simp: list_nodes_def)
  obtain h' where h': "list_insert_before h (Some (list_tail l)) e = Inr h'"
    "dchain h' None (butlast ?ns @ last ?ns # e # list_tail l # []) None"
    "frame_eq {last ?ns, e, list_tail l} h h'"
    using insert_before_chain [OF ch d en he] by auto
  have split': "butlast ?ns @ last ?ns # e # list_tail l # [] = list_head l # (xs @ [e]) @ [list_tail l]"
    using split by simp
  have dist: "distinct (list_head l # (xs @ [e]) @ [list_tail l])"
    using l e by (auto simp: is_list_def list_nodes_def)
  have "is_list h' l (xs @ [e])"
    unfolding is_list_def using h'(2) dist by (simp only: split' simp_thms)
  moreover have "{last ?ns, e, list_tail l} \<subseteq> insert e (list_nodes l xs)"
    by (cases xs rule: rev_cases) (auto simp: list_nodes_def)
  then have "frame_eq (insert e (list_nodes l xs)) h h'"
    by (rule frame_eq_mono [OF h'(3)])
  ultimately show ?thesis using h'(1) that by (simp add: list_append_def)
qed

lemma list_push_spec:
  assumes l: "is_list h l xs" and e: "e \<notin> list_nodes l xs" and he: "e \<in> dom h"
  obtains h' where "list_push h l e = Inr h'" and "is_list h' l (e # xs)"
    and "frame_eq (insert e (list_nodes l xs)) h h'"
proof -
  obtain b vs where bvs: "xs @ [list_tail l] = b # vs" by (cases "xs @ [list_tail l]") auto
  have nx: "hd_or xs (Some (list_tail l)) = Some b"
    using bvs by (cases xs) auto
  have ch: "dchain h None ([] @ list_head l # b # vs) None"
    and d: "distinct ([] @ list_head l # b # vs)"
    using l unfolding is_list_def bvs by simp_all
  have sets: "set (b # vs) = insert (list_tail l) (set xs)" by (simp flip: bvs)
  have en: "e \<notin> set ([] @ list_head l # b # vs)"
    using e sets by (auto simp: list_nodes_def)
  obtain h' where h': "list_insert_before h (Some b) e = Inr h'"
    "dchain h' None ([] @ list_head l # e # b # vs) None" "frame_eq {list_head l, e, b} h h'"
    using insert_before_chain [OF ch d en he] by auto
  have "is_list h' l (e # xs)"
    using h'(2) d en unfolding is_list_def by (auto simp: bvs)
  moreover have "{list_head l, e, b} \<subseteq> insert e (list_nodes l xs)"
    using sets by (auto simp: list_nodes_def)
  then have "frame_eq (insert e (list_nodes l xs)) h h'"
    by (rule frame_eq_mono [OF h'(3)])
  ultimately show ?thesis
    using h'(1) that is_list_head [OF l] by (simp add: list_push_def nx)
qed

lemma list_remove_spec:
  assumes l: "is_list h l (xs @ e # ys)"
  obtains h' where "list_remove h (Some e) = Inr h'" and "is_list h' l (xs @ ys)"
    and "frame_eq (list_nodes l (xs @ ys)) h h'"
proof -
  let ?us = "list_head l # xs"
  obtain b vs where bvs: "ys @ [list_tail l] = b # vs" by (cases "ys @ [list_tail l]") auto
  have split: "list_head l # (xs @ zs) @ [list_tail l] = butlast ?us @ last ?us # zs @ [list_tail l]" for zs
    by (metis append_butlast_last_id append_Cons append_assoc list.distinct(1) append_Nil)
  have ch: "dchain h None (butlast ?us @ last ?us # e # b # vs) None"
    and d: "distinct (butlast ?us @ last ?us # e # b # vs)"
    using l unfolding is_list_def split by (simp_all only: append_Cons bvs)
  obtain h' where h': "list_remove h (Some e) = Inr h'"
    "dchain h' None (butlast ?us @ last ?us # b # vs) None" "frame_eq {last ?us, b} h h'"
    using remove_chain [OF ch d] by auto
  have "is_list h' l (xs @ ys)"
    using h'(2) d unfolding is_list_def split by (simp add: bvs)
  moreover have "b \<in> insert (list_tail l) (set ys)"
    using bvs by (cases ys) auto
  then have "{last ?us, b} \<subseteq> list_nodes l (xs @ ys)"
    by (cases xs rule: rev_cases) (auto simp: list_nodes_def)
  then have "frame_eq (list_nodes l (xs @ ys)) h h'"
    by (rule frame_eq_mono [OF h'(3)])
  ultimately show ?thesis using h'(1) that by blast
qed

lemma list_pop_spec:
  assumes l: "is_list h l (x # xs)"
  obtains h' where "list_pop h l = Inr (Some x, h')" and "is_list h' l xs"
    and "frame_eq (list_nodes l xs) h h'"
proof -
  obtain h' where h': "list_remove h (Some x) = Inr h'" "is_list h' l xs"
    "frame_eq (list_nodes l xs) h h'"
    using list_remove_spec [of h l "[]" x xs] l by auto
  then show ?thesis using that is_list_head [OF l] by (simp add: list_pop_def)
qed

text \<open>
  Popping an empty list takes the tail sentinel for an element and unlinks it: it follows the
  sentinel's NULL successor.
\<close>

lemma list_pop_empty:
  assumes l: "is_list h l []"
  shows "list_pop h l = Inl Null_deref"
proof -
  let ?h = "h(list_head l \<mapsto> \<lparr>elem_prev = None, elem_next = None\<rparr>)"
  have nodes: "h (list_head l) = Some \<lparr>elem_prev = None, elem_next = Some (list_tail l)\<rparr>"
    "h (list_tail l) = Some \<lparr>elem_prev = Some (list_head l), elem_next = None\<rparr>"
    "?h (list_tail l) = Some \<lparr>elem_prev = Some (list_head l), elem_next = None\<rparr>"
    using l by (auto simp: is_list_def)
  then show ?thesis
    by (simp add: list_pop_def list_remove_def set_next_def set_prev_def)
qed

lemma list_empty_spec:
  assumes "is_list h l xs"
  shows "list_empty h l = Inr (xs = [])"
  using assms is_list_head [OF assms]
  by (cases xs) (auto simp: list_empty_def is_list_def)


subsection \<open>Traversals\<close>

lemma elem_find_from_spec:
  assumes "dchain h p (xs @ [list_tail l]) None" and "list_tail l \<notin> set xs" and "obj \<noteq> list_tail l"
  shows "elem_find_from h l obj (hd_or xs (Some (list_tail l))) = Some (Inr (obj \<in> set xs))"
  using assms
proof (induction xs arbitrary: p)
  case Nil
  then show ?case by (simp add: elem_find_from.simps)
next
  case (Cons x xs)
  then have "elem_find_from h l obj (hd_or xs (Some (list_tail l))) = Some (Inr (obj \<in> set xs))"
    by auto
  with Cons.prems show ?case by (subst elem_find_from.simps) auto
qed

lemma elem_find_spec:
  assumes l: "is_list h l xs" and obj: "obj \<noteq> list_tail l"
  shows "elem_find h l obj = Inr (obj \<in> set xs)"
proof -
  have "dchain h (Some (list_head l)) (xs @ [list_tail l]) None" and "list_tail l \<notin> set xs"
    using l by (simp_all add: is_list_def)
  from elem_find_from_spec [OF this obj] show ?thesis
    using is_list_head [OF l] by (simp add: elem_find_def)
qed

lemma list_traversal_from_spec:
  assumes "dchain h p (xs @ [list_tail l]) None" and "list_tail l \<notin> set xs"
    and "\<And>x. x \<in> set xs \<Longrightarrow> func (Some x) arg = Inr (f x)"
  shows "list_traversal_from h l func arg (hd_or xs (Some (list_tail l))) = Some (Inr (List.find f xs))"
  using assms
proof (induction xs arbitrary: p)
  case Nil
  then show ?case by (simp add: list_traversal_from.simps)
next
  case (Cons x xs)
  then have "list_traversal_from h l func arg (hd_or xs (Some (list_tail l))) = Some (Inr (List.find f xs))"
    by auto
  with Cons.prems show ?case by (subst list_traversal_from.simps) auto
qed

lemma list_traversal_spec:
  assumes l: "is_list h l xs" and f: "\<And>x. x \<in> set xs \<Longrightarrow> func (Some x) arg = Inr (f x)"
  shows "list_traversal h l func arg = Inr (List.find f xs)"
proof -
  have "dchain h (Some (list_head l)) (xs @ [list_tail l]) None" and "list_tail l \<notin> set xs"
    using l by (simp_all add: is_list_def)
  from list_traversal_from_spec [where func = func and arg = arg and f = f, OF this f] show ?thesis
    using is_list_head [OF l] list_empty_spec [OF l] by (simp add: list_traversal_def)
qed

lemma list_len_from_spec:
  assumes "dchain h p (xs @ [list_tail l]) None" and "list_tail l \<notin> set xs"
  shows "list_len_from h l (hd_or xs (Some (list_tail l))) n = Some (Inr (n + of_nat (length xs)))"
  using assms
proof (induction xs arbitrary: p n)
  case Nil
  then show ?case by (simp add: list_len_from.simps)
next
  case (Cons x xs)
  then have "list_len_from h l (hd_or xs (Some (list_tail l))) (n + 1)
      = Some (Inr (n + 1 + of_nat (length xs)))"
    by auto
  with Cons.prems show ?case by (subst list_len_from.simps) (auto simp: algebra_simps)
qed

lemma list_len_spec:
  assumes l: "is_list h l xs"
  shows "list_len h l = Inr (of_nat (length xs))"
proof -
  have "dchain h (Some (list_head l)) (xs @ [list_tail l]) None" and "list_tail l \<notin> set xs"
    using l by (simp_all add: is_list_def)
  from list_len_from_spec [OF this] show ?thesis
    using is_list_head [OF l] by (simp add: list_len_def)
qed

section \<open>The queue interface\<close>

text \<open>
  What the scheduler needs of a list: \<open>rep s xs\<close> relates a state to the queue it holds,
  \<open>fresh s x\<close> says that \<open>x\<close> is a node that may be queued. The laws cover the two operations
  of a first-in first-out queue; the client lemmas are proved from the laws alone.
\<close>

locale fifo_queue =
  fixes rep :: "'s \<Rightarrow> 'q list \<Rightarrow> bool"
    and fresh :: "'s \<Rightarrow> 'q \<Rightarrow> bool"
    and append :: "'s \<Rightarrow> 'q \<Rightarrow> 's res"
    and pop :: "'s \<Rightarrow> ('q option \<times> 's) res"
  assumes append_law:
      "rep s xs \<Longrightarrow> fresh s x \<Longrightarrow> x \<notin> set xs \<Longrightarrow>
       \<exists>s'. append s x = Inr s' \<and> rep s' (xs @ [x]) \<and> (\<forall>y. fresh s' y = fresh s y)"
    and pop_law:
      "rep s (x # xs) \<Longrightarrow>
       \<exists>s'. pop s = Inr (Some x, s') \<and> rep s' xs \<and> (\<forall>y. fresh s' y = fresh s y)"
    and rep_fresh: "rep s xs \<Longrightarrow> x \<in> set xs \<Longrightarrow> fresh s x"
    and rep_distinct: "rep s xs \<Longrightarrow> distinct xs"
begin

text \<open>Queue the element that ran and take the next one: the round-robin step.\<close>

lemma append_pop:
  assumes "rep s xs" and "fresh s c" and "c \<notin> set xs"
  shows "\<exists>s'. bnd (append s c) pop = Inr (Some (hd (xs @ [c])), s') \<and> rep s' (tl (xs @ [c]))
           \<and> (\<forall>y. fresh s' y = fresh s y)"
proof -
  obtain s1 where s1: "append s c = Inr s1" "rep s1 (xs @ [c])" "\<forall>y. fresh s1 y = fresh s y"
    using append_law [OF assms] by blast
  obtain z zs where z: "xs @ [c] = z # zs" by (cases "xs @ [c]") auto
  with s1 pop_law [of s1 z zs] show ?thesis by auto
qed

text \<open>Appending several elements and then popping as often gives them back in their order.\<close>

fun append_all :: "'s \<Rightarrow> 'q list \<Rightarrow> 's res" where
  "append_all s [] = Inr s"
| "append_all s (x # xs) = bnd (append s x) (\<lambda>s. append_all s xs)"

lemma append_all_law:
  "rep s xs \<Longrightarrow> distinct (xs @ ys) \<Longrightarrow> (\<And>y. y \<in> set ys \<Longrightarrow> fresh s y) \<Longrightarrow>
   \<exists>s'. append_all s ys = Inr s' \<and> rep s' (xs @ ys)"
proof (induction ys arbitrary: s xs)
  case Nil
  then show ?case by simp
next
  case (Cons y ys)
  obtain s1 where s1: "append s y = Inr s1" "rep s1 (xs @ [y])" "\<forall>z. fresh s1 z = fresh s z"
    using append_law [of s xs y] Cons.prems by auto
  then obtain s' where "append_all s1 ys = Inr s'" "rep s' ((xs @ [y]) @ ys)"
    using Cons.IH [of s1 "xs @ [y]"] Cons.prems by auto
  with s1 show ?case by auto
qed

fun pop_n :: "'s \<Rightarrow> nat \<Rightarrow> ('q option list \<times> 's) res" where
  "pop_n s 0 = Inr ([], s)"
| "pop_n s (Suc n) = bnd (pop s) (\<lambda>(x, s). bnd (pop_n s n) (\<lambda>(xs, s). Inr (x # xs, s)))"

lemma pop_n_law: "rep s (xs @ ys) \<Longrightarrow> \<exists>s'. pop_n s (length xs) = Inr (map Some xs, s') \<and> rep s' ys"
proof (induction xs arbitrary: s)
  case Nil
  then show ?case by simp
next
  case (Cons x xs)
  obtain s1 where s1: "pop s = Inr (Some x, s1)" "rep s1 (xs @ ys)"
    using pop_law [of s x "xs @ ys"] Cons.prems by auto
  with Cons.IH [of s1] show ?case by auto
qed

lemma fifo_order:
  assumes "rep s []" and "distinct ys" and "\<And>y. y \<in> set ys \<Longrightarrow> fresh s y"
  shows "\<exists>s1 s2. append_all s ys = Inr s1 \<and> pop_n s1 (length ys) = Inr (map Some ys, s2) \<and> rep s2 []"
proof -
  obtain s1 where "append_all s ys = Inr s1" "rep s1 ys"
    using append_all_law [of s "[]" ys] assms by auto
  with pop_n_law [of s1 ys "[]"] show ?thesis by auto
qed

end

definition list_fresh :: "'n clist \<Rightarrow> 'n heap \<Rightarrow> 'n \<Rightarrow> bool" where
  "list_fresh l h x \<longleftrightarrow> x \<in> dom h \<and> x \<noteq> list_head l \<and> x \<noteq> list_tail l"

interpretation clq: fifo_queue "\<lambda>h. is_list h l" "list_fresh l" "\<lambda>h. list_append h l" "\<lambda>h. list_pop h l"
  for l :: "'n clist"
proof unfold_locales
  fix h :: "'n heap" and xs x
  assume l: "is_list h l xs" and f: "list_fresh l h x" and x: "x \<notin> set xs"
  have "x \<notin> list_nodes l xs" "x \<in> dom h" using f x by (auto simp: list_fresh_def list_nodes_def)
  with l obtain h' where "list_append h l x = Inr h'" "is_list h' l (xs @ [x])"
    "frame_eq (insert x (list_nodes l xs)) h h'"
    by (rule list_append_spec)
  then show "\<exists>h'. list_append h l x = Inr h' \<and> is_list h' l (xs @ [x])
      \<and> (\<forall>y. list_fresh l h' y = list_fresh l h y)"
    by (auto simp: list_fresh_def frame_eq_def)
next
  fix h :: "'n heap" and x xs
  assume "is_list h l (x # xs)"
  then obtain h' where "list_pop h l = Inr (Some x, h')" "is_list h' l xs"
    "frame_eq (list_nodes l xs) h h'"
    by (rule list_pop_spec)
  then show "\<exists>h'. list_pop h l = Inr (Some x, h') \<and> is_list h' l xs
      \<and> (\<forall>y. list_fresh l h' y = list_fresh l h y)"
    by (auto simp: list_fresh_def frame_eq_def)
next
  fix h :: "'n heap" and xs x
  assume "is_list h l xs" "x \<in> set xs"
  then show "list_fresh l h x"
    using is_list_dom [of h l xs] by (auto simp: list_fresh_def list_nodes_def is_list_def)
next
  fix h :: "'n heap" and xs
  assume "is_list h l xs"
  then show "distinct xs" by (rule is_list_distinct)
qed

end
