(* ===== verification/Bitmap.thy ===== *)
theory Bitmap
  imports Prelude
begin

text \<open>
  The bit map of lib/bitmap.c (include/bitmap.h): the structure, its four operations with
  their reads and writes checked against the length of the array, and the facts that make
  it an allocator of small numbers: writing a bit changes that bit only, the scan for one
  bit finds the lowest clear one, the scan for several bits finds a clear run, and a scan
  that finds nothing reads past the end of the array.
\<close>

section \<open>The structure and its operations\<close>

text \<open>\<open>bits\<close> is the array the C pointer leads to; reading past it is \<open>Wild_deref\<close>.\<close>

record bitmap =
  btmp_bytes_len :: "32 word"
  bits :: "8 word list"

definition read_byte :: "bitmap \<Rightarrow> 32 word \<Rightarrow> 8 word res" where
  "read_byte b i = (if unat i < length (bits b) then Inr (bits b ! unat i) else Inl Wild_deref)"

definition write_byte :: "bitmap \<Rightarrow> 32 word \<Rightarrow> 8 word \<Rightarrow> bitmap res" where
  "write_byte b i v =
     (if unat i < length (bits b) then Inr (b\<lparr>bits := (bits b)[unat i := v]\<rparr>) else Inl Wild_deref)"

text \<open>\<open>memset(bits, 0, btmp_bytes_len)\<close>: the first \<open>btmp_bytes_len\<close> bytes become 0.\<close>

definition bitmap_init :: "bitmap \<Rightarrow> bitmap res" where
  "bitmap_init b =
     (if unat (btmp_bytes_len b) \<le> length (bits b)
      then Inr (b\<lparr>bits := replicate (unat (btmp_bytes_len b)) 0
                          @ drop (unat (btmp_bytes_len b)) (bits b)\<rparr>)
      else Inl Wild_deref)"

definition BITMAP_MASK :: "8 word" where
  "BITMAP_MASK = 1"

definition bitmap_scan_test :: "bitmap \<Rightarrow> 32 word \<Rightarrow> bool res" where
  "bitmap_scan_test b bit_idx =
     (let byte_idx = bit_idx div 8; bit_odd = bit_idx mod 8
      in bnd (read_byte b byte_idx) (\<lambda>v.
         Inr (v AND push_bit (unat bit_odd) BITMAP_MASK \<noteq> 0)))"

text \<open>
  The first loop of \<open>bitmap_scan\<close>. The condition reads the byte before it compares the
  index with the length, as the code does.
\<close>

function scan_byte :: "bitmap \<Rightarrow> 32 word \<Rightarrow> 32 word res" where
  "scan_byte b idx_byte =
     (case read_byte b idx_byte of
        Inl e \<Rightarrow> Inl e
      | Inr v \<Rightarrow> (if v = 0xff \<and> idx_byte < btmp_bytes_len b
                  then scan_byte b (idx_byte + 1) else Inr idx_byte))"
  by pat_completeness auto
termination
  by (relation "measure (\<lambda>(b, i). unat (btmp_bytes_len b) - unat i)")
     (auto simp: unat_plus_one_less word_less_nat_alt)

declare scan_byte.simps [simp del]

lemma mask_bit: "(v :: 8 word) AND push_bit n BITMAP_MASK \<noteq> 0 \<longleftrightarrow> bit v n"
  by (simp add: BITMAP_MASK_def push_bit_of_1 and_exp_eq_0_iff_not_bit)

lemma mask_bit': "push_bit n BITMAP_MASK AND (v :: 8 word) \<noteq> 0 \<longleftrightarrow> bit v n"
  by (simp add: and.commute [of _ v] mask_bit)

text \<open>The second loop: \<open>(uint8_t)(1 << idx_bit)\<close> is 0 from \<open>idx_bit = 8\<close> on, where it stops.\<close>

function scan_bit :: "8 word \<Rightarrow> nat \<Rightarrow> nat" where
  "scan_bit v idx_bit =
     (if push_bit idx_bit BITMAP_MASK AND v \<noteq> 0 then scan_bit v (Suc idx_bit) else idx_bit)"
  by pat_completeness auto
termination
  by (relation "measure (\<lambda>(v, n). 8 - n)") (auto simp: mask_bit' dest: bit_imp_le_length)

declare scan_bit.simps [simp del]

text \<open>
  The loop for more than one bit. \<open>fuel\<close> is \<open>bit_left\<close>, which the C condition decrements
  before each round; the result \<open>-1\<close> is the value \<open>bit_idx_start\<close> got before the loop.
\<close>

fun scan_run :: "bitmap \<Rightarrow> 32 word \<Rightarrow> nat \<Rightarrow> 32 word \<Rightarrow> 32 word \<Rightarrow> 32 word res" where
  "scan_run b cnt 0 next_bit count = Inr (-1)"
| "scan_run b cnt (Suc bit_left) next_bit count =
     bnd (bitmap_scan_test b next_bit) (\<lambda>used.
       (let count' = (if \<not> used then count + 1 else 0)
        in if count' = cnt then Inr (next_bit - cnt + 1)
           else scan_run b cnt bit_left (next_bit + 1) count'))"

definition bitmap_scan :: "bitmap \<Rightarrow> 32 word \<Rightarrow> 32 word res" where
  "bitmap_scan b cnt =
     bnd (scan_byte b 0) (\<lambda>idx_byte.
     bnd (assert_c (idx_byte < btmp_bytes_len b)) (\<lambda>_.
     if idx_byte = btmp_bytes_len b then Inr (-1) else
     bnd (read_byte b idx_byte) (\<lambda>v.
       (let idx_bit = scan_bit v 0;
            bit_idx_start = idx_byte * 8 + of_nat idx_bit
        in if cnt = 1 then Inr bit_idx_start
           else scan_run b cnt (unat (btmp_bytes_len b * 8 - bit_idx_start))
                  (bit_idx_start + 1) 1))))"

text \<open>\<open>value\<close> is an \<open>int8_t\<close>; the assertion admits 0 and 1.\<close>

definition bitmap_set :: "bitmap \<Rightarrow> 32 word \<Rightarrow> 8 word \<Rightarrow> bitmap res" where
  "bitmap_set b bit_idx v =
     bnd (assert_c (v = 0 \<or> v = 1)) (\<lambda>_.
     (let byte_idx = bit_idx div 8; bit_odd = bit_idx mod 8
      in bnd (read_byte b byte_idx) (\<lambda>old.
         if v \<noteq> 0 then write_byte b byte_idx (old OR push_bit (unat bit_odd) BITMAP_MASK)
         else write_byte b byte_idx (old AND NOT (push_bit (unat bit_odd) BITMAP_MASK)))))"

section \<open>The abstract view: a finite set of used indices\<close>

definition bit_at :: "bitmap \<Rightarrow> nat \<Rightarrow> bool" where
  "bit_at b i = bit (bits b ! (i div 8)) (i mod 8)"

text \<open>
  The array has the length the structure states, and its bit indices fit the \<open>int\<close> the scan
  returns.
\<close>

definition bitmap_ok :: "bitmap \<Rightarrow> bool" where
  "bitmap_ok b \<longleftrightarrow> length (bits b) = unat (btmp_bytes_len b) \<and> 8 * length (bits b) < 2 ^ 31"

definition used :: "bitmap \<Rightarrow> nat set" where
  "used b = {i. i < 8 * length (bits b) \<and> bit_at b i}"

lemma unat_div8: "unat (i div 8 :: 32 word) = unat i div 8"
  by (simp add: unat_div)

lemma unat_mod8: "unat (i mod 8 :: 32 word) = unat i mod 8"
  by (simp add: unat_mod)

lemma scan_test_bit:
  "unat i < 8 * length (bits b) \<Longrightarrow> bitmap_scan_test b i = Inr (bit_at b (unat i))"
  by (simp add: bitmap_scan_test_def Let_def read_byte_def unat_div8 unat_mod8 mask_bit bit_at_def
        less_mult_imp_div_less mult.commute)

lemma scan_test_oob:
  "8 * length (bits b) \<le> unat i \<Longrightarrow> bitmap_scan_test b i = Inl Wild_deref"
  by (simp add: bitmap_scan_test_def Let_def read_byte_def unat_div8)


section \<open>Writing and reading bits\<close>

lemma byte_bound: "unat (i :: 32 word) < 8 * n \<Longrightarrow> unat i div 8 < n"
  by (simp add: less_mult_imp_div_less mult.commute)

lemma bit_update:
  "bit (if v \<noteq> (0 :: 8 word) then old OR push_bit n BITMAP_MASK
        else old AND NOT (push_bit n BITMAP_MASK)) m
   \<longleftrightarrow> m < 8 \<and> (if m = n then v \<noteq> 0 else bit old m)" for old :: "8 word"
  by (auto simp: BITMAP_MASK_def push_bit_of_1 bit_or_iff bit_and_iff bit_not_iff bit_exp_iff
      dest: bit_imp_le_length)

lemma bitmap_set_spec:
  assumes ok: "bitmap_ok b" and i: "unat i < 8 * length (bits b)" and v: "v = 0 \<or> v = 1"
  obtains b' where "bitmap_set b i v = Inr b'" and "bitmap_ok b'"
    and "length (bits b') = length (bits b)" and "btmp_bytes_len b' = btmp_bytes_len b"
    and "\<And>j. j < 8 * length (bits b) \<Longrightarrow> bit_at b' j = (if j = unat i then v = 1 else bit_at b j)"
proof -
  let ?k = "unat i div 8"
  let ?old = "bits b ! ?k"
  let ?new = "if v \<noteq> 0 then ?old OR push_bit (unat i mod 8) BITMAP_MASK
              else ?old AND NOT (push_bit (unat i mod 8) BITMAP_MASK)"
  let ?b = "b\<lparr>bits := (bits b)[?k := ?new]\<rparr>"
  have k: "?k < length (bits b)" using i by (rule byte_bound)
  have set: "bitmap_set b i v = Inr ?b"
    using v k by (auto simp: bitmap_set_def read_byte_def write_byte_def unat_div8 unat_mod8)
  have at: "bit_at ?b j = (if j = unat i then v = 1 else bit_at b j)"
    if j: "j < 8 * length (bits b)" for j
  proof (cases "j div 8 = ?k")
    case True
    then have "j = unat i \<longleftrightarrow> j mod 8 = unat i mod 8"
      by (metis mult_div_mod_eq)
    with True k v show ?thesis
      unfolding bit_at_def by (auto simp: bit_update simp del: bit_and_iff bit_or_iff)
  next
    case False
    then show ?thesis unfolding bit_at_def by auto
  qed
  show ?thesis by (rule that [OF set]) (use ok at in \<open>auto simp: bitmap_ok_def\<close>)
qed


lemma bitmap_set_used:
  assumes ok: "bitmap_ok b" and i: "unat i < 8 * length (bits b)"
  shows "\<exists>b'. bitmap_set b i 1 = Inr b' \<and> bitmap_ok b' \<and> used b' = insert (unat i) (used b)
           \<and> length (bits b') = length (bits b)"
    and "\<exists>b'. bitmap_set b i 0 = Inr b' \<and> bitmap_ok b' \<and> used b' = used b - {unat i}
           \<and> length (bits b') = length (bits b)"
proof -
  obtain b1 where b1: "bitmap_set b i 1 = Inr b1" "bitmap_ok b1"
    "length (bits b1) = length (bits b)"
    "\<And>j. j < 8 * length (bits b) \<Longrightarrow> bit_at b1 j = (if j = unat i then (1::8 word) = 1 else bit_at b j)"
    using bitmap_set_spec [OF ok i, of 1] by auto
  have "used b1 = insert (unat i) (used b)"
    using b1 i by (auto simp: used_def split: if_splits)
  with b1 show "\<exists>b'. bitmap_set b i 1 = Inr b' \<and> bitmap_ok b' \<and> used b' = insert (unat i) (used b)
           \<and> length (bits b') = length (bits b)" by blast
  obtain b0 where b0: "bitmap_set b i 0 = Inr b0" "bitmap_ok b0"
    "length (bits b0) = length (bits b)"
    "\<And>j. j < 8 * length (bits b) \<Longrightarrow> bit_at b0 j = (if j = unat i then (0::8 word) = 1 else bit_at b j)"
    using bitmap_set_spec [OF ok i, of 0] by auto
  have "used b0 = used b - {unat i}"
    using b0 i by (auto simp: used_def split: if_splits)
  with b0 show "\<exists>b'. bitmap_set b i 0 = Inr b' \<and> bitmap_ok b' \<and> used b' = used b - {unat i}
           \<and> length (bits b') = length (bits b)" by blast
qed

lemma bitmap_init_used:
  assumes "bitmap_ok b"
  shows "\<exists>b'. bitmap_init b = Inr b' \<and> bitmap_ok b' \<and> used b' = {}
           \<and> length (bits b') = length (bits b)"
  using assms by (auto simp: bitmap_init_def bitmap_ok_def used_def bit_at_def)

section \<open>The scan for one bit\<close>

lemma scan_bit_spec:
  "n \<le> 8 \<Longrightarrow> n \<le> scan_bit v n \<and> scan_bit v n \<le> 8 \<and> \<not> bit v (scan_bit v n)
     \<and> (\<forall>j. n \<le> j \<and> j < scan_bit v n \<longrightarrow> bit v j)"
proof (induction v n rule: scan_bit.induct)
  case (1 v n)
  show ?case
  proof (cases "bit v n")
    case True
    then have n: "n < 8" using bit_imp_le_length [OF True] by simp
    have "scan_bit v n = scan_bit v (Suc n)"
      using True by (subst scan_bit.simps) (simp add: mask_bit')
    moreover have "Suc n \<le> scan_bit v (Suc n) \<and> scan_bit v (Suc n) \<le> 8
        \<and> \<not> bit v (scan_bit v (Suc n)) \<and> (\<forall>j. Suc n \<le> j \<and> j < scan_bit v (Suc n) \<longrightarrow> bit v j)"
      using "1.IH" True n by (simp add: mask_bit')
    ultimately show ?thesis using True by (metis Suc_le_eq le_neq_implies_less less_imp_le)
  next
    case False
    then have "scan_bit v n = n" by (subst scan_bit.simps) (simp add: mask_bit')
    with False "1.prems" show ?thesis by auto
  qed
qed

lemma not_full_bit: "v \<noteq> (0xff :: 8 word) \<Longrightarrow> \<exists>n<8. \<not> bit v n"
proof (rule ccontr)
  assume v: "v \<noteq> 0xff" and "\<not> (\<exists>n<8. \<not> bit v n)"
  then have "v = -1" by (intro bit_word_eqI) auto
  with v show False by simp
qed

lemma scan_bit_free:
  assumes "v \<noteq> 0xff"
  shows "scan_bit v 0 < 8" and "\<not> bit v (scan_bit v 0)" and "j < scan_bit v 0 \<Longrightarrow> bit v j"
proof -
  obtain n where "n < 8" "\<not> bit v n" using not_full_bit [OF assms] by blast
  then show "scan_bit v 0 < 8"
    using scan_bit_spec [of 0 v] by (metis le0 le_less_trans not_le)
  show "\<not> bit v (scan_bit v 0)" and "j < scan_bit v 0 \<Longrightarrow> bit v j"
    using scan_bit_spec [of 0 v] by auto
qed

lemma scan_byte_spec:
  "length (bits b) = unat (btmp_bytes_len b) \<Longrightarrow>
   scan_byte b i =
     (if \<exists>j. unat i \<le> j \<and> j < length (bits b) \<and> bits b ! j \<noteq> 0xff
      then Inr (of_nat (LEAST j. unat i \<le> j \<and> j < length (bits b) \<and> bits b ! j \<noteq> 0xff))
      else Inl Wild_deref)"
proof (induction b i rule: scan_byte.induct)
  case (1 b i)
  let ?P = "\<lambda>i j. i \<le> j \<and> j < length (bits b) \<and> bits b ! j \<noteq> 0xff"
  show ?case
  proof (cases "unat i < length (bits b)")
    case False
    then show ?thesis by (subst scan_byte.simps) (auto simp: read_byte_def)
  next
    case True
    show ?thesis
    proof (cases "bits b ! unat i = 0xff")
      case full: True
      have lt: "i < btmp_bytes_len b" using True "1.prems" by (simp add: word_less_nat_alt)
      have suc: "unat (i + 1) = Suc (unat i)" by (rule unat_plus_one_less [OF lt])
      have rb: "read_byte b i = Inr (bits b ! unat i)" using True by (simp add: read_byte_def)
      have eq: "?P (unat i) = ?P (Suc (unat i))"
        using full by (auto simp: fun_eq_iff le_less Suc_le_eq)
      have "scan_byte b i = scan_byte b (i + 1)"
        using True full lt by (subst scan_byte.simps) (simp add: read_byte_def)
      also have "\<dots> = (if \<exists>j. ?P (Suc (unat i)) j then Inr (of_nat (LEAST j. ?P (Suc (unat i)) j))
                       else Inl Wild_deref)"
        by (rule "1.IH" [OF rb _ "1.prems", unfolded suc]) (use full lt in simp)
      finally show ?thesis by (simp only: eq)
    next
      case free: False
      have "(LEAST j. ?P (unat i) j) = unat i"
        using True free by (intro Least_equality) auto
      then show ?thesis using True free
        by (subst scan_byte.simps) (auto simp: read_byte_def)
    qed
  qed
qed

text \<open>The index of the lowest clear bit, computed from its byte.\<close>

lemma byte_full_bits: "bits b ! k = 0xff \<longleftrightarrow> (\<forall>n<8. bit_at b (8 * k + n))"
proof
  assume "bits b ! k = 0xff"
  then have "bits b ! k = -1" by simp
  then show "\<forall>n<8. bit_at b (8 * k + n)" by (simp add: bit_at_def)
next
  assume "\<forall>n<8. bit_at b (8 * k + n)"
  then have "\<forall>n<8. bit (bits b ! k) n" by (simp add: bit_at_def)
  then show "bits b ! k = 0xff" using not_full_bit by blast
qed


definition lowest_free :: "bitmap \<Rightarrow> nat" where
  "lowest_free b = (LEAST i. i \<notin> used b)"

lemma lowest_free_props:
  assumes "i < 8 * length (bits b)" and "i \<notin> used b"
  shows "lowest_free b \<notin> used b" and "lowest_free b \<le> i" and "\<And>j. j < lowest_free b \<Longrightarrow> j \<in> used b"
  unfolding lowest_free_def
  using LeastI [of "\<lambda>i. i \<notin> used b", OF assms(2)] Least_le [of "\<lambda>i. i \<notin> used b", OF assms(2)]
    not_less_Least [of _ "\<lambda>i. i \<notin> used b"]
  by blast+

lemma bitmap_scan_one:
  assumes ok: "bitmap_ok b" and i: "i < 8 * length (bits b)" "i \<notin> used b"
  shows "bitmap_scan b 1 = Inr (of_nat (lowest_free b))"
proof -
  let ?P = "\<lambda>j. 0 \<le> j \<and> j < length (bits b) \<and> bits b ! j \<noteq> 0xff"
  let ?k = "LEAST j. ?P j"
  have len: "length (bits b) = unat (btmp_bytes_len b)" and small: "8 * length (bits b) < 2 ^ 31"
    using ok by (simp_all add: bitmap_ok_def)
  have "\<not> bit_at b (8 * (i div 8) + i mod 8)" using i by (simp add: used_def)
  then have "bits b ! (i div 8) \<noteq> 0xff"
    using byte_full_bits [of b "i div 8"] by (metis mod_less_divisor zero_less_numeral)
  then have ex: "\<exists>j. ?P j"
    using i by (intro exI [of _ "i div 8"]) (simp add: less_mult_imp_div_less mult.commute)
  then have k: "?k < length (bits b)" "bits b ! ?k \<noteq> 0xff" and below: "j < ?k \<Longrightarrow> bits b ! j = 0xff" for j
    using LeastI_ex [OF ex] not_less_Least [of j ?P] by (auto)
  let ?n = "scan_bit (bits b ! ?k) 0"
  have n: "?n < 8" "\<not> bit (bits b ! ?k) ?n" and nb: "j < ?n \<Longrightarrow> bit (bits b ! ?k) j" for j
    using scan_bit_free [OF k(2)] by auto
  have uk: "unat (of_nat ?k :: 32 word) = ?k"
    using k small by (intro unat_of_nat_small) simp
  have "scan_byte b 0 = Inr (of_nat ?k)"
    using scan_byte_spec [OF len, of 0] ex by simp
  then have "bitmap_scan b 1 = Inr (of_nat ?k * 8 + of_nat ?n)"
    using k len uk by (auto simp: bitmap_scan_def read_byte_def word_less_nat_alt Let_def)
  moreover have "lowest_free b = ?k * 8 + ?n"
    unfolding lowest_free_def
  proof (rule Least_equality)
    show "?k * 8 + ?n \<notin> used b" using n by (simp add: used_def bit_at_def)
  next
    fix j assume j: "j \<notin> used b"
    show "?k * 8 + ?n \<le> j"
    proof (rule ccontr)
      assume "\<not> ?k * 8 + ?n \<le> j"
      then have lt: "j < ?k * 8 + ?n" by simp
      then have "j div 8 \<le> ?k" using n by auto
      then consider "j div 8 < ?k" | "j div 8 = ?k" by linarith
      then have "bit_at b j"
      proof cases
        case 1
        from below [OF this] have "\<forall>n<8. bit_at b (8 * (j div 8) + n)"
          by (simp only: byte_full_bits)
        then show ?thesis by (metis mod_less_divisor mult_div_mod_eq zero_less_numeral)
      next
        case 2
        then have "j mod 8 < ?n" using lt by (metis add_less_cancel_left div_mult_mod_eq)
        then show ?thesis using nb 2 by (simp add: bit_at_def)
      qed
      moreover have "j < 8 * length (bits b)" using lt n k by linarith
      ultimately show False using j by (simp add: used_def)
    qed
  qed
  ultimately show ?thesis by simp
qed

text \<open>
  When every bit is set, the scan walks to the end of the array and reads the byte behind it:
  neither the assertion nor the \<open>return -1\<close> that follow are reached.
\<close>

lemma bitmap_scan_full:
  assumes ok: "bitmap_ok b" and full: "used b = {..<8 * length (bits b)}"
  shows "bitmap_scan b cnt = Inl Wild_deref"
proof -
  have len: "length (bits b) = unat (btmp_bytes_len b)" using ok by (simp add: bitmap_ok_def)
  have "bits b ! j = 0xff" if "j < length (bits b)" for j
  proof -
    have "\<forall>n<8. 8 * j + n \<in> used b" using that full by auto
    then show ?thesis by (simp add: byte_full_bits used_def)
  qed
  then have "scan_byte b 0 = Inl Wild_deref"
    using scan_byte_spec [OF len, of 0] by auto
  then show ?thesis by (simp add: bitmap_scan_def)
qed


section \<open>The scan for several bits\<close>

definition clear_run :: "bitmap \<Rightarrow> nat \<Rightarrow> nat \<Rightarrow> bool" where
  "clear_run b s n \<longleftrightarrow> s + n \<le> 8 * length (bits b) \<and> (\<forall>j. s \<le> j \<and> j < s + n \<longrightarrow> j \<notin> used b)"

text \<open>
  The invariant of the loop: the \<open>count\<close> bits before \<open>next_bit\<close> are clear, fewer than
  asked for, and the rounds left reach exactly one bit past the map.
\<close>

definition scan_inv :: "bitmap \<Rightarrow> 32 word \<Rightarrow> nat \<Rightarrow> 32 word \<Rightarrow> 32 word \<Rightarrow> bool" where
  "scan_inv b cnt n next_bit count \<longleftrightarrow>
     unat next_bit + n = Suc (8 * length (bits b)) \<and> 0 < n \<and> unat count \<le> unat next_bit
     \<and> count < cnt \<and> clear_run b (unat next_bit - unat count) (unat count)"

lemma used_bit: "i < 8 * length (bits b) \<Longrightarrow> i \<in> used b \<longleftrightarrow> bit_at b i"
  by (simp add: used_def)

lemma clear_run_past_used:
  assumes "m \<in> used b" and "clear_run b s c" and "m < s + c"
  shows "m < s"
  using assms by (rule_tac ccontr) (simp add: clear_run_def)

text \<open>What the invariant of the scan says of its numbers, in \<open>nat\<close>.\<close>

lemma scan_invD:
  assumes ok: "bitmap_ok b" and inv: "scan_inv b cnt (Suc n) nb count"
  shows "unat nb + n = 8 * length (bits b)" and "unat count \<le> unat nb" and "Suc (unat count) \<le> unat cnt"
    and "clear_run b (unat nb - unat count) (unat count)"
    and "unat (nb + 1) = Suc (unat nb)" and "unat (count + 1) = Suc (unat count)"
proof -
  show nb: "unat nb + n = 8 * length (bits b)" and "unat count \<le> unat nb" and c: "Suc (unat count) \<le> unat cnt"
    and "clear_run b (unat nb - unat count) (unat count)"
    using inv by (auto simp: scan_inv_def word_less_nat_alt Suc_le_eq)
  have "8 * length (bits b) < 2 ^ 31" using ok by (simp add: bitmap_ok_def)
  then show "unat (nb + 1) = Suc (unat nb)"
    using nb by (intro unat_plus_one_less [of _ "-1"]) (simp add: word_less_nat_alt unat_max_word)
  show "unat (count + 1) = Suc (unat count)"
    using c by (intro unat_plus_one_less [of _ cnt]) (simp add: word_less_nat_alt)
qed

lemma scan_run_spec:
  assumes "bitmap_ok b" and "scan_inv b cnt n nb count"
  shows "(if \<exists>s. unat nb - unat count \<le> s \<and> clear_run b s (unat cnt)
          then \<exists>r. scan_run b cnt n nb count = Inr r \<and> clear_run b (unat r) (unat cnt)
                 \<and> (\<forall>s. unat nb - unat count \<le> s \<and> clear_run b s (unat cnt) \<longrightarrow> unat r \<le> s)
          else scan_run b cnt n nb count = Inl Wild_deref)"
  using assms(2)
proof (induction n arbitrary: nb count)
  case 0
  then show ?case by (simp add: scan_inv_def)
next
  case (Suc n)
  let ?N = "8 * length (bits b)"
  note inv = scan_invD [OF assms(1) Suc.prems]
  have less: "count < cnt" using inv(3) by (simp add: word_less_nat_alt)
  show ?case
  proof (cases "unat nb < ?N")
    case False
    then have nb: "unat nb = ?N" using inv(1) by simp
    have "\<not> clear_run b s (unat cnt)" if "unat nb - unat count \<le> s" for s
      using that inv(3) nb by (auto simp: clear_run_def)
    then show ?thesis using scan_test_oob [of b nb] nb by auto
  next
    case True
    then have n: "0 < n" using inv(1) by simp
    have test: "bitmap_scan_test b nb = Inr (unat nb \<in> used b)"
      using True by (simp add: scan_test_bit used_bit)
    show ?thesis
    proof (cases "unat nb \<in> used b")
      case used: True
      have step: "scan_run b cnt (Suc n) nb count = scan_run b cnt n (nb + 1) 0"
        using test used less by (auto simp: Let_def)
      have eq: "(unat nb - unat count \<le> s \<and> clear_run b s (unat cnt))
            \<longleftrightarrow> (unat (nb + 1) - unat (0 :: 32 word) \<le> s \<and> clear_run b s (unat cnt))" for s
      proof -
        have "unat nb < s" if "unat nb - unat count \<le> s" "clear_run b s (unat cnt)"
          by (rule clear_run_past_used [OF used that(2)]) (use that(1) inv(2,3) in linarith)
        then show ?thesis by (auto simp: inv(5))
      qed
      have "scan_inv b cnt n (nb + 1) 0"
        using inv n by (auto simp: scan_inv_def clear_run_def word_less_nat_alt)
      from Suc.IH [OF this] show ?thesis unfolding step eq .
    next
      case clear: False
      have run: "clear_run b (unat nb - unat count) (Suc (unat count))"
        using inv(2,4) clear True by (auto simp: clear_run_def less_Suc_eq)
      show ?thesis
      proof (cases "count + 1 = cnt")
        case True
        have step: "scan_run b cnt (Suc n) nb count = Inr (nb - count)"
          using test clear True by (auto simp: Let_def)
        have "unat (nb - count) = unat nb - unat count"
          using inv(2) by (simp add: unat_sub word_le_nat_alt)
        then show ?thesis using step run True inv(6) by auto
      next
        case False
        have step: "scan_run b cnt (Suc n) nb count = scan_run b cnt n (nb + 1) (count + 1)"
          using test clear False by (auto simp: Let_def)
        have "count + 1 < cnt"
          using False inv(3,6) by (simp add: word_less_nat_alt word_unat_eq_iff)
        then have "scan_inv b cnt n (nb + 1) (count + 1)"
          using inv n run by (auto simp: scan_inv_def)
        from Suc.IH [OF this] show ?thesis unfolding step by (simp only: inv(5,6) diff_Suc_Suc)
      qed
    qed
  qed
qed


text \<open>
  The scan for two or more bits returns the lowest start of a clear run, and faults (it reads
  the byte behind the array) when there is none: it never returns \<open>-1\<close>.
\<close>

lemma clear_run_notin: "clear_run b s n \<Longrightarrow> 0 < n \<Longrightarrow> s \<notin> used b \<and> s < 8 * length (bits b)"
  by (simp add: clear_run_def)

lemma bitmap_scan_many:
  assumes ok: "bitmap_ok b" and cnt: "1 < cnt"
  shows "(if \<exists>s. clear_run b s (unat cnt)
          then \<exists>r. bitmap_scan b cnt = Inr r \<and> clear_run b (unat r) (unat cnt)
                 \<and> (\<forall>s. clear_run b s (unat cnt) \<longrightarrow> unat r \<le> s)
          else bitmap_scan b cnt = Inl Wild_deref)"
proof (cases "\<exists>i<8 * length (bits b). i \<notin> used b")
  case False
  then have "used b = {..<8 * length (bits b)}" by (auto simp: used_def)
  moreover have "\<not> clear_run b s (unat cnt)" for s
    using False clear_run_notin [of b s "unat cnt"] cnt by (auto simp: word_less_nat_alt)
  ultimately show ?thesis using bitmap_scan_full [OF ok] by simp
next
  case True
  then obtain i where i: "i < 8 * length (bits b)" "i \<notin> used b" by blast
  let ?f = "lowest_free b"
  have f: "?f \<notin> used b" "?f \<le> i" "\<And>j. j < ?f \<Longrightarrow> j \<in> used b"
    using lowest_free_props [OF i] by blast+
  have small: "8 * length (bits b) < 2 ^ 31" and len: "length (bits b) = unat (btmp_bytes_len b)"
    using ok by (simp_all add: bitmap_ok_def)
  have uf: "unat (of_nat ?f :: 32 word) = ?f"
    using f(2) i(1) small by (intro unat_of_nat_small) simp
  have uf1: "unat (of_nat ?f + 1 :: 32 word) = Suc ?f"
    using f(2) i(1) small uf
    by (subst unat_plus_one_less [of _ "-1"]) (simp_all add: word_less_nat_alt unat_max_word)
  have total: "unat (btmp_bytes_len b * 8) = 8 * length (bits b)"
    using small len by (simp add: unat_mult_lem [THEN iffD1])
  have left: "unat (btmp_bytes_len b * 8 - of_nat ?f) = 8 * length (bits b) - ?f"
    using f(2) i(1) by (subst unat_sub) (simp_all add: word_le_nat_alt total uf)
  have cnt1: "cnt \<noteq> 1" and ucnt: "1 < unat cnt" using cnt by (auto simp: word_less_nat_alt)
  have "bitmap_scan b cnt = scan_run b cnt (8 * length (bits b) - ?f) (of_nat ?f + 1) 1"
    using bitmap_scan_one [OF ok i] cnt1 left
    by (auto simp: bitmap_scan_def Let_def bnd_eq_Inr split: if_splits)
  moreover have inv: "scan_inv b cnt (8 * length (bits b) - ?f) (of_nat ?f + 1) 1"
    using f i cnt by (auto simp: scan_inv_def uf1 clear_run_def dest: le_neq_implies_less)
  ultimately have "(if \<exists>s. ?f \<le> s \<and> clear_run b s (unat cnt)
          then \<exists>r. bitmap_scan b cnt = Inr r \<and> clear_run b (unat r) (unat cnt)
                 \<and> (\<forall>s. ?f \<le> s \<and> clear_run b s (unat cnt) \<longrightarrow> unat r \<le> s)
          else bitmap_scan b cnt = Inl Wild_deref)"
    using scan_run_spec [OF ok inv] by (simp only: uf1 unsigned_1 diff_Suc_1)
  moreover have "(?f \<le> s \<and> clear_run b s (unat cnt)) = clear_run b s (unat cnt)" for s
    using clear_run_notin [of b s "unat cnt"] ucnt f(3) [of s] by (auto simp: not_less [symmetric])
  ultimately show ?thesis by (simp only:)
qed

end
