(* ===== verification/Kernel.thy ===== *)
theory Kernel
  imports CList Bitmap
begin

text \<open>
  The data model of the scheduler: include/task.h, include/sync.h and the global variables of
  task/task.c. Task structures live at addresses of type \<open>task\<close>; their list nodes
  (\<open>general_tag\<close>, \<open>all_list_tag\<close>, \<open>pool_tag\<close>) and the sentinels of the ready list, the list of
  all tasks, the pool and every lock's waiting list are the addresses of one node heap. The
  second half states what it means that the heap holds a family of disjoint queues of tasks
  and lifts the list operations of the theory CList to that view.
\<close>

section \<open>Structures and global state\<close>

text \<open>Addresses of \<open>struct task_struct\<close>; a \<open>struct task_struct *\<close> is a \<open>task option\<close>.\<close>

type_synonym task = nat

datatype task_status =
    TASK_RUNNING
  | TASK_READY
  | TASK_BLOCKED
  | TASK_DIED
  | TASK_WAITING
  | TASK_HANGING

text \<open>
  The registers of \<open>struct sigcontext\<close> in the order of the structure, up to and including the
  segment selectors; \<open>pad0\<close> is the half word the kernel keeps the stack segment in.
\<close>

record sigcontext =
  r8 :: "64 word"
  r9 :: "64 word"
  r10 :: "64 word"
  r11 :: "64 word"
  r12 :: "64 word"
  r13 :: "64 word"
  r14 :: "64 word"
  r15 :: "64 word"
  rdi :: "64 word"
  rsi :: "64 word"
  rbp :: "64 word"
  rbx :: "64 word"
  rdx :: "64 word"
  rax :: "64 word"
  rcx :: "64 word"
  rsp :: "64 word"
  rip :: "64 word"
  eflags :: "64 word"
  cs :: "16 word"
  gs :: "16 word"
  fs :: "16 word"
  pad0 :: "16 word"

text \<open>\<open>struct task_struct\<close> without its three list nodes, which live in the node heap.\<close>

record task_struct =
  task_stack :: "64 word"
  stack_min_addr :: "64 word"
  task_context :: sigcontext
  tid :: "16 word"
  status :: task_status
  name :: string
  priority :: "8 word"
  ticks :: "8 word"
  elapsed_ticks :: "32 word"
  task_function :: "64 word"
  func_args :: "64 word"
  stack_magic :: "32 word"
  sleep_millisecond :: "32 word"
  first :: bool
  is_hook :: bool
  is_collaborative_schedule :: bool

text \<open>
  The locks of the library: the one of the tid pool, the console's, the timer manager's, and
  the ones inside I/O queues or declared by tasks.
\<close>

datatype lock_id = Tid_lock | Console_lock | Timer_lock | User_lock nat

record semaphore =
  sema_value :: "8 word"

record lock =
  holder :: "task option"
  semaphore :: semaphore
  holder_repeat_nr :: "32 word"

datatype list_id = Ready_list | All_list | Pool_list | Waiters lock_id

datatype tag = General_tag | All_list_tag | Pool_tag

datatype node = Head list_id | Tail list_id | Tag tag task

definition clist_of :: "list_id \<Rightarrow> node clist" where
  "clist_of L = \<lparr>list_head = Head L, list_tail = Tail L\<rparr>"

fun tag_of :: "list_id \<Rightarrow> tag" where
  "tag_of Ready_list = General_tag"
| "tag_of All_list = All_list_tag"
| "tag_of Pool_list = Pool_tag"
| "tag_of (Waiters _) = General_tag"

text \<open>
  The global state. \<open>sigmask\<close> is the process's set of blocked signals; \<open>regs\<close> holds the user
  registers of the running task (in a signal handler, the copy the kernel put on the signal
  stack, which \<open>sigreturn\<close> loads back).
\<close>

record kstate =
  nodes :: "node heap"
  tasks :: "task \<rightharpoonup> task_struct"
  main_task :: "task option"
  current_task :: "task option"
  task_all_nums :: "32 word"
  tid_bitmap :: bitmap
  tid_start :: "32 word"
  locks :: "lock_id \<Rightarrow> lock"
  sigmask :: "nat set"
  regs :: sigcontext

section \<open>Access through pointers\<close>

definition get_task :: "'a kstate_scheme \<Rightarrow> task option \<Rightarrow> task_struct res" where
  "get_task k p = (case p of None \<Rightarrow> Inl Null_deref
     | Some t \<Rightarrow> (case tasks k t of None \<Rightarrow> Inl Wild_deref | Some ts \<Rightarrow> Inr ts))"

definition upd_task ::
    "'a kstate_scheme \<Rightarrow> task option \<Rightarrow> (task_struct \<Rightarrow> task_struct) \<Rightarrow> 'a kstate_scheme res" where
  "upd_task k p f = bnd (get_task k p) (\<lambda>ts. Inr (k\<lparr>tasks := (tasks k)(the p \<mapsto> f ts)\<rparr>))"

text \<open>
  \<open>elem2entry\<close>: from the address of a list node back to the structure around it. The
  subtraction is meaningful only on a node of the named member; on a sentinel, on another
  member or on NULL the pointer it makes is wild, and every use in the code dereferences it
  at once.
\<close>

definition elem2entry :: "tag \<Rightarrow> node option \<Rightarrow> task option res" where
  "elem2entry g p = (case p of Some (Tag g' t) \<Rightarrow> (if g' = g then Inr (Some t) else Inl Wild_deref)
     | _ \<Rightarrow> Inl Wild_deref)"

lemma elem2entry_Tag [simp]: "elem2entry g (Some (Tag g t)) = Inr (Some t)"
  by (simp add: elem2entry_def)

lemma get_task_Some [simp]: "tasks k t = Some ts \<Longrightarrow> get_task k (Some t) = Inr ts"
  by (simp add: get_task_def)

lemma get_task_None [simp]: "get_task k None = Inl Null_deref"
  by (simp add: get_task_def)

lemma upd_task_Some [simp]:
  "tasks k t = Some ts \<Longrightarrow> upd_task k (Some t) f = Inr (k\<lparr>tasks := (tasks k)(t \<mapsto> f ts)\<rparr>)"
  by (simp add: upd_task_def)

text \<open>The list operations on one of the kernel's lists, for the node \<open>&task->tag\<close>.\<close>

definition k_append :: "'a kstate_scheme \<Rightarrow> list_id \<Rightarrow> task \<Rightarrow> 'a kstate_scheme res" where
  "k_append k L t = bnd (list_append (nodes k) (clist_of L) (Tag (tag_of L) t))
     (\<lambda>h. Inr (k\<lparr>nodes := h\<rparr>))"

definition k_push :: "'a kstate_scheme \<Rightarrow> list_id \<Rightarrow> task \<Rightarrow> 'a kstate_scheme res" where
  "k_push k L t = bnd (list_push (nodes k) (clist_of L) (Tag (tag_of L) t))
     (\<lambda>h. Inr (k\<lparr>nodes := h\<rparr>))"

definition k_remove :: "'a kstate_scheme \<Rightarrow> tag \<Rightarrow> task \<Rightarrow> 'a kstate_scheme res" where
  "k_remove k g t = bnd (list_remove (nodes k) (Some (Tag g t))) (\<lambda>h. Inr (k\<lparr>nodes := h\<rparr>))"

text \<open>\<open>list_pop\<close> followed by \<open>elem2entry\<close> of the list's own tag.\<close>

definition k_pop :: "'a kstate_scheme \<Rightarrow> list_id \<Rightarrow> (task option \<times> 'a kstate_scheme) res" where
  "k_pop k L =
     bnd (list_pop (nodes k) (clist_of L)) (\<lambda>(e, h).
     bnd (elem2entry (tag_of L) e) (\<lambda>p. Inr (p, k\<lparr>nodes := h\<rparr>)))"

definition k_find :: "'a kstate_scheme \<Rightarrow> list_id \<Rightarrow> task \<Rightarrow> bool res" where
  "k_find k L t = elem_find (nodes k) (clist_of L) (Tag (tag_of L) t)"

definition k_empty :: "'a kstate_scheme \<Rightarrow> list_id \<Rightarrow> bool res" where
  "k_empty k L = list_empty (nodes k) (clist_of L)"

section \<open>The heap as a family of queues\<close>

text \<open>
  \<open>queues h Q\<close>: for each list \<open>L\<close> that has been initialised, the heap holds the tasks \<open>Q L\<close> in
  that order, and no task is on two lists that use the same member.
\<close>

type_synonym queue_view = "list_id \<rightharpoonup> task list"

definition queues :: "node heap \<Rightarrow> queue_view \<Rightarrow> bool" where
  "queues h Q \<longleftrightarrow>
     (\<forall>L xs. Q L = Some xs \<longrightarrow> is_list h (clist_of L) (map (Tag (tag_of L)) xs))
     \<and> (\<forall>L M xs ys. Q L = Some xs \<and> Q M = Some ys \<and> L \<noteq> M \<and> tag_of L = tag_of M
          \<longrightarrow> set xs \<inter> set ys = {})"

definition unqueued :: "queue_view \<Rightarrow> tag \<Rightarrow> task \<Rightarrow> bool" where
  "unqueued Q g t \<longleftrightarrow> (\<forall>L xs. Q L = Some xs \<and> tag_of L = g \<longrightarrow> t \<notin> set xs)"

lemma queues_list: "queues h Q \<Longrightarrow> Q L = Some xs \<Longrightarrow> is_list h (clist_of L) (map (Tag (tag_of L)) xs)"
  by (simp add: queues_def)

lemma queues_disjoint:
  "queues h Q \<Longrightarrow> Q L = Some xs \<Longrightarrow> Q M = Some ys \<Longrightarrow> L \<noteq> M \<Longrightarrow> tag_of L = tag_of M
   \<Longrightarrow> set xs \<inter> set ys = {}"
  unfolding queues_def by blast

lemma inj_Tag: "inj (Tag g)"
  by (simp add: inj_def)

lemma queues_distinct: "queues h Q \<Longrightarrow> Q L = Some xs \<Longrightarrow> distinct xs"
  using is_list_distinct [OF queues_list] by (fastforce simp: distinct_map)

lemma queues_dom: "queues h Q \<Longrightarrow> Q L = Some xs \<Longrightarrow> t \<in> set xs \<Longrightarrow> Tag (tag_of L) t \<in> dom h"
  by (rule subsetD [OF is_list_dom [OF queues_list [of h Q L xs]]]) (auto simp: list_nodes_def)

lemma list_nodes_clist_of:
  "list_nodes (clist_of L) ns = {Head L, Tail L} \<union> set ns"
  by (auto simp: list_nodes_def clist_of_def)

text \<open>Replacing one queue: the other lists share no node with the ones written.\<close>

lemma queues_update:
  assumes q: "queues h Q" and L: "Q L = Some xs"
    and l': "is_list h' (clist_of L) (map (Tag (tag_of L)) ys)"
    and fr: "frame_eq ({Head L, Tail L} \<union> Tag (tag_of L) ` (set xs \<union> A)) h h'"
    and A: "\<And>t. t \<in> A \<Longrightarrow> t \<notin> set xs \<Longrightarrow> unqueued Q (tag_of L) t" and ys: "set ys \<subseteq> set xs \<union> A"
  shows "queues h' (Q(L \<mapsto> ys))"
proof -
  have out: "t \<notin> set zs"
    if t: "t \<in> set xs \<union> A" and M: "Q M = Some zs" and neq: "M \<noteq> L" "tag_of M = tag_of L" for t M zs
  proof (cases "t \<in> set xs")
    case True
    with queues_disjoint [OF q L M] neq show ?thesis by auto
  next
    case False
    with t have "t \<in> A" by blast
    from A [OF this False] M neq show ?thesis unfolding unqueued_def by blast
  qed
  show ?thesis
    unfolding queues_def
  proof (intro conjI allI impI)
    fix M zs assume M: "(Q(L \<mapsto> ys)) M = Some zs"
    show "is_list h' (clist_of M) (map (Tag (tag_of M)) zs)"
    proof (cases "M = L")
      case True
      with M l' show ?thesis by simp
    next
      case False
      with M have M: "Q M = Some zs" by simp
      have "({Head L, Tail L} \<union> Tag (tag_of L) ` (set xs \<union> A))
          \<inter> list_nodes (clist_of M) (map (Tag (tag_of M)) zs) = {}"
        using out [OF _ M False] False by (auto simp: list_nodes_clist_of)
      then show ?thesis using is_list_nodes_frame [OF fr] queues_list [OF q M] by blast
    qed
  next
    fix M N us vs
    assume a: "(Q(L \<mapsto> ys)) M = Some us \<and> (Q(L \<mapsto> ys)) N = Some vs \<and> M \<noteq> N \<and> tag_of M = tag_of N"
    consider "M = L" "N \<noteq> L" | "N = L" "M \<noteq> L" | "M \<noteq> L" "N \<noteq> L" using a by blast
    then show "set us \<inter> set vs = {}"
    proof cases
      case 1
      then show ?thesis using a out [of _ N vs] ys by auto
    next
      case 2
      then show ?thesis using a out [of _ M us] ys by auto
    next
      case 3
      then show ?thesis using a queues_disjoint [OF q, of M us N vs] by simp
    qed
  qed
qed

section \<open>The list operations on the family of queues\<close>

lemma queues_fresh:
  assumes "queues h Q" and "Q L = Some xs" and "unqueued Q (tag_of L) t"
  shows "Tag (tag_of L) t \<notin> list_nodes (clist_of L) (map (Tag (tag_of L)) xs)"
  using assms by (auto simp: list_nodes_clist_of unqueued_def)

lemma k_append_spec:
  assumes q: "queues (nodes k) Q" and L: "Q L = Some xs"
    and u: "unqueued Q (tag_of L) t" and d: "Tag (tag_of L) t \<in> dom (nodes k)"
  obtains h where "k_append k L t = Inr (k\<lparr>nodes := h\<rparr>)" and "queues h (Q(L \<mapsto> xs @ [t]))"
    and "dom h = dom (nodes k)"
proof -
  obtain h where h: "list_append (nodes k) (clist_of L) (Tag (tag_of L) t) = Inr h"
    "is_list h (clist_of L) (map (Tag (tag_of L)) xs @ [Tag (tag_of L) t])"
    "frame_eq (insert (Tag (tag_of L) t) (list_nodes (clist_of L) (map (Tag (tag_of L)) xs))) (nodes k) h"
    by (rule list_append_spec [OF queues_list [OF q L] queues_fresh [OF q L u] d])
  have fr: "frame_eq ({Head L, Tail L} \<union> Tag (tag_of L) ` (set xs \<union> {t})) (nodes k) h"
    by (rule frame_eq_mono [OF h(3)]) (auto simp: list_nodes_clist_of)
  have "queues h (Q(L \<mapsto> xs @ [t]))"
    by (rule queues_update [OF q L _ fr]) (use h(2) u in auto)
  then show ?thesis using that h(1) frame_eq_dom [OF fr] by (simp add: k_append_def)
qed

lemma k_push_spec:
  assumes q: "queues (nodes k) Q" and L: "Q L = Some xs"
    and u: "unqueued Q (tag_of L) t" and d: "Tag (tag_of L) t \<in> dom (nodes k)"
  obtains h where "k_push k L t = Inr (k\<lparr>nodes := h\<rparr>)" and "queues h (Q(L \<mapsto> t # xs))"
    and "dom h = dom (nodes k)"
proof -
  obtain h where h: "list_push (nodes k) (clist_of L) (Tag (tag_of L) t) = Inr h"
    "is_list h (clist_of L) (Tag (tag_of L) t # map (Tag (tag_of L)) xs)"
    "frame_eq (insert (Tag (tag_of L) t) (list_nodes (clist_of L) (map (Tag (tag_of L)) xs))) (nodes k) h"
    by (rule list_push_spec [OF queues_list [OF q L] queues_fresh [OF q L u] d])
  have fr: "frame_eq ({Head L, Tail L} \<union> Tag (tag_of L) ` (set xs \<union> {t})) (nodes k) h"
    by (rule frame_eq_mono [OF h(3)]) (auto simp: list_nodes_clist_of)
  have "queues h (Q(L \<mapsto> t # xs))"
    by (rule queues_update [OF q L _ fr]) (use h(2) u in auto)
  then show ?thesis using that h(1) frame_eq_dom [OF fr] by (simp add: k_push_def)
qed

lemma k_remove_spec:
  assumes q: "queues (nodes k) Q" and L: "Q L = Some (xs @ t # ys)"
  obtains h where "k_remove k (tag_of L) t = Inr (k\<lparr>nodes := h\<rparr>)"
    and "queues h (Q(L \<mapsto> xs @ ys))" and "dom h = dom (nodes k)"
proof -
  have l: "is_list (nodes k) (clist_of L)
      (map (Tag (tag_of L)) xs @ Tag (tag_of L) t # map (Tag (tag_of L)) ys)"
    using queues_list [OF q L] by simp
  obtain h where h: "list_remove (nodes k) (Some (Tag (tag_of L) t)) = Inr h"
    "is_list h (clist_of L) (map (Tag (tag_of L)) xs @ map (Tag (tag_of L)) ys)"
    "frame_eq (list_nodes (clist_of L) (map (Tag (tag_of L)) xs @ map (Tag (tag_of L)) ys)) (nodes k) h"
    by (rule list_remove_spec [OF l])
  have fr: "frame_eq ({Head L, Tail L} \<union> Tag (tag_of L) ` (set (xs @ t # ys) \<union> {})) (nodes k) h"
    by (rule frame_eq_mono [OF h(3)]) (auto simp: list_nodes_clist_of)
  have "queues h (Q(L \<mapsto> xs @ ys))"
    by (rule queues_update [OF q L _ fr]) (use h(2) in auto)
  then show ?thesis using that h(1) frame_eq_dom [OF fr] by (simp add: k_remove_def)
qed

lemma k_pop_spec:
  assumes q: "queues (nodes k) Q" and L: "Q L = Some (t # xs)"
  obtains h where "k_pop k L = Inr (Some t, k\<lparr>nodes := h\<rparr>)" and "queues h (Q(L \<mapsto> xs))"
    and "dom h = dom (nodes k)"
proof -
  have l: "is_list (nodes k) (clist_of L) (Tag (tag_of L) t # map (Tag (tag_of L)) xs)"
    using queues_list [OF q L] by simp
  obtain h where h: "list_pop (nodes k) (clist_of L) = Inr (Some (Tag (tag_of L) t), h)"
    "is_list h (clist_of L) (map (Tag (tag_of L)) xs)"
    "frame_eq (list_nodes (clist_of L) (map (Tag (tag_of L)) xs)) (nodes k) h"
    by (rule list_pop_spec [OF l])
  have fr: "frame_eq ({Head L, Tail L} \<union> Tag (tag_of L) ` (set (t # xs) \<union> {})) (nodes k) h"
    by (rule frame_eq_mono [OF h(3)]) (auto simp: list_nodes_clist_of)
  have "queues h (Q(L \<mapsto> xs))"
    by (rule queues_update [OF q L _ fr]) (use h(2) in auto)
  then show ?thesis using that h(1) frame_eq_dom [OF fr] by (simp add: k_pop_def)
qed

lemma k_pop_empty: "queues (nodes k) Q \<Longrightarrow> Q L = Some [] \<Longrightarrow> k_pop k L = Inl Null_deref"
  using list_pop_empty [of "nodes k" "clist_of L"] queues_list [of "nodes k" Q L "[]"]
  by (simp add: k_pop_def)

lemma k_empty_spec: "queues (nodes k) Q \<Longrightarrow> Q L = Some xs \<Longrightarrow> k_empty k L = Inr (xs = [])"
  using list_empty_spec [OF queues_list] by (fastforce simp: k_empty_def)

lemma k_find_spec:
  assumes q: "queues (nodes k) Q" and L: "Q L = Some xs"
  shows "k_find k L t = Inr (t \<in> set xs)"
  using elem_find_spec [OF queues_list [OF q L], of "Tag (tag_of L) t"]
  by (auto simp: k_find_def clist_of_def)

end
