(* ===== verification/Interrupts.thy ===== *)
theory Interrupts
  imports Kernel
begin

text \<open>
  The simulated interrupt flag of interrupt/analog_interrupt.c: the library takes a signal for
  its clock interrupt and shields itself by putting that signal into the process's blocked set.
  Also \<open>set_ticker\<close> of include/set_ticker.h, which programs the interval timer.
\<close>

section \<open>Blocking and unblocking the signal\<close>

definition SIGUSR1 :: nat where "SIGUSR1 = 10"
definition SIGALRM :: nat where "SIGALRM = 14"

type_synonym sigset = "nat set"

definition sigemptyset :: sigset where "sigemptyset = {}"

definition sigaddset :: "sigset \<Rightarrow> nat \<Rightarrow> sigset" where "sigaddset S n = insert n S"

datatype mask_how = SIG_BLOCK | SIG_UNBLOCK

fun sigprocmask :: "mask_how \<Rightarrow> sigset \<Rightarrow> sigset \<Rightarrow> sigset" where
  "sigprocmask SIG_BLOCK S m = m \<union> S"
| "sigprocmask SIG_UNBLOCK S m = m - S"

definition interrupt_enable :: "'a kstate_scheme \<Rightarrow> 'a kstate_scheme" where
  "interrupt_enable k =
     k\<lparr>sigmask := sigprocmask SIG_UNBLOCK (sigaddset sigemptyset SIGUSR1) (sigmask k)\<rparr>"

definition interrupt_disable :: "'a kstate_scheme \<Rightarrow> 'a kstate_scheme" where
  "interrupt_disable k =
     k\<lparr>sigmask := sigprocmask SIG_BLOCK (sigaddset sigemptyset SIGUSR1) (sigmask k)\<rparr>"

text \<open>A preemption is possible while the signal is not blocked.\<close>

definition irq_on :: "'a kstate_scheme \<Rightarrow> bool" where
  "irq_on k \<longleftrightarrow> SIGUSR1 \<notin> sigmask k"

lemma irq_on_simps [simp]:
  "irq_on (interrupt_enable k)" "\<not> irq_on (interrupt_disable k)"
  by (simp_all add: irq_on_def interrupt_enable_def interrupt_disable_def sigemptyset_def sigaddset_def)

lemma irq_on_upd [simp]:
  "irq_on (k\<lparr>nodes := h\<rparr>) = irq_on k" "irq_on (k\<lparr>tasks := ts\<rparr>) = irq_on k"
  "irq_on (k\<lparr>locks := ls\<rparr>) = irq_on k" "irq_on (k\<lparr>current_task := c\<rparr>) = irq_on k"
  "irq_on (k\<lparr>regs := r\<rparr>) = irq_on k" "irq_on (k\<lparr>tid_bitmap := b\<rparr>) = irq_on k"
  "irq_on (k\<lparr>task_all_nums := n\<rparr>) = irq_on k"
  by (simp_all add: irq_on_def)

lemma interrupt_fields [simp]:
  "nodes (interrupt_enable k) = nodes k" "nodes (interrupt_disable k) = nodes k"
  "tasks (interrupt_enable k) = tasks k" "tasks (interrupt_disable k) = tasks k"
  "main_task (interrupt_enable k) = main_task k" "main_task (interrupt_disable k) = main_task k"
  "current_task (interrupt_enable k) = current_task k"
  "current_task (interrupt_disable k) = current_task k"
  "task_all_nums (interrupt_enable k) = task_all_nums k"
  "task_all_nums (interrupt_disable k) = task_all_nums k"
  "tid_bitmap (interrupt_enable k) = tid_bitmap k" "tid_bitmap (interrupt_disable k) = tid_bitmap k"
  "tid_start (interrupt_enable k) = tid_start k" "tid_start (interrupt_disable k) = tid_start k"
  "locks (interrupt_enable k) = locks k" "locks (interrupt_disable k) = locks k"
  "regs (interrupt_enable k) = regs k" "regs (interrupt_disable k) = regs k"
  by (simp_all add: interrupt_enable_def interrupt_disable_def)

text \<open>
  The flag does not nest: however often it was cleared, one \<open>interrupt_enable\<close> sets it. A
  section shielded by a pair of calls is open after the first inner pair.
\<close>

lemma no_nesting: "irq_on (interrupt_enable (interrupt_disable (interrupt_disable k)))"
  by simp

section \<open>The interval timer\<close>

record itimerval =
  it_interval_sec :: int
  it_interval_usec :: int
  it_value_sec :: int
  it_value_usec :: int

text \<open>\<open>set_ticker\<close> returns what \<open>setitimer\<close> returns; the model returns what it passes to it.\<close>

definition set_ticker :: "int \<Rightarrow> itimerval" where
  "set_ticker n_msecs =
     (let n_sec = c_div n_msecs 1000; n_usecs = c_mod n_msecs 1000 * 1000
      in \<lparr>it_interval_sec = n_sec, it_interval_usec = n_usecs,
          it_value_sec = n_sec, it_value_usec = n_usecs\<rparr>)"

text \<open>
  For a non-negative period the fields are in the range \<open>setitimer\<close> accepts and add up to
  the period asked for, and the first expiry is one period away.
\<close>

lemma set_ticker_period:
  assumes "0 \<le> n"
  shows "it_interval_sec (set_ticker n) * 1000000 + it_interval_usec (set_ticker n) = n * 1000"
    and "0 \<le> it_interval_usec (set_ticker n)" and "it_interval_usec (set_ticker n) < 1000000"
    and "it_value_sec (set_ticker n) = it_interval_sec (set_ticker n)"
    and "it_value_usec (set_ticker n) = it_interval_usec (set_ticker n)"
proof -
  show "it_interval_sec (set_ticker n) * 1000000 + it_interval_usec (set_ticker n) = n * 1000"
    using assms by (simp add: set_ticker_def Let_def c_div_nonneg c_mod_nonneg) presburger
qed (use assms in \<open>simp_all add: set_ticker_def Let_def c_div_nonneg c_mod_nonneg\<close>)

end
