(* ===== verification/Context.thy ===== *)
theory Context
  imports Kernel
begin

text \<open>
  The context switch routines in assembly: task/context_swap.asm, task/died_context_swap.asm
  (\<open>context_set\<close>) and task/get_reg.asm. Each routine is the list of its instructions, run on a
  machine of registers and memory; memory is a map from addresses to 8-byte words, exact for
  the 8-byte aligned accesses the routines make. The theorems say what a switch stores, what
  it loads, and that a task switched away and back finds its registers as it left them.
\<close>

section \<open>Instructions\<close>

datatype reg =
    R8 | R9 | R10 | R11 | R12 | R13 | R14 | R15
  | RDI | RSI | RBP | RBX | RDX | RAX | RCX | RSP

text \<open>
  \<open>Store b i r\<close> is \<open>mov [b + 8*i], r\<close>, \<open>Load r b i\<close> is \<open>mov r, [b + 8*i]\<close>, \<open>Lea r b i\<close> is
  \<open>lea r, [b + 8*i]\<close>.
\<close>

datatype instr =
    Store reg nat reg
  | Load reg reg nat
  | Lea reg reg nat
  | Push reg
  | Ret

record machine =
  reg :: "reg \<Rightarrow> 64 word"
  mem :: "64 word \<Rightarrow> 64 word"
  pc :: "64 word"

fun exec1 :: "instr \<Rightarrow> machine \<Rightarrow> machine" where
  "exec1 (Store b i r) m = m\<lparr>mem := (mem m)(reg m b + 8 * of_nat i := reg m r)\<rparr>"
| "exec1 (Load r b i) m = m\<lparr>reg := (reg m)(r := mem m (reg m b + 8 * of_nat i))\<rparr>"
| "exec1 (Lea r b i) m = m\<lparr>reg := (reg m)(r := reg m b + 8 * of_nat i)\<rparr>"
| "exec1 (Push r) m =
     m\<lparr>mem := (mem m)(reg m RSP - 8 := reg m r), reg := (reg m)(RSP := reg m RSP - 8)\<rparr>"
| "exec1 Ret m = m\<lparr>pc := mem m (reg m RSP), reg := (reg m)(RSP := reg m RSP + 8)\<rparr>"

fun exec :: "instr list \<Rightarrow> machine \<Rightarrow> machine" where
  "exec [] m = m"
| "exec (i # is) m = exec is (exec1 i m)"

lemma exec_append: "exec (xs @ ys) m = exec ys (exec xs m)"
  by (induction xs arbitrary: m) simp_all

section \<open>The routines\<close>

definition context_swap_save :: "instr list" where
  "context_swap_save =
     [Store RDI 0 R8, Store RDI 1 R9, Store RDI 2 R10, Store RDI 3 R11,
      Store RDI 4 R12, Store RDI 5 R13, Store RDI 6 R14, Store RDI 7 R15,
      Store RDI 8 RDI, Store RDI 9 RSI, Store RDI 10 RBP, Store RDI 11 RBX,
      Store RDI 12 RDX, Store RDI 13 RAX, Store RDI 14 RCX,
      Load RCX RSP 0, Store RDI 16 RCX,
      Lea RCX RSP 1, Store RDI 15 RCX]"

definition context_swap_load :: "instr list" where
  "context_swap_load =
     [Load R8 RSI 0, Load R9 RSI 1, Load R10 RSI 2, Load R11 RSI 3,
      Load R12 RSI 4, Load R13 RSI 5, Load R14 RSI 6, Load R15 RSI 7,
      Load RDI RSI 8, Load RBP RSI 10, Load RBX RSI 11,
      Load RDX RSI 12, Load RAX RSI 13, Load RSP RSI 15,
      Load RCX RSI 16, Push RCX,
      Load RCX RSI 14, Load RSI RSI 9, Ret]"

definition context_swap_code :: "instr list" where
  "context_swap_code = context_swap_save @ context_swap_load"

definition context_set_code :: "instr list" where
  "context_set_code =
     [Load R8 RDI 0, Load R9 RDI 1, Load R10 RDI 2, Load R11 RDI 3,
      Load R12 RDI 4, Load R13 RDI 5, Load R14 RDI 6, Load R15 RDI 7,
      Load RSI RDI 9, Load RBP RDI 10, Load RBX RDI 11,
      Load RDX RDI 12, Load RAX RDI 13, Load RCX RDI 14, Load RSP RDI 15,
      Load RCX RDI 16, Push RCX,
      Load RCX RDI 14, Load RDI RDI 8, Ret]"

text \<open>\<open>get_reg\<close> stores the code and the stack segment selector into a context.\<close>

definition get_reg :: "16 word \<Rightarrow> 16 word \<Rightarrow> sigcontext \<Rightarrow> sigcontext" where
  "get_reg cs_reg ss_reg c = c\<lparr>cs := cs_reg, pad0 := ss_reg\<rparr>"

section \<open>What a switch stores and loads\<close>

text \<open>The slot of each register in \<open>struct sigcontext\<close>; slot 16 is \<open>rip\<close>.\<close>

fun slot :: "reg \<Rightarrow> nat" where
  "slot R8 = 0" | "slot R9 = 1" | "slot R10 = 2" | "slot R11 = 3"
| "slot R12 = 4" | "slot R13 = 5" | "slot R14 = 6" | "slot R15 = 7"
| "slot RDI = 8" | "slot RSI = 9" | "slot RBP = 10" | "slot RBX = 11"
| "slot RDX = 12" | "slot RAX = 13" | "slot RCX = 14" | "slot RSP = 15"

definition ctx_reg :: "(64 word \<Rightarrow> 64 word) \<Rightarrow> 64 word \<Rightarrow> reg \<Rightarrow> 64 word" where
  "ctx_reg M a r = M (a + 8 * of_nat (slot r))"

definition ctx_rip :: "(64 word \<Rightarrow> 64 word) \<Rightarrow> 64 word \<Rightarrow> 64 word" where
  "ctx_rip M a = M (a + 8 * 16)"

definition block :: "64 word \<Rightarrow> 64 word set" where
  "block a = (\<lambda>i. a + 8 * of_nat i) ` {..<17}"

lemma block_mem: "i < 17 \<Longrightarrow> a + 8 * of_nat i \<in> block a"
  unfolding block_def by blast


lemma block_slot: "a + 8 * of_nat (slot r) \<in> block a"
  by (rule block_mem) (cases r; simp)

text \<open>The registers the caller will see once the call returns.\<close>

definition caller_reg :: "machine \<Rightarrow> reg \<Rightarrow> 64 word" where
  "caller_reg m = (reg m)(RSP := reg m RSP + 8)"

definition caller_rip :: "machine \<Rightarrow> 64 word" where
  "caller_rip m = mem m (reg m RSP)"

lemma save_spec:
  assumes sep: "reg m RSP \<notin> block (reg m RDI)"
  defines "m' \<equiv> exec context_swap_save m"
  shows "ctx_reg (mem m') (reg m RDI) r = caller_reg m r"
    and "ctx_rip (mem m') (reg m RDI) = caller_rip m"
    and "x \<notin> block (reg m RDI) \<Longrightarrow> mem m' x = mem m x"
    and "r \<noteq> RCX \<Longrightarrow> reg m' r = reg m r"
proof -
  have ne: "reg m RSP \<noteq> reg m RDI + 8 * of_nat i" if "i < 17" for i
    using sep block_mem [OF that] by metis
  note ne' = ne [of 0] ne [of 1] ne [of 2] ne [of 3] ne [of 4] ne [of 5] ne [of 6] ne [of 7]
    ne [of 8] ne [of 9] ne [of 10] ne [of 11] ne [of 12] ne [of 13] ne [of 14]
  show "ctx_reg (mem m') (reg m RDI) r = caller_reg m r"
    by (cases r) (simp_all add: m'_def context_swap_save_def ctx_reg_def caller_reg_def)
  show "ctx_rip (mem m') (reg m RDI) = caller_rip m"
    using ne' by (simp add: m'_def context_swap_save_def ctx_rip_def caller_rip_def)
  show "reg m' r = reg m r" if "r \<noteq> RCX"
    using that by (simp add: m'_def context_swap_save_def)
  show "mem m' x = mem m x" if x: "x \<notin> block (reg m RDI)"
  proof -
    have nx: "x \<noteq> reg m RDI + 8 * of_nat i" if "i < 17" for i
      using x block_mem [OF that] by metis
    note nx [of 0] nx [of 1] nx [of 2] nx [of 3] nx [of 4] nx [of 5] nx [of 6] nx [of 7]
      nx [of 8] nx [of 9] nx [of 10] nx [of 11] nx [of 12] nx [of 13] nx [of 14] nx [of 15] nx [of 16]
    then show ?thesis by (simp add: m'_def context_swap_save_def)
  qed
qed

lemma load_spec:
  assumes sep: "ctx_reg (mem m) (reg m RSI) RSP - 8 \<notin> block (reg m RSI)"
  defines "m' \<equiv> exec context_swap_load m"
  shows "reg m' r = ctx_reg (mem m) (reg m RSI) r"
    and "pc m' = ctx_rip (mem m) (reg m RSI)"
    and "mem m' = (mem m)(ctx_reg (mem m) (reg m RSI) RSP - 8 := ctx_rip (mem m) (reg m RSI))"
proof -
  have ne: "ctx_reg (mem m) (reg m RSI) RSP - 8 \<noteq> reg m RSI + 8 * of_nat i" if "i < 17" for i
    using sep block_mem [OF that] by metis
  show "reg m' r = ctx_reg (mem m) (reg m RSI) r"
    using ne [of 14] ne [of 9]
    by (cases r) (simp_all add: m'_def context_swap_load_def ctx_reg_def)
  show "pc m' = ctx_rip (mem m) (reg m RSI)"
    "mem m' = (mem m)(ctx_reg (mem m) (reg m RSI) RSP - 8 := ctx_rip (mem m) (reg m RSI))"
    by (simp_all add: m'_def context_swap_load_def ctx_reg_def ctx_rip_def)
qed

text \<open>
  \<open>context_swap(c, n)\<close>: the block at \<open>c\<close> gets the registers the caller would have had after
  the call and its return address, the processor gets the block at \<open>n\<close>, and outside \<open>c\<close> only
  the word below the new stack pointer is written: it gets the address jumped to.
\<close>

lemma context_swap_spec:
  assumes "reg m RSP \<notin> block (reg m RDI)"
    and disj: "block (reg m RDI) \<inter> block (reg m RSI) = {}"
    and stk: "ctx_reg (mem m) (reg m RSI) RSP - 8 \<notin> block (reg m RSI) \<union> block (reg m RDI)"
  defines "m' \<equiv> exec context_swap_code m"
  shows "ctx_reg (mem m') (reg m RDI) r = caller_reg m r"
    and "ctx_rip (mem m') (reg m RDI) = caller_rip m"
    and "reg m' r = ctx_reg (mem m) (reg m RSI) r"
    and "pc m' = ctx_rip (mem m) (reg m RSI)"
    and "x \<notin> block (reg m RDI) \<Longrightarrow> x \<noteq> ctx_reg (mem m) (reg m RSI) RSP - 8 \<Longrightarrow> mem m' x = mem m x"
    and "mem m' (ctx_reg (mem m) (reg m RSI) RSP - 8) = ctx_rip (mem m) (reg m RSI)"
proof -
  let ?m1 = "exec context_swap_save m"
  note s = save_spec [OF assms(1)]
  have m': "m' = exec context_swap_load ?m1"
    by (simp add: m'_def context_swap_code_def exec_append)
  have rsi: "reg ?m1 RSI = reg m RSI" by (simp add: s(4))
  have cr: "ctx_reg (mem ?m1) (reg m RSI) q = ctx_reg (mem m) (reg m RSI) q" for q
    using s(3) disj block_slot [of "reg m RSI" q] unfolding ctx_reg_def by blast
  have ci: "ctx_rip (mem ?m1) (reg m RSI) = ctx_rip (mem m) (reg m RSI)"
    using s(3) disj block_mem [of 16 "reg m RSI"] unfolding ctx_rip_def by auto
  note l = load_spec [of ?m1, unfolded rsi cr ci, folded m']
  have stk': "ctx_reg (mem m) (reg m RSI) RSP - 8 \<notin> block (reg m RSI)"
    "ctx_reg (mem m) (reg m RSI) RSP - 8 \<notin> block (reg m RDI)"
    using stk by auto
  show "ctx_reg (mem m') (reg m RDI) r = caller_reg m r"
    using s(1) [of r] l(3) [OF stk'(1)] stk'(2) block_slot [of "reg m RDI" r]
    unfolding ctx_reg_def by (metis fun_upd_other)
  have rip_slot: "reg m RDI + 8 * 16 \<in> block (reg m RDI)"
    using block_mem [of 16 "reg m RDI"] by simp
  show "ctx_rip (mem m') (reg m RDI) = caller_rip m"
  proof -
    have "reg m RDI + 8 * 16 \<noteq> ctx_reg (mem m) (reg m RSI) RSP - 8"
      using rip_slot stk'(2) by metis
    then show ?thesis using s(2) l(3) [OF stk'(1)] unfolding ctx_rip_def by (metis fun_upd_other)
  qed
  show "reg m' r = ctx_reg (mem m) (reg m RSI) r"
    "pc m' = ctx_rip (mem m) (reg m RSI)"
    by (simp_all add: l(1,2) [OF stk'(1)])
  show "x \<notin> block (reg m RDI) \<Longrightarrow> x \<noteq> ctx_reg (mem m) (reg m RSI) RSP - 8 \<Longrightarrow> mem m' x = mem m x"
    by (simp add: l(3) [OF stk'(1)] s(3))
  show "mem m' (ctx_reg (mem m) (reg m RSI) RSP - 8) = ctx_rip (mem m) (reg m RSI)"
    by (simp add: l(3) [OF stk'(1)])
qed


text \<open>
  Away and again: a task calls \<open>context_swap(c, n)\<close>; later some task calls
  \<open>context_swap(d, c)\<close> while the block at \<open>c\<close> is as the first call left it. The processor then
  runs at the return address of the first call with the registers the first caller had, the
  return address popped.
\<close>

lemma context_swap_resume:
  assumes "reg m RSP \<notin> block (reg m RDI)"
    and "block (reg m RDI) \<inter> block (reg m RSI) = {}"
    and "ctx_reg (mem m) (reg m RSI) RSP - 8 \<notin> block (reg m RSI) \<union> block (reg m RDI)"
    and keep: "\<And>x. x \<in> block (reg m RDI) \<Longrightarrow> mem w x = mem (exec context_swap_code m) x"
    and again: "reg w RSI = reg m RDI"
    and "reg w RSP \<notin> block (reg w RDI)"
    and "block (reg w RDI) \<inter> block (reg w RSI) = {}"
    and "reg m RSP \<notin> block (reg m RDI) \<union> block (reg w RDI)"
  shows "reg (exec context_swap_code w) r = caller_reg m r"
    and "pc (exec context_swap_code w) = caller_rip m"
proof -
  note s = context_swap_spec [OF assms(1-3)]
  have cr: "ctx_reg (mem w) (reg m RDI) q = caller_reg m q" for q
    using keep [OF block_slot] s(1) [of q] by (simp add: ctx_reg_def)
  have ci: "ctx_rip (mem w) (reg m RDI) = caller_rip m"
    using keep [OF block_mem [of 16 "reg m RDI"]] s(2) by (simp add: ctx_rip_def)
  have stk: "ctx_reg (mem w) (reg w RSI) RSP - 8 \<notin> block (reg w RSI) \<union> block (reg w RDI)"
    using assms(8) by (simp add: again cr caller_reg_def)
  note t = context_swap_spec [OF assms(6,7) stk]
  show "reg (exec context_swap_code w) r = caller_reg m r"
    using t(3) [of r] by (simp add: again cr)
  show "pc (exec context_swap_code w) = caller_rip m"
    using t(4) by (simp add: again ci)
qed

lemma context_set_spec:
  assumes sep: "ctx_reg (mem m) (reg m RDI) RSP - 8 \<notin> block (reg m RDI)"
  defines "m' \<equiv> exec context_set_code m"
  shows "reg m' r = ctx_reg (mem m) (reg m RDI) r"
    and "pc m' = ctx_rip (mem m) (reg m RDI)"
    and "mem m' = (mem m)(ctx_reg (mem m) (reg m RDI) RSP - 8 := ctx_rip (mem m) (reg m RDI))"
proof -
  have ne: "ctx_reg (mem m) (reg m RDI) RSP - 8 \<noteq> reg m RDI + 8 * of_nat i" if "i < 17" for i
    using sep block_mem [OF that] by metis
  show "reg m' r = ctx_reg (mem m) (reg m RDI) r"
    using ne [of 14] ne [of 8]
    by (cases r) (simp_all add: m'_def context_set_code_def ctx_reg_def)
  show "pc m' = ctx_rip (mem m) (reg m RDI)"
    "mem m' = (mem m)(ctx_reg (mem m) (reg m RDI) RSP - 8 := ctx_rip (mem m) (reg m RDI))"
    by (simp_all add: m'_def context_set_code_def ctx_reg_def ctx_rip_def)
qed


section \<open>The switch seen from C\<close>

text \<open>
  What the routines do to the structures the C code works with: \<open>gprs_from src dst\<close> is \<open>dst\<close>
  with the 16 general registers and \<open>rip\<close> of \<open>src\<close>; flags and selectors are neither saved nor
  loaded. \<open>ctx_image M a c\<close>: the memory block at \<open>a\<close> holds the general registers of \<open>c\<close>.
\<close>

definition gprs_from :: "sigcontext \<Rightarrow> sigcontext \<Rightarrow> sigcontext" where
  "gprs_from src dst = dst\<lparr>
     r8 := r8 src, r9 := r9 src, r10 := r10 src, r11 := r11 src,
     r12 := r12 src, r13 := r13 src, r14 := r14 src, r15 := r15 src,
     rdi := rdi src, rsi := rsi src, rbp := rbp src, rbx := rbx src,
     rdx := rdx src, rax := rax src, rcx := rcx src, rsp := rsp src, rip := rip src\<rparr>"

fun gpr :: "sigcontext \<Rightarrow> reg \<Rightarrow> 64 word" where
  "gpr c R8 = r8 c" | "gpr c R9 = r9 c" | "gpr c R10 = r10 c" | "gpr c R11 = r11 c"
| "gpr c R12 = r12 c" | "gpr c R13 = r13 c" | "gpr c R14 = r14 c" | "gpr c R15 = r15 c"
| "gpr c RDI = rdi c" | "gpr c RSI = rsi c" | "gpr c RBP = rbp c" | "gpr c RBX = rbx c"
| "gpr c RDX = rdx c" | "gpr c RAX = rax c" | "gpr c RCX = rcx c" | "gpr c RSP = rsp c"

definition ctx_image :: "(64 word \<Rightarrow> 64 word) \<Rightarrow> 64 word \<Rightarrow> sigcontext \<Rightarrow> bool" where
  "ctx_image M a c \<longleftrightarrow> (\<forall>r. ctx_reg M a r = gpr c r) \<and> ctx_rip M a = rip c"

lemma gprs_from_simps [simp]:
  "gpr (gprs_from src dst) r = gpr src r" "rip (gprs_from src dst) = rip src"
  "eflags (gprs_from src dst) = eflags dst" "cs (gprs_from src dst) = cs dst"
  "gs (gprs_from src dst) = gs dst" "fs (gprs_from src dst) = fs dst"
  "pad0 (gprs_from src dst) = pad0 dst"
  by (cases r; simp add: gprs_from_def)+

lemma gprs_from_twice [simp]:
  "gprs_from (gprs_from a b) c = gprs_from a c" "gprs_from a (gprs_from b c) = gprs_from a c"
  "gprs_from a a = a"
  by (simp_all add: gprs_from_def)

text \<open>
  The assembly implements the C-level effect: if memory holds \<open>old\<close> at \<open>c\<close> and \<open>next\<close> at \<open>n\<close> and
  the caller, once returned to, would run with \<open>cur\<close>, then afterwards \<open>c\<close> holds
  \<open>gprs_from cur old\<close> and the processor runs with \<open>gprs_from next cur\<close>.
\<close>

lemma context_swap_refines:
  assumes "reg m RSP \<notin> block (reg m RDI)"
    and "block (reg m RDI) \<inter> block (reg m RSI) = {}"
    and "rsp new - 8 \<notin> block (reg m RSI) \<union> block (reg m RDI)"
    and img: "ctx_image (mem m) (reg m RSI) new"
    and cur: "\<And>r. caller_reg m r = gpr cur r" "caller_rip m = rip cur"
  defines "m' \<equiv> exec context_swap_code m"
  shows "ctx_image (mem m') (reg m RDI) (gprs_from cur old)"
    and "reg m' r = gpr (gprs_from new cur) r" and "pc m' = rip (gprs_from new cur)"
proof -
  have rsp: "ctx_reg (mem m) (reg m RSI) RSP = rsp new" using img by (simp add: ctx_image_def)
  note s = context_swap_spec [OF assms(1,2), unfolded rsp, OF assms(3), folded m'_def]
  show "ctx_image (mem m') (reg m RDI) (gprs_from cur old)"
    using s(1,2) cur by (simp add: ctx_image_def)
  show "reg m' r = gpr (gprs_from new cur) r" "pc m' = rip (gprs_from new cur)"
    using s(3,4) img by (simp_all add: ctx_image_def)
qed

lemma context_set_refines:
  assumes "rsp new - 8 \<notin> block (reg m RDI)" and img: "ctx_image (mem m) (reg m RDI) new"
  shows "reg (exec context_set_code m) r = gpr (gprs_from new cur) r"
    and "pc (exec context_set_code m) = rip (gprs_from new cur)"
proof -
  have rsp: "ctx_reg (mem m) (reg m RDI) RSP = rsp new" using img by (simp add: ctx_image_def)
  note s = context_set_spec [of m, unfolded rsp, OF assms(1)]
  show "reg (exec context_set_code m) r = gpr (gprs_from new cur) r"
    "pc (exec context_set_code m) = rip (gprs_from new cur)"
    using s(1,2) img by (simp_all add: ctx_image_def)
qed

end
