(* ===== verification/Sched.thy ===== *)
theory Sched
  imports Interrupts Context
begin

text \<open>
  The scheduling half of task/task.c: choosing the next task, the preemptive and the
  cooperative switch out of a signal handler, the switches of a dying and of a blocking task,
  \<open>task_block\<close> and \<open>task_unblock\<close>, the Linux-0.11 style choice, and the searches over the list
  of all tasks. A switch ends with another task's registers on the processor, so a model
  function that switches returns the state in which that task runs.
\<close>

section \<open>Choosing and switching\<close>

definition running :: "'a kstate_scheme \<Rightarrow> task res" where
  "running k = (case current_task k of None \<Rightarrow> Inl Null_deref | Some c \<Rightarrow> Inr c)"

definition get_next_task :: "'a kstate_scheme \<Rightarrow> (task option \<times> 'a kstate_scheme) res" where
  "get_next_task k =
     bnd (k_pop k Ready_list) (\<lambda>(nxt, k).
     bnd (upd_task k nxt (\<lambda>t. t\<lparr>status := TASK_RUNNING\<rparr>)) (\<lambda>k.
     Inr (nxt, k)))"

text \<open>
  Save the interrupted registers into \<open>current_task\<close>, make \<open>nxt\<close> current and load its
  registers: the end of \<open>schedule\<close> and of \<open>collaborative_schedule\<close>.
\<close>

definition switch_frame :: "'a kstate_scheme \<Rightarrow> task option \<Rightarrow> 'a kstate_scheme res" where
  "switch_frame k nxt =
     bnd (upd_task k (current_task k) (\<lambda>t. t\<lparr>task_context := regs k\<rparr>)) (\<lambda>k.
     bnd (get_task (k\<lparr>current_task := nxt\<rparr>) nxt) (\<lambda>t.
     Inr (k\<lparr>current_task := nxt, regs := task_context t\<rparr>)))"

definition schedule :: "'a kstate_scheme \<Rightarrow> 'a kstate_scheme res" where
  "schedule k =
     bnd (running k) (\<lambda>c.
     bnd (k_find k Ready_list c) (\<lambda>queued.
     bnd (assert_c (\<not> queued)) (\<lambda>_.
     bnd (k_append k Ready_list c) (\<lambda>k.
     bnd (upd_task k (current_task k) (\<lambda>t. t\<lparr>ticks := priority t\<rparr>)) (\<lambda>k.
     bnd (upd_task k (current_task k) (\<lambda>t. t\<lparr>status := TASK_READY\<rparr>)) (\<lambda>k.
     bnd (k_empty k Ready_list) (\<lambda>empty.
     if empty then Inl Idle_spin else
     bnd (get_next_task k) (\<lambda>(nxt, k).
     switch_frame k nxt))))))))"

definition collaborative_schedule :: "'a kstate_scheme \<Rightarrow> 'a kstate_scheme res" where
  "collaborative_schedule k =
     bnd (k_empty k Ready_list) (\<lambda>empty.
     if empty then Inl Idle_spin else
     bnd (get_next_task k) (\<lambda>(nxt, k).
     switch_frame k nxt))"

text \<open>\<open>context_set(&current_task->context)\<close>, with the C-level effect proved in Context.\<close>

definition context_set :: "'a kstate_scheme \<Rightarrow> task option \<Rightarrow> 'a kstate_scheme res" where
  "context_set k p =
     bnd (get_task k p) (\<lambda>t. Inr (k\<lparr>regs := gprs_from (task_context t) (regs k)\<rparr>))"

definition context_swap ::
    "'a kstate_scheme \<Rightarrow> task option \<Rightarrow> task option \<Rightarrow> 'a kstate_scheme res" where
  "context_swap k c n =
     bnd (upd_task k c (\<lambda>t. t\<lparr>task_context := gprs_from (regs k) (task_context t)\<rparr>)) (\<lambda>k.
     context_set k n)"

definition died_task_schedule :: "'a kstate_scheme \<Rightarrow> 'a kstate_scheme res" where
  "died_task_schedule k =
     bnd (k_empty k Ready_list) (\<lambda>empty.
     if empty then Inl Idle_spin else
     bnd (k_pop k Ready_list) (\<lambda>(nxt, k).
     bnd (upd_task k nxt (\<lambda>t. t\<lparr>status := TASK_RUNNING\<rparr>)) (\<lambda>k.
     (let k = k\<lparr>current_task := nxt\<rparr> in context_set k (current_task k)))))"

definition block_task_schedule :: "'a kstate_scheme \<Rightarrow> 'a kstate_scheme res" where
  "block_task_schedule k =
     bnd (k_empty k Ready_list) (\<lambda>empty.
     if empty then Inl Idle_spin else
     bnd (k_empty k Ready_list) (\<lambda>empty.
     bnd (assert_c (\<not> empty)) (\<lambda>_.
     bnd (k_pop k Ready_list) (\<lambda>(nxt, k).
     bnd (upd_task k nxt (\<lambda>t. t\<lparr>status := TASK_RUNNING\<rparr>)) (\<lambda>k.
     (let temp = current_task k; k = k\<lparr>current_task := nxt\<rparr>
      in context_swap k temp nxt))))))"

definition blocking_status :: "task_status \<Rightarrow> bool" where
  "blocking_status s \<longleftrightarrow> s = TASK_BLOCKED \<or> s = TASK_WAITING \<or> s = TASK_HANGING"

text \<open>
  \<open>task_block\<close> returns to its caller only when the blocked task is switched to again; the
  model's result is the state right after the switch.
\<close>

definition task_block :: "'a kstate_scheme \<Rightarrow> task_status \<Rightarrow> 'a kstate_scheme res" where
  "task_block k s =
     bnd (assert_c (blocking_status s)) (\<lambda>_.
     bnd (upd_task k (current_task k) (\<lambda>t. t\<lparr>status := s\<rparr>)) (\<lambda>k.
     block_task_schedule k))"

definition task_unblock :: "'a kstate_scheme \<Rightarrow> task option \<Rightarrow> 'a kstate_scheme res" where
  "task_unblock k p =
     (let k = interrupt_disable k in
      bnd (get_task k p) (\<lambda>t.
      bnd (assert_c (blocking_status (status t))) (\<lambda>_.
      if status t \<noteq> TASK_READY then
        bnd (k_find k Ready_list (the p)) (\<lambda>queued.
        bnd (assert_c (\<not> queued)) (\<lambda>_.
        bnd (k_push k Ready_list (the p)) (\<lambda>k.
        bnd (upd_task k p (\<lambda>t. t\<lparr>status := TASK_READY\<rparr>)) (\<lambda>k.
        Inr (interrupt_enable k)))))
      else Inr (interrupt_enable k))))"

section \<open>The choice in the style of Linux 0.11\<close>

text \<open>
  The loop of \<open>get_next_task_011\<close> over the list of all tasks. \<open>c\<close> is the C \<open>int\<close> that starts
  at -1; \<open>nt\<close> is the local \<open>next_task\<close>, \<open>None\<close> while uninitialised. \<open>ticks\<close> is a \<open>uint8_t\<close>,
  so the recharge wraps.
\<close>

definition recharge :: "task_struct \<Rightarrow> task_struct" where
  "recharge t =
     (if status t = TASK_WAITING \<or> status t = TASK_BLOCKED \<or> status t = TASK_HANGING
         \<or> is_collaborative_schedule t
      then t\<lparr>ticks := ticks t div 2 + priority t\<rparr> else t)"

partial_function (option) scan_011 ::
    "'a kstate_scheme \<Rightarrow> node option \<Rightarrow> int \<Rightarrow> task option
     \<Rightarrow> (task option \<times> 'a kstate_scheme) res option" where
  "scan_011 k elem c nt =
     (if elem = Some (Tail All_list) then Some (Inr (nt, k))
      else (case bnd (elem2entry All_list_tag elem) (\<lambda>p.
                 bnd (upd_task k p recharge) (\<lambda>k.
                 bnd (get_task k p) (\<lambda>t.
                 bnd (deref (nodes k) elem) (\<lambda>n.
                 Inr (p, k, t, elem_next n))))) of
              Inl e \<Rightarrow> Some (Inl e)
            | Inr (p, k, t, nx) \<Rightarrow>
                (if status t = TASK_READY \<and> int (unat (ticks t)) > c
                 then scan_011 k nx (int (unat (ticks t))) p
                 else scan_011 k nx c nt)))"

declare scan_011.simps [code]

definition get_next_task_011 :: "'a kstate_scheme \<Rightarrow> (task option \<times> 'a kstate_scheme) res" where
  "get_next_task_011 k =
     bnd (deref (nodes k) (Some (Head All_list))) (\<lambda>hd.
     bnd (returns (scan_011 k (elem_next hd) (-1) None)) (\<lambda>(nt, k).
     (case nt of None \<Rightarrow> Inl Uninit_read
      | Some t \<Rightarrow>
          bnd (k_remove k General_tag t) (\<lambda>k.
          bnd (upd_task k nt (\<lambda>t. t\<lparr>status := TASK_RUNNING\<rparr>)) (\<lambda>k.
          Inr (nt, k))))))"

section \<open>Searches over all tasks\<close>

definition tid_check :: "'a kstate_scheme \<Rightarrow> node option \<Rightarrow> 16 word \<Rightarrow> bool res" where
  "tid_check k pelem i =
     bnd (elem2entry All_list_tag pelem) (\<lambda>p.
     bnd (get_task k p) (\<lambda>t. Inr (tid t = i)))"

definition tid2task :: "'a kstate_scheme \<Rightarrow> 16 word \<Rightarrow> task option res" where
  "tid2task k i =
     bnd (list_traversal (nodes k) (clist_of All_list) (tid_check k) i) (\<lambda>pelem.
     if pelem = None then Inr None else elem2entry All_list_tag pelem)"

partial_function (option) all_finished_from ::
    "'a kstate_scheme \<Rightarrow> node option \<Rightarrow> bool res option" where
  "all_finished_from k elem =
     (if elem = Some (Tail All_list) then Some (Inr True)
      else (case bnd (elem2entry All_list_tag elem) (\<lambda>p.
                 bnd (get_task k p) (\<lambda>t.
                 bnd (deref (nodes k) elem) (\<lambda>n. Inr (t, elem_next n)))) of
              Inl e \<Rightarrow> Some (Inl e)
            | Inr (t, nx) \<Rightarrow>
                (if status t \<noteq> TASK_DIED then Some (Inr False) else all_finished_from k nx)))"

declare all_finished_from.simps [code]

definition all_tasks_finished :: "'a kstate_scheme \<Rightarrow> bool res" where
  "all_tasks_finished k =
     bnd (deref (nodes k) (Some (Head All_list))) (\<lambda>hd.
     returns (all_finished_from k (elem_next hd)))"

text \<open>
  \<open>task_wait_all\<close> polls, sleeping between polls; \<open>polled i\<close> is the state the \<open>i\<close>-th poll sees.
\<close>

partial_function (option) wait_all_from ::
    "(nat \<Rightarrow> 'a kstate_scheme) \<Rightarrow> nat \<Rightarrow> unit res option" where
  "wait_all_from polled i =
     (case all_tasks_finished (polled i) of
        Inl e \<Rightarrow> Some (Inl e)
      | Inr fin \<Rightarrow> (if fin then Some (Inr ()) else wait_all_from polled (Suc i)))"

declare wait_all_from.simps [code]

definition task_wait_all :: "(nat \<Rightarrow> 'a kstate_scheme) \<Rightarrow> unit res" where
  "task_wait_all polled = returns (wait_all_from polled 0)"

definition current_is_hook :: "'a kstate_scheme \<Rightarrow> bool res" where
  "current_is_hook k =
     (if current_task k = None then Inr False
      else bnd (get_task k (current_task k)) (\<lambda>t. Inr (is_hook t)))"

text \<open>What \<open>print_task_info\<close> prints: the signed tid, the name, the priority and the magic word.\<close>

definition print_task_info :: "'a kstate_scheme \<Rightarrow> task option \<Rightarrow> string res" where
  "print_task_info k p =
     bnd (get_task k p) (\<lambda>t.
     Inr (''tid = '' @ print_int (sint (tid t)) @ newline
       @ ''name = '' @ name t @ newline
       @ ''priority = '' @ print_int (int (unat (priority t))) @ newline
       @ ''stack_magic = '' @ digits_of 16 (unat (stack_magic t)) @ newline))"

end
