(* ===== verification/SchedInv.thy ===== *)
theory SchedInv
  imports Sched
begin

text \<open>
  What the scheduler keeps true: the invariant of its queues and task states, the exact result
  of every switching operation, and the preservation of the invariant by each of them.
\<close>

section \<open>The invariant\<close>

text \<open>The status a task has while it is on a list.\<close>

fun list_status :: "list_id \<Rightarrow> task_status \<Rightarrow> bool" where
  "list_status Ready_list s = (s = TASK_READY)"
| "list_status All_list s = (s \<noteq> TASK_DIED)"
| "list_status Pool_list s = (s = TASK_DIED)"
| "list_status (Waiters l) s = (s = TASK_BLOCKED)"

definition members_ok :: "'a kstate_scheme \<Rightarrow> queue_view \<Rightarrow> bool" where
  "members_ok k Q \<longleftrightarrow> (\<forall>L xs t. Q L = Some xs \<longrightarrow> t \<in> set xs \<longrightarrow>
      (\<exists>ts. tasks k t = Some ts \<and> list_status L (status ts)))"

text \<open>A task waiting in some queue for the processor or a lock is on the list of all tasks.\<close>

definition known :: "queue_view \<Rightarrow> bool" where
  "known Q \<longleftrightarrow> (\<forall>L xs t. Q L = Some xs \<longrightarrow> tag_of L = General_tag \<longrightarrow> t \<in> set xs \<longrightarrow>
      t \<in> set (the (Q All_list)))"

definition lists_ok :: "'a kstate_scheme \<Rightarrow> queue_view \<Rightarrow> bool" where
  "lists_ok k Q \<longleftrightarrow> queues (nodes k) Q \<and> members_ok k Q \<and> known Q
     \<and> (\<forall>t g. t \<in> dom (tasks k) \<longrightarrow> Tag g t \<in> dom (nodes k))
     \<and> Q Ready_list \<noteq> None \<and> Q All_list \<noteq> None \<and> Q Pool_list \<noteq> None"

definition runs :: "'a kstate_scheme \<Rightarrow> queue_view \<Rightarrow> task \<Rightarrow> bool" where
  "runs k Q c \<longleftrightarrow> current_task k = Some c
     \<and> (\<exists>ts. tasks k c = Some ts \<and> status ts = TASK_RUNNING)
     \<and> unqueued Q General_tag c \<and> c \<in> set (the (Q All_list))"

definition sched_inv :: "'a kstate_scheme \<Rightarrow> queue_view \<Rightarrow> bool" where
  "sched_inv k Q \<longleftrightarrow> lists_ok k Q \<and> (\<exists>c. runs k Q c)"

lemma lists_ok_queues: "lists_ok k Q \<Longrightarrow> queues (nodes k) Q"
  by (simp add: lists_ok_def)

lemma lists_ok_member:
  assumes "lists_ok k Q" and "Q L = Some xs" and "t \<in> set xs"
  obtains ts where "tasks k t = Some ts" and "list_status L (status ts)"
  using assms unfolding lists_ok_def members_ok_def by blast

lemma lists_ok_memberD:
  "lists_ok k Q \<Longrightarrow> Q L = Some xs \<Longrightarrow> t \<in> set xs \<Longrightarrow>
   \<exists>ts. tasks k t = Some ts \<and> list_status L (status ts)"
  unfolding lists_ok_def members_ok_def by blast

lemma lists_ok_tag: "lists_ok k Q \<Longrightarrow> tasks k t = Some ts \<Longrightarrow> Tag g t \<in> dom (nodes k)"
  unfolding lists_ok_def by blast

lemma lists_ok_known:
  "lists_ok k Q \<Longrightarrow> Q L = Some xs \<Longrightarrow> tag_of L = General_tag \<Longrightarrow> t \<in> set xs
   \<Longrightarrow> t \<in> set (the (Q All_list))"
  unfolding lists_ok_def known_def by blast

lemma lists_ok_ready:
  assumes "lists_ok k Q" obtains rs where "Q Ready_list = Some rs"
  using assms by (auto simp: lists_ok_def)

lemma lists_ok_all:
  assumes "lists_ok k Q" obtains as where "Q All_list = Some as"
  using assms by (auto simp: lists_ok_def)

lemma lists_ok_pool:
  assumes "lists_ok k Q" obtains ps where "Q Pool_list = Some ps"
  using assms by (auto simp: lists_ok_def)

lemma sched_invE:
  assumes "sched_inv k Q"
  obtains c tc rs as where "lists_ok k Q" and "current_task k = Some c" and "tasks k c = Some tc"
    and "status tc = TASK_RUNNING" and "unqueued Q General_tag c" and "Q Ready_list = Some rs"
    and "Q All_list = Some as" and "c \<in> set as"
  using assms by (auto simp: sched_inv_def runs_def lists_ok_def)

text \<open>Only the nodes and the tasks' statuses matter to \<open>lists_ok\<close>.\<close>

lemma lists_okI:
  assumes "queues (nodes k) Q"
    and "\<And>L xs t. Q L = Some xs \<Longrightarrow> t \<in> set xs \<Longrightarrow>
           \<exists>ts. tasks k t = Some ts \<and> list_status L (status ts)"
    and "\<And>L xs t. Q L = Some xs \<Longrightarrow> tag_of L = General_tag \<Longrightarrow> t \<in> set xs \<Longrightarrow>
           t \<in> set (the (Q All_list))"
    and "\<And>t ts g. tasks k t = Some ts \<Longrightarrow> Tag g t \<in> dom (nodes k)"
    and "Q Ready_list \<noteq> None" and "Q All_list \<noteq> None" and "Q Pool_list \<noteq> None"
  shows "lists_ok k Q"
proof -
  have "members_ok k Q" unfolding members_ok_def using assms(2) by blast
  moreover have "known Q" unfolding known_def using assms(3) by blast
  moreover have "\<forall>t g. t \<in> dom (tasks k) \<longrightarrow> Tag g t \<in> dom (nodes k)" using assms(4) by blast
  ultimately show ?thesis using assms(1,5,6,7) by (simp add: lists_ok_def)
qed

lemma lists_ok_cong:
  fixes k :: "'a kstate_scheme" and k' :: "'b kstate_scheme"
  shows "nodes k = nodes k' \<Longrightarrow> tasks k = tasks k' \<Longrightarrow> lists_ok k Q = lists_ok k' Q"
  by (simp add: lists_ok_def members_ok_def)

lemma sched_inv_cong:
  fixes k :: "'a kstate_scheme" and k' :: "'b kstate_scheme"
  shows "nodes k = nodes k' \<Longrightarrow> tasks k = tasks k' \<Longrightarrow> current_task k = current_task k'
   \<Longrightarrow> sched_inv k Q = sched_inv k' Q"
  using lists_ok_cong [of k k' Q] by (simp add: sched_inv_def runs_def)

lemma sched_inv_irq [simp]:
  "sched_inv (interrupt_enable k) Q = sched_inv k Q" "sched_inv (interrupt_disable k) Q = sched_inv k Q"
  "lists_ok (interrupt_enable k) Q = lists_ok k Q" "lists_ok (interrupt_disable k) Q = lists_ok k Q"
  by (intro sched_inv_cong lists_ok_cong; simp)+

text \<open>A task on a list has the list's status, so no task is on two lists of different statuses.\<close>

lemma lists_ok_not_in:
  "lists_ok k Q \<Longrightarrow> tasks k t = Some ts \<Longrightarrow> \<not> list_status L (status ts) \<Longrightarrow> Q L = Some xs
   \<Longrightarrow> t \<notin> set xs"
  by (metis lists_ok_member option.inject)

lemma unqueuedD: "unqueued Q g t \<Longrightarrow> Q L = Some xs \<Longrightarrow> tag_of L = g \<Longrightarrow> t \<notin> set xs"
  unfolding unqueued_def by blast

lemma unqueued_status:
  assumes "lists_ok k Q" and "tasks k t = Some ts" and "status ts \<noteq> TASK_READY"
    and "status ts \<noteq> TASK_BLOCKED"
  shows "unqueued Q General_tag t"
  unfolding unqueued_def
proof (intro allI impI)
  fix L xs assume a: "Q L = Some xs \<and> tag_of L = General_tag"
  then have "\<not> list_status L (status ts)" using assms(3,4) by (cases L) auto
  with a show "t \<notin> set xs" using lists_ok_not_in [OF assms(1,2)] by blast
qed

lemma current_unqueued:
  "lists_ok k Q \<Longrightarrow> tasks k c = Some tc \<Longrightarrow> status tc = TASK_RUNNING \<Longrightarrow> unqueued Q General_tag c"
  by (rule unqueued_status) (assumption | simp)+

lemma all_pool_disjoint:
  assumes ok: "lists_ok k Q" and a: "Q All_list = Some as" and p: "Q Pool_list = Some ps"
  shows "set as \<inter> set ps = {}"
proof -
  have "t \<notin> set as" if "t \<in> set ps" for t
  proof -
    obtain ts where "tasks k t = Some ts" "list_status Pool_list (status ts)"
      by (rule lists_ok_member [OF ok p \<open>t \<in> set ps\<close>])
    then show ?thesis by (intro lists_ok_not_in [OF ok _ _ a]) auto
  qed
  then show ?thesis by blast
qed

section \<open>Exact results of the switches\<close>

lemma switch_frame_result:
  assumes "current_task k = Some c" and "tasks k c = Some tc" and "tasks k n = Some ns"
  shows "switch_frame k (Some n) =
    Inr (k\<lparr>tasks := (tasks k)(c \<mapsto> tc\<lparr>task_context := regs k\<rparr>), current_task := Some n,
          regs := (if n = c then regs k else task_context ns)\<rparr>)"
  using assms by (simp add: switch_frame_def)

text \<open>What \<open>schedule\<close> leaves in the task it takes off the processor, and in the one it puts on.\<close>

definition preempted :: "sigcontext \<Rightarrow> task_struct \<Rightarrow> task_struct" where
  "preempted r t = t\<lparr>ticks := priority t, status := TASK_READY, task_context := r\<rparr>"

definition resumed :: "task_struct \<Rightarrow> task_struct" where
  "resumed t = t\<lparr>status := TASK_RUNNING\<rparr>"

lemma preempted_simps [simp]:
  "status (preempted r t) = TASK_READY" "task_context (preempted r t) = r"
  "ticks (preempted r t) = priority t" "priority (preempted r t) = priority t"
  "tid (preempted r t) = tid t"
  by (simp_all add: preempted_def)

lemma resumed_simps [simp]:
  "status (resumed t) = TASK_RUNNING" "task_context (resumed t) = task_context t"
  "ticks (resumed t) = ticks t" "priority (resumed t) = priority t" "tid (resumed t) = tid t"
  by (simp_all add: resumed_def)

lemma get_next_task_result:
  assumes "queues (nodes k) Q" and "Q Ready_list = Some (n # rs)" and "tasks k n = Some ns"
  obtains h where "get_next_task k = Inr (Some n, k\<lparr>nodes := h, tasks := (tasks k)(n \<mapsto> resumed ns)\<rparr>)"
    and "queues h (Q(Ready_list \<mapsto> rs))" and "dom h = dom (nodes k)"
proof -
  obtain h where h: "k_pop k Ready_list = Inr (Some n, k\<lparr>nodes := h\<rparr>)"
    "queues h (Q(Ready_list \<mapsto> rs))" "dom h = dom (nodes k)"
    by (rule k_pop_spec [OF assms(1,2)])
  then show ?thesis using that assms(3) by (simp add: get_next_task_def resumed_def)
qed

text \<open>One tick of round robin on the pair of the running task and the ready queue.\<close>

definition rr_step :: "task \<times> task list \<Rightarrow> task \<times> task list" where
  "rr_step = (\<lambda>(c, rs). (hd (rs @ [c]), tl (rs @ [c])))"

text \<open>The task table after \<open>schedule\<close>: \<open>c\<close> preempted with registers \<open>r\<close>, then \<open>n\<close> resumed.\<close>

definition switch_tasks ::
    "(task \<rightharpoonup> task_struct) \<Rightarrow> task \<Rightarrow> sigcontext \<Rightarrow> task \<Rightarrow> (task \<rightharpoonup> task_struct)" where
  "switch_tasks T c r n =
     (let T = T(c \<mapsto> preempted r (the (T c))) in T(n \<mapsto> resumed (the (T n))))"

lemma schedule_result:
  assumes ok: "lists_ok k Q" and c: "current_task k = Some c" and tc: "tasks k c = Some tc"
    and u: "unqueued Q General_tag c" and rs: "Q Ready_list = Some rs"
  obtains h n rs' where "rr_step (c, rs) = (n, rs')"
    and "schedule k = Inr (k\<lparr>nodes := h, tasks := switch_tasks (tasks k) c (regs k) n,
           current_task := Some n,
           regs := task_context (the (switch_tasks (tasks k) c (regs k) n n))\<rparr>)"
    and "queues h (Q(Ready_list \<mapsto> rs'))" and "dom h = dom (nodes k)" and "n \<in> set (rs @ [c])"
proof -
  note q = lists_ok_queues [OF ok]
  have nin: "c \<notin> set rs" using unqueuedD [OF u rs] by simp
  obtain h1 where h1: "k_append k Ready_list c = Inr (k\<lparr>nodes := h1\<rparr>)"
    "queues h1 (Q(Ready_list \<mapsto> rs @ [c]))" "dom h1 = dom (nodes k)"
    by (rule k_append_spec [OF q rs]) (use u lists_ok_tag [OF ok tc] in auto)
  obtain n rs' where n: "rs @ [c] = n # rs'" by (cases rs) auto
  define T where "T = (tasks k)(c \<mapsto> tc\<lparr>ticks := priority tc, status := TASK_READY\<rparr>)"
  have "n = c \<or> n \<in> set rs" using n by (cases rs) auto
  then obtain ns where ns: "T n = Some ns"
    using tc lists_ok_member [OF ok rs] unfolding T_def by (cases "n = c") auto
  obtain h2 where h2: "get_next_task (k\<lparr>nodes := h1, tasks := T\<rparr>) =
      Inr (Some n, k\<lparr>nodes := h2, tasks := T(n \<mapsto> resumed ns)\<rparr>)"
    "queues h2 (Q(Ready_list \<mapsto> rs'))" "dom h2 = dom (nodes k)"
    using get_next_task_result [of "k\<lparr>nodes := h1, tasks := T\<rparr>" "Q(Ready_list \<mapsto> rs @ [c])" n rs' ns]
      h1 n ns by auto
  have e: "k_empty (k\<lparr>nodes := h1, tasks := T\<rparr>) Ready_list = Inr False"
    using k_empty_spec [of "k\<lparr>nodes := h1, tasks := T\<rparr>" _ Ready_list "rs @ [c]"] h1(2) by simp
  have T': "(T(n \<mapsto> resumed ns))(c \<mapsto> (the ((T(n \<mapsto> resumed ns)) c))\<lparr>task_context := regs k\<rparr>)
      = switch_tasks (tasks k) c (regs k) n"
    using tc ns by (cases "n = c")
      (auto simp: T_def switch_tasks_def Let_def fun_eq_iff preempted_def resumed_def)
  have rg: "task_context (the (switch_tasks (tasks k) c (regs k) n n))
      = (if n = c then regs k else task_context ns)"
    using ns by (auto simp: switch_tasks_def Let_def T_def)
  obtain tc' where tc': "(T(n \<mapsto> resumed ns)) c = Some tc'"
    using tc by (cases "n = c") (auto simp: T_def)
  have sw: "switch_frame (k\<lparr>nodes := h2, tasks := T(n \<mapsto> resumed ns)\<rparr>) (Some n) =
      Inr (k\<lparr>nodes := h2, tasks := switch_tasks (tasks k) c (regs k) n, current_task := Some n,
        regs := task_context (the (switch_tasks (tasks k) c (regs k) n n))\<rparr>)"
    using switch_frame_result [of "k\<lparr>nodes := h2, tasks := T(n \<mapsto> resumed ns)\<rparr>" c tc' n "resumed ns"]
      c tc' T' rg by simp
  have f: "k_find k Ready_list c = Inr False" using k_find_spec [OF q rs, of c] nin by simp
  have "schedule k = switch_frame (k\<lparr>nodes := h2, tasks := T(n \<mapsto> resumed ns)\<rparr>) (Some n)"
    using c tc f h1(1) e h2(1) by (simp add: schedule_def running_def T_def)
  with sw have s: "schedule k = Inr (k\<lparr>nodes := h2, tasks := switch_tasks (tasks k) c (regs k) n,
      current_task := Some n, regs := task_context (the (switch_tasks (tasks k) c (regs k) n n))\<rparr>)"
    by simp
  show ?thesis
    by (rule that [OF _ s h2(2,3)]) (use n in \<open>auto simp: rr_step_def\<close>)
qed

section \<open>Preservation\<close>

text \<open>
  One task's status may change to another one that is admissible on the list of all tasks
  when it is on no other list.
\<close>

lemma lists_ok_step:
  assumes ok: "lists_ok k Q" and q: "queues (nodes k') Q'" and d: "dom (nodes k') = dom (nodes k)"
    and dt: "dom (tasks k') = dom (tasks k)"
    and new: "\<And>L xs t. Q' L = Some xs \<Longrightarrow> t \<in> set xs \<Longrightarrow>
        \<exists>ts. tasks k' t = Some ts \<and> list_status L (status ts)"
    and all: "Q' All_list = Q All_list" and ini: "Q' Ready_list \<noteq> None" "Q' Pool_list \<noteq> None"
    and kn: "\<And>L xs t. Q' L = Some xs \<Longrightarrow> tag_of L = General_tag \<Longrightarrow> t \<in> set xs \<Longrightarrow>
        t \<in> set (the (Q All_list))"
  shows "lists_ok k' Q'"
proof (rule lists_okI [OF q new])
  show "Tag g t \<in> dom (nodes k')" if "tasks k' t = Some ts" for t ts g
    using that dt d lists_ok_tag [OF ok] by blast
  show "Q' All_list \<noteq> None" using all ok by (simp add: lists_ok_def)
  show "t \<in> set (the (Q' All_list))" if "Q' L = Some xs" "tag_of L = General_tag" "t \<in> set xs" for L xs t
    using kn [OF that] all by simp
qed (use ini in auto)

lemma switch_tasks_same:
  assumes "T c = Some tc" and "n \<noteq> c" and "T n = Some tn"
  shows "switch_tasks T c r n = T(c \<mapsto> preempted r tc, n \<mapsto> resumed tn)"
  using assms by (simp add: switch_tasks_def)

lemma switch_tasks_self:
  assumes "T c = Some tc"
  shows "switch_tasks T c r c = T(c \<mapsto> resumed (preempted r tc))"
  using assms by (simp add: switch_tasks_def)

lemma switch_tasks_dom: "c \<in> dom T \<Longrightarrow> n \<in> dom T \<Longrightarrow> dom (switch_tasks T c r n) = dom T"
  by (auto simp: switch_tasks_def Let_def)

lemma switch_tasks_status:
  assumes "T c = Some tc" and "n = c \<or> T n = Some tn"
  shows "map_option status (switch_tasks T c r n t) =
    (if t = n then Some TASK_RUNNING else if t = c then Some TASK_READY else map_option status (T t))"
  using assms by (auto simp: switch_tasks_def Let_def)

text \<open>
  \<open>schedule\<close> refines one step of round robin on the running task and the ready queue, and keeps
  the invariant; all other queues are as before.
\<close>

lemma switch_status:
  assumes "tasks k c = Some tc" and "tasks k n = Some tn" and "tasks k t = Some ts"
  shows "\<exists>ts'. switch_tasks (tasks k) c r n t = Some ts' \<and> status ts' =
      (if t = n then TASK_RUNNING else if t = c then TASK_READY else status ts)"
  using assms by (auto simp: switch_tasks_def Let_def)

text \<open>The running task \<open>c\<close> has gone to the end of the ready queue and the first of it, \<open>n\<close>, runs.\<close>

lemma switch_lists_ok:
  assumes ok: "lists_ok k Q" and rs: "Q Ready_list = Some rs" and n: "rs @ [c] = n # rs'"
    and c: "tasks k c = Some tc" "status tc = TASK_RUNNING" "unqueued Q General_tag c" "c \<in> set (the (Q All_list))"
    and q: "queues h (Q(Ready_list \<mapsto> rs'))" "dom h = dom (nodes k)"
  shows "lists_ok (k\<lparr>nodes := h, tasks := switch_tasks (tasks k) c r n, current_task := cu, regs := x\<rparr>) (Q(Ready_list \<mapsto> rs'))"
    (is "lists_ok ?k' _")
proof (rule lists_ok_step [OF ok])
  have "distinct (n # rs')"
    using queues_distinct [OF lists_ok_queues [OF ok] rs] unqueuedD [OF c(3) rs] by (simp flip: n)
  then have mem: "t \<in> set rs' \<Longrightarrow> t \<noteq> n \<and> (t = c \<or> t \<in> set rs)" for t
    using arg_cong [OF n, of set] by auto
  have "n = c \<or> n \<in> set rs" using n by (cases rs) auto
  then obtain tn where tn: "tasks k n = Some tn" "status tn \<in> {TASK_RUNNING, TASK_READY}"
    using c(1,2) lists_ok_memberD [OF ok rs, of n] by auto
  note st = switch_status [OF c(1) tn(1)]
  show "queues (nodes ?k') (Q(Ready_list \<mapsto> rs'))" "dom (nodes ?k') = dom (nodes k)" using q by simp_all
  show "dom (tasks ?k') = dom (tasks k)" using c(1) tn(1) by (simp add: switch_tasks_dom domI)
  show "\<exists>ts. tasks ?k' t = Some ts \<and> list_status L (status ts)"
    if L: "(Q(Ready_list \<mapsto> rs')) L = Some xs" and t: "t \<in> set xs" for L xs t
  proof (cases "L = Ready_list")
    case True
    with L t mem have t': "t \<noteq> n" "t = c \<or> t \<in> set rs" by auto
    then obtain ts where "tasks k t = Some ts" "t = c \<or> status ts = TASK_READY"
      using c(1) lists_ok_memberD [OF ok rs, of t] by auto
    then show ?thesis using st [of t ts r] t' True by auto
  next
    case False
    with L have "Q L = Some xs" by simp
    from lists_ok_member [OF ok this t] obtain ts where ts: "tasks k t = Some ts" "list_status L (status ts)" .
    show ?thesis using st [OF ts(1), of r] ts tn c(1,2) False by (cases L) (auto split: if_splits)
  qed
  show "t \<in> set (the (Q All_list))"
    if "(Q(Ready_list \<mapsto> rs')) L = Some xs" "tag_of L = General_tag" and "t \<in> set xs" for L xs t
    using that mem lists_ok_known [OF ok rs, of t] lists_ok_known [OF ok, of L xs t] c(4)
    by (cases "L = Ready_list") auto
qed (use ok in \<open>auto simp: lists_ok_def\<close>)

lemma schedule_inv:
  assumes inv: "sched_inv k Q" and c: "current_task k = Some c" and rs: "Q Ready_list = Some rs"
  obtains k' n rs' where "schedule k = Inr k'" and "rr_step (c, rs) = (n, rs')"
    and "sched_inv k' (Q(Ready_list \<mapsto> rs'))" and "current_task k' = Some n"
    and "tasks k' = switch_tasks (tasks k) c (regs k) n"
    and "regs k' = task_context (the (tasks k' n))" and "sigmask k' = sigmask k"
    and "locks k' = locks k" and "kstate.more k' = kstate.more k" and "task_all_nums k' = task_all_nums k"
proof -
  obtain tc where tc: "tasks k c = Some tc" "status tc = TASK_RUNNING"
    "unqueued Q General_tag c" "c \<in> set (the (Q All_list))" and ok: "lists_ok k Q"
    using inv c by (auto elim!: sched_invE)
  obtain h n rs' where s: "rr_step (c, rs) = (n, rs')"
    "schedule k = Inr (k\<lparr>nodes := h, tasks := switch_tasks (tasks k) c (regs k) n,
           current_task := Some n,
           regs := task_context (the (switch_tasks (tasks k) c (regs k) n n))\<rparr>)" (is "_ = Inr ?k'")
    "queues h (Q(Ready_list \<mapsto> rs'))" "dom h = dom (nodes k)" "n \<in> set (rs @ [c])"
    by (rule schedule_result [OF ok c tc(1,3) rs])
  have n: "rs @ [c] = n # rs'" using s(1) by (cases rs) (auto simp: rr_step_def)
  have ok': "lists_ok ?k' (Q(Ready_list \<mapsto> rs'))" by (rule switch_lists_ok [OF ok rs n tc s(3,4)])
  obtain tn where tn: "tasks k n = Some tn" using s(5) tc(1) lists_ok_memberD [OF ok rs, of n] by auto
  have "\<exists>ts. tasks ?k' n = Some ts \<and> status ts = TASK_RUNNING"
    using switch_status [OF tc(1) tn tn, of "regs k"] by simp
  moreover have "n \<in> set (the ((Q(Ready_list \<mapsto> rs')) All_list))"
    using s(5) tc(4) lists_ok_known [OF ok rs, of n] by auto
  ultimately have "runs ?k' (Q(Ready_list \<mapsto> rs')) n"
    using current_unqueued [OF ok', of n] by (auto simp: runs_def)
  then have "sched_inv ?k' (Q(Ready_list \<mapsto> rs'))" using ok' unfolding sched_inv_def by blast
  with s(2) s(1) show ?thesis by (intro that [of ?k' n rs']) simp_all
qed

text \<open>Taking the head of the ready queue and making it the running task.\<close>

lemma take_next_inv:
  assumes ok: "lists_ok k Q" and rs: "Q Ready_list = Some (n # rs)"
    and q: "queues (nodes k') (Q(Ready_list \<mapsto> rs))" and d: "dom (nodes k') = dom (nodes k)"
    and cur: "current_task k' = Some n" and dt: "dom (tasks k') = dom (tasks k)"
    and st: "\<And>t ts. tasks k t = Some ts \<Longrightarrow> \<exists>ts'. tasks k' t = Some ts' \<and>
        status ts' = (if t = n then TASK_RUNNING else status ts)"
  shows "sched_inv k' (Q(Ready_list \<mapsto> rs))"
proof -
  obtain tn where tn: "tasks k n = Some tn" "status tn = TASK_READY"
    using lists_ok_memberD [OF ok rs, of n] by auto
  have nin: "n \<notin> set rs" using queues_distinct [OF lists_ok_queues [OF ok] rs] by simp
  have nall: "n \<in> set (the (Q All_list))" using lists_ok_known [OF ok rs, of n] by simp
  have ok': "lists_ok k' (Q(Ready_list \<mapsto> rs))"
  proof (rule lists_ok_step [OF ok q d dt])
    fix L xs t assume L: "(Q(Ready_list \<mapsto> rs)) L = Some xs" and t: "t \<in> set xs"
    obtain ys where ys: "Q L = Some ys" "t \<in> set ys" using L t rs by (cases "L = Ready_list") auto
    obtain ts where ts: "tasks k t = Some ts" "list_status L (status ts)"
      by (rule lists_ok_member [OF ok ys])
    obtain ts' where ts': "tasks k' t = Some ts'"
      "status ts' = (if t = n then TASK_RUNNING else status ts)" using st [OF ts(1)] by blast
    have "list_status L (status ts')"
      using ts ts' tn L t nin by (cases L) (auto split: if_splits)
    then show "\<exists>ts. tasks k' t = Some ts \<and> list_status L (status ts)" using ts' by blast
  next
    fix L xs t assume "(Q(Ready_list \<mapsto> rs)) L = Some xs" "tag_of L = General_tag" "t \<in> set xs"
    then show "t \<in> set (the (Q All_list))"
      using lists_ok_known [OF ok rs, of t] lists_ok_known [OF ok, of L xs t]
      by (cases "L = Ready_list") auto
  qed (use ok in \<open>auto simp: lists_ok_def\<close>)
  moreover have "runs k' (Q(Ready_list \<mapsto> rs)) n"
    using st [OF tn(1)] cur nall current_unqueued [OF ok', of n] by (auto simp: runs_def)
  ultimately show ?thesis unfolding sched_inv_def by blast
qed

text \<open>
  The cooperative switch: the running task's registers are saved and it is put on no queue; the
  head of the ready queue runs. With an empty ready queue the handler spins.
\<close>

lemma collaborative_schedule_inv:
  assumes inv: "sched_inv k Q" and c: "current_task k = Some c" and rs: "Q Ready_list = Some (n # rs)"
  obtains k' tc tn where "collaborative_schedule k = Inr k'" and "sched_inv k' (Q(Ready_list \<mapsto> rs))"
    and "tasks k c = Some tc" and "tasks k n = Some tn" and "current_task k' = Some n"
    and "tasks k' = (tasks k)(n \<mapsto> resumed tn, c \<mapsto> tc\<lparr>task_context := regs k\<rparr>)"
    and "regs k' = task_context tn" and "sigmask k' = sigmask k" and "locks k' = locks k"
    and "kstate.more k' = kstate.more k" and "task_all_nums k' = task_all_nums k"
proof -
  obtain tc where tc: "tasks k c = Some tc" "status tc = TASK_RUNNING"
    "unqueued Q General_tag c" and ok: "lists_ok k Q"
    using inv c by (auto elim!: sched_invE)
  note q = lists_ok_queues [OF ok]
  obtain tn where tn: "tasks k n = Some tn" "status tn = TASK_READY"
    using lists_ok_memberD [OF ok rs, of n] by auto
  have nc: "n \<noteq> c" using tc tn by auto
  obtain h where h: "get_next_task k = Inr (Some n, k\<lparr>nodes := h, tasks := (tasks k)(n \<mapsto> resumed tn)\<rparr>)"
    "queues h (Q(Ready_list \<mapsto> rs))" "dom h = dom (nodes k)"
    by (rule get_next_task_result [OF q rs tn(1)])
  define k' where "k' = k\<lparr>nodes := h, tasks := (tasks k)(n \<mapsto> resumed tn, c \<mapsto> tc\<lparr>task_context := regs k\<rparr>),
      current_task := Some n, regs := task_context tn\<rparr>"
  have "collaborative_schedule k = Inr k'"
    using h(1) k_empty_spec [OF q rs] switch_frame_result
      [of "k\<lparr>nodes := h, tasks := (tasks k)(n \<mapsto> resumed tn)\<rparr>" c tc n "resumed tn"] c tc nc
    by (simp add: collaborative_schedule_def k'_def)
  moreover have "sched_inv k' (Q(Ready_list \<mapsto> rs))"
    by (rule take_next_inv [OF ok rs]) (use h tc tn nc in \<open>auto simp: k'_def\<close>)
  ultimately show ?thesis using that tc tn by (simp add: k'_def)
qed

lemma collaborative_schedule_idle:
  "sched_inv k Q \<Longrightarrow> Q Ready_list = Some [] \<Longrightarrow> collaborative_schedule k = Inl Idle_spin"
  using k_empty_spec [of "k" Q Ready_list "[]"]
  by (simp add: collaborative_schedule_def sched_inv_def lists_ok_def)

text \<open>The switches of a dying and of a blocking task, whose own status has been changed before.\<close>

lemma died_task_schedule_inv:
  assumes ok: "lists_ok k Q" and rs: "Q Ready_list = Some (n # rs)"
  obtains k' tn where "died_task_schedule k = Inr k'" and "sched_inv k' (Q(Ready_list \<mapsto> rs))"
    and "tasks k n = Some tn" and "current_task k' = Some n"
    and "tasks k' = (tasks k)(n \<mapsto> resumed tn)" and "regs k' = gprs_from (task_context tn) (regs k)"
    and "sigmask k' = sigmask k" and "locks k' = locks k" and "tid_bitmap k' = tid_bitmap k"
proof -
  note q = lists_ok_queues [OF ok]
  obtain tn where tn: "tasks k n = Some tn" "status tn = TASK_READY"
    using lists_ok_memberD [OF ok rs, of n] by auto
  obtain h where h: "k_pop k Ready_list = Inr (Some n, k\<lparr>nodes := h\<rparr>)"
    "queues h (Q(Ready_list \<mapsto> rs))" "dom h = dom (nodes k)"
    by (rule k_pop_spec [OF q rs])
  define k' where "k' = k\<lparr>nodes := h, tasks := (tasks k)(n \<mapsto> resumed tn),
      current_task := Some n, regs := gprs_from (task_context tn) (regs k)\<rparr>"
  have "died_task_schedule k = Inr k'"
    using h(1) k_empty_spec [OF q rs] tn
    by (simp add: died_task_schedule_def context_set_def k'_def resumed_def Let_def)
  moreover have "sched_inv k' (Q(Ready_list \<mapsto> rs))"
    by (rule take_next_inv [OF ok rs]) (use h tn in \<open>auto simp: k'_def\<close>)
  ultimately show ?thesis using that tn by (simp add: k'_def)
qed

lemma block_task_schedule_inv:
  assumes ok: "lists_ok k Q" and rs: "Q Ready_list = Some (n # rs)" and c: "current_task k = Some c"
    and tc: "tasks k c = Some tc" and nr: "status tc \<noteq> TASK_READY"
  obtains k' tn where "block_task_schedule k = Inr k'" and "sched_inv k' (Q(Ready_list \<mapsto> rs))"
    and "tasks k n = Some tn" and "current_task k' = Some n"
    and "tasks k' = (tasks k)(n \<mapsto> resumed tn, c \<mapsto> tc\<lparr>task_context := gprs_from (regs k) (task_context tc)\<rparr>)"
    and "regs k' = gprs_from (task_context tn) (regs k)"
    and "sigmask k' = sigmask k" and "locks k' = locks k"
proof -
  note q = lists_ok_queues [OF ok]
  obtain tn where tn: "tasks k n = Some tn" "status tn = TASK_READY"
    using lists_ok_memberD [OF ok rs, of n] by auto
  have nc: "n \<noteq> c" using tc tn nr by auto
  obtain h where h: "k_pop k Ready_list = Inr (Some n, k\<lparr>nodes := h\<rparr>)"
    "queues h (Q(Ready_list \<mapsto> rs))" "dom h = dom (nodes k)"
    by (rule k_pop_spec [OF q rs])
  define k' where "k' = k\<lparr>nodes := h, tasks := (tasks k)(n \<mapsto> resumed tn,
        c \<mapsto> tc\<lparr>task_context := gprs_from (regs k) (task_context tc)\<rparr>),
      current_task := Some n, regs := gprs_from (task_context tn) (regs k)\<rparr>"
  have "block_task_schedule k = Inr k'"
    using h(1) k_empty_spec [OF q rs] tn tc c nc
    by (simp add: block_task_schedule_def context_swap_def context_set_def k'_def resumed_def Let_def)
  moreover have "sched_inv k' (Q(Ready_list \<mapsto> rs))"
    by (rule take_next_inv [OF ok rs]) (use h tn tc nc in \<open>auto simp: k'_def\<close>)
  ultimately show ?thesis using that tn by (simp add: k'_def)
qed

text \<open>Waking a blocked task puts it in front of the ready queue, and lets interrupts in.\<close>

lemma task_unblock_inv:
  assumes inv: "sched_inv k Q" and tt: "tasks k t = Some tt" "blocking_status (status tt)"
    and u: "unqueued Q General_tag t" and a: "t \<in> set (the (Q All_list))" and rs: "Q Ready_list = Some rs"
  obtains k' where "task_unblock k (Some t) = Inr k'" and "sched_inv k' (Q(Ready_list \<mapsto> t # rs))"
    and "tasks k' = (tasks k)(t \<mapsto> tt\<lparr>status := TASK_READY\<rparr>)" and "irq_on k'"
    and "current_task k' = current_task k" and "locks k' = locks k" and "regs k' = regs k"
proof -
  have ok: "lists_ok k Q" using inv by (simp add: sched_inv_def)
  obtain c where run: "runs k Q c" using inv by (auto simp: sched_inv_def)
  note q = lists_ok_queues [OF ok]
  have nst: "status tt \<noteq> TASK_READY" "status tt \<noteq> TASK_RUNNING" "status tt \<noteq> TASK_DIED"
    using tt(2) by (auto simp: blocking_status_def)
  obtain h where h: "k_push (interrupt_disable k) Ready_list t = Inr ((interrupt_disable k)\<lparr>nodes := h\<rparr>)"
    "queues h (Q(Ready_list \<mapsto> t # rs))" "dom h = dom (nodes k)"
    using k_push_spec [of "interrupt_disable k" Q Ready_list rs t] q rs u lists_ok_tag [OF ok tt(1)]
    by auto
  define k' where "k' = interrupt_enable
      ((interrupt_disable k)\<lparr>nodes := h, tasks := (tasks k)(t \<mapsto> tt\<lparr>status := TASK_READY\<rparr>)\<rparr>)"
  have "k_find (interrupt_disable k) Ready_list t = Inr False"
    using k_find_spec [of "interrupt_disable k" Q Ready_list rs t] q rs unqueuedD [OF u rs] by simp
  then have "task_unblock k (Some t) = Inr k'"
    using h(1) tt nst(1) by (simp add: task_unblock_def k'_def Let_def)
  moreover have ok': "lists_ok k' (Q(Ready_list \<mapsto> t # rs))"
  proof (rule lists_ok_step [OF ok])
    show "queues (nodes k') (Q(Ready_list \<mapsto> t # rs))" "dom (nodes k') = dom (nodes k)"
      "dom (tasks k') = dom (tasks k)"
      using h tt(1) by (auto simp: k'_def)
    fix L xs s assume L: "(Q(Ready_list \<mapsto> t # rs)) L = Some xs" and s: "s \<in> set xs"
    show "\<exists>ts. tasks k' s = Some ts \<and> list_status L (status ts)"
    proof (cases "s = t")
      case True
      have "list_status L TASK_READY"
      proof (cases L)
        case (Pool_list)
        then show ?thesis using lists_ok_not_in [OF ok tt(1), of L xs] nst L s True by simp
      next
        case (Waiters l)
        then show ?thesis using unqueuedD [OF u, of L xs] L s True by simp
      qed simp_all
      with True show ?thesis by (simp add: k'_def)
    next
      case False
      obtain ys where ys: "Q L = Some ys" "s \<in> set ys" using L s rs False by (cases "L = Ready_list") auto
      show ?thesis using lists_ok_memberD [OF ok ys] False by (simp add: k'_def)
    qed
  next
    fix L xs s assume "(Q(Ready_list \<mapsto> t # rs)) L = Some xs" "tag_of L = General_tag" "s \<in> set xs"
    then show "s \<in> set (the (Q All_list))"
      using lists_ok_known [OF ok rs, of s] lists_ok_known [OF ok, of L xs s] a
      by (cases "L = Ready_list") auto
  qed (use ok in \<open>auto simp: lists_ok_def\<close>)
  moreover have "runs k' (Q(Ready_list \<mapsto> t # rs)) c"
    using run tt(1) nst(2) current_unqueued [OF ok', of c] by (auto simp: runs_def k'_def)
  ultimately show ?thesis using that unfolding sched_inv_def by (auto simp: k'_def)
qed

end
