(* ===== verification/Sync.thy ===== *)
theory Sync
  imports Sched
begin

text \<open>
  Semaphores and locks: task/sync.c and include/sync.h. A call that has to wait leaves the
  processor to another task; its result is then \<open>Switched\<close> with the state in which the other
  task runs, and \<open>sema_down_loop\<close> is the point the waiting task resumes at (the head of the
  \<open>while\<close> of \<open>sema_down\<close>). \<open>sema_up\<close> is split where it lets interrupts in again.
\<close>

datatype 'v flow = Returned 'v | Switched

section \<open>Semaphores\<close>

definition upd_lock :: "'a kstate_scheme \<Rightarrow> lock_id \<Rightarrow> (lock \<Rightarrow> lock) \<Rightarrow> 'a kstate_scheme" where
  "upd_lock k l f = k\<lparr>locks := (locks k)(l := f (locks k l))\<rparr>"

definition set_value :: "8 word \<Rightarrow> lock \<Rightarrow> lock" where
  "set_value v x = x\<lparr>semaphore := (semaphore x)\<lparr>sema_value := v\<rparr>\<rparr>"

definition sema_val :: "'a kstate_scheme \<Rightarrow> lock_id \<Rightarrow> 8 word" where
  "sema_val k l = sema_value (semaphore (locks k l))"

definition sema_init :: "'a kstate_scheme \<Rightarrow> lock_id \<Rightarrow> 8 word \<Rightarrow> 'a kstate_scheme" where
  "sema_init k l v =
     (let k = upd_lock k l (set_value v)
      in k\<lparr>nodes := list_init (nodes k) (clist_of (Waiters l))\<rparr>)"

definition sema_down_loop :: "'a kstate_scheme \<Rightarrow> lock_id \<Rightarrow> (unit flow \<times> 'a kstate_scheme) res" where
  "sema_down_loop k l =
     (if sema_val k l = 0 then
        bnd (running k) (\<lambda>c.
        bnd (k_find k (Waiters l) c) (\<lambda>waiting.
        bnd (assert_c (\<not> waiting)) (\<lambda>_.
        bnd (k_find k (Waiters l) c) (\<lambda>waiting.
        if waiting then Inl Panic_spin else
        bnd (k_append k (Waiters l) c) (\<lambda>k.
        bnd (task_block k TASK_BLOCKED) (\<lambda>k.
        Inr (Switched, k)))))))
      else
        (let k = upd_lock k l (set_value (sema_val k l - 1))
         in bnd (assert_c (sema_val k l = 0)) (\<lambda>_.
            Inr (Returned (), interrupt_enable k))))"

definition sema_down :: "'a kstate_scheme \<Rightarrow> lock_id \<Rightarrow> (unit flow \<times> 'a kstate_scheme) res" where
  "sema_down k l = sema_down_loop (interrupt_disable k) l"

definition sema_up_wake :: "'a kstate_scheme \<Rightarrow> lock_id \<Rightarrow> 'a kstate_scheme res" where
  "sema_up_wake k l =
     (let k = interrupt_disable k in
      bnd (assert_c (sema_val k l = 0)) (\<lambda>_.
      bnd (k_empty k (Waiters l)) (\<lambda>empty.
      if \<not> empty then
        bnd (k_pop k (Waiters l)) (\<lambda>(thread_blocked, k).
        task_unblock k thread_blocked)
      else Inr k)))"

definition sema_up_post :: "'a kstate_scheme \<Rightarrow> lock_id \<Rightarrow> 'a kstate_scheme res" where
  "sema_up_post k l =
     (let k = upd_lock k l (set_value (sema_val k l + 1))
      in bnd (assert_c (sema_val k l = 1)) (\<lambda>_. Inr (interrupt_enable k)))"

definition sema_up :: "'a kstate_scheme \<Rightarrow> lock_id \<Rightarrow> 'a kstate_scheme res" where
  "sema_up k l = bnd (sema_up_wake k l) (\<lambda>k. sema_up_post k l)"

section \<open>Locks\<close>

definition lock_init :: "'a kstate_scheme \<Rightarrow> lock_id \<Rightarrow> 'a kstate_scheme" where
  "lock_init k l =
     sema_init (upd_lock k l (\<lambda>x. x\<lparr>holder := None, holder_repeat_nr := 0\<rparr>)) l 1"

text \<open>The rest of \<open>lock_acquire\<close> once \<open>sema_down\<close> has returned.\<close>

definition lock_acquired :: "'a kstate_scheme \<Rightarrow> lock_id \<Rightarrow> 'a kstate_scheme res" where
  "lock_acquired k l =
     (let k = upd_lock k l (\<lambda>x. x\<lparr>holder := current_task k\<rparr>)
      in bnd (assert_c (holder_repeat_nr (locks k l) = 0)) (\<lambda>_.
         Inr (upd_lock k l (\<lambda>x. x\<lparr>holder_repeat_nr := 1\<rparr>))))"

definition lock_acquire :: "'a kstate_scheme \<Rightarrow> lock_id \<Rightarrow> (unit flow \<times> 'a kstate_scheme) res" where
  "lock_acquire k l =
     (if holder (locks k l) \<noteq> current_task k then
        bnd (sema_down k l) (\<lambda>(fl, k).
        (case fl of Switched \<Rightarrow> Inr (Switched, k)
         | Returned _ \<Rightarrow> bnd (lock_acquired k l) (\<lambda>k. Inr (Returned (), k))))
      else Inr (Returned (), upd_lock k l (\<lambda>x. x\<lparr>holder_repeat_nr := holder_repeat_nr x + 1\<rparr>)))"

definition lock_release :: "'a kstate_scheme \<Rightarrow> lock_id \<Rightarrow> 'a kstate_scheme res" where
  "lock_release k l =
     bnd (assert_c (holder (locks k l) = current_task k)) (\<lambda>_.
     if holder_repeat_nr (locks k l) > 1
     then Inr (upd_lock k l (\<lambda>x. x\<lparr>holder_repeat_nr := holder_repeat_nr x - 1\<rparr>))
     else
       bnd (assert_c (holder_repeat_nr (locks k l) = 1)) (\<lambda>_.
       (let k = upd_lock k l (\<lambda>x. x\<lparr>holder := None\<rparr>);
            k = upd_lock k l (\<lambda>x. x\<lparr>holder_repeat_nr := 0\<rparr>)
        in sema_up k l)))"

end
