(* ===== verification/TaskLife.thy ===== *)
theory TaskLife
  imports Sync
begin

text \<open>
  The life of a task, the other half of task/task.c: the pool of task numbers, creation,
  start, exit, the main task, and the cleaning of the pool of dead task structures. What
  \<open>malloc\<close> returns is a parameter: the address of a task structure (\<open>None\<close> for NULL) and of a
  stack. So are the address of \<open>task_entrance\<close> and the segment selectors \<open>get_reg\<close> reads.
\<close>

definition TASK_STACK_SIZE :: "64 word" where "TASK_STACK_SIZE = 1024 * 4"

record abi =
  abi_task_entrance :: "64 word"
  abi_cs :: "16 word"
  abi_ss :: "16 word"

section \<open>Task numbers\<close>

definition tid_bitmap_bits :: "8 word list" where
  "tid_bitmap_bits = replicate 125100 0"

definition tid_pool_init :: "'a kstate_scheme \<Rightarrow> 'a kstate_scheme res" where
  "tid_pool_init k =
     (let k = k\<lparr>tid_start := 1\<rparr>;
          b = \<lparr>btmp_bytes_len = 125100, bits = tid_bitmap_bits\<rparr>
      in bnd (bitmap_init b) (\<lambda>b.
         Inr (lock_init (k\<lparr>tid_bitmap := b\<rparr>) Tid_lock)))"

text \<open>\<open>tid_t\<close> is an \<open>int16_t\<close>: the index plus the start is truncated to 16 bits.\<close>

definition allocate_tid_locked :: "'a kstate_scheme \<Rightarrow> (16 word \<times> 'a kstate_scheme) res" where
  "allocate_tid_locked k =
     bnd (bitmap_scan (tid_bitmap k) 1) (\<lambda>bit_idx.
     bnd (bitmap_set (tid_bitmap k) bit_idx 1) (\<lambda>b.
     bnd (lock_release (k\<lparr>tid_bitmap := b\<rparr>) Tid_lock) (\<lambda>k.
     Inr (ucast (bit_idx + tid_start k), k))))"

definition allocate_tid :: "'a kstate_scheme \<Rightarrow> (16 word flow \<times> 'a kstate_scheme) res" where
  "allocate_tid k =
     bnd (lock_acquire k Tid_lock) (\<lambda>(fl, k).
     (case fl of Switched \<Rightarrow> Inr (Switched, k)
      | Returned _ \<Rightarrow> bnd (allocate_tid_locked k) (\<lambda>(t, k). Inr (Returned t, k))))"

text \<open>\<open>tid - tid_start\<close>: the signed \<open>tid_t\<close> is converted to \<open>uint32_t\<close> before the subtraction.\<close>

definition release_tid_locked :: "'a kstate_scheme \<Rightarrow> 16 word \<Rightarrow> 'a kstate_scheme res" where
  "release_tid_locked k t =
     (let bit_idx = scast t - tid_start k
      in bnd (bitmap_set (tid_bitmap k) bit_idx 0) (\<lambda>b.
         lock_release (k\<lparr>tid_bitmap := b\<rparr>) Tid_lock))"

definition release_tid :: "'a kstate_scheme \<Rightarrow> 16 word \<Rightarrow> (unit flow \<times> 'a kstate_scheme) res" where
  "release_tid k t =
     bnd (lock_acquire k Tid_lock) (\<lambda>(fl, k).
     (case fl of Switched \<Rightarrow> Inr (Switched, k)
      | Returned _ \<Rightarrow> bnd (release_tid_locked k t) (\<lambda>k. Inr (Returned (), k))))"

section \<open>Initialising a task structure\<close>

definition context_zero :: sigcontext where
  "context_zero = \<lparr>r8 = 0, r9 = 0, r10 = 0, r11 = 0, r12 = 0, r13 = 0, r14 = 0, r15 = 0,
     rdi = 0, rsi = 0, rbp = 0, rbx = 0, rdx = 0, rax = 0, rcx = 0, rsp = 0, rip = 0,
     eflags = 0, cs = 0, gs = 0, fs = 0, pad0 = 0\<rparr>"

definition task_zero :: task_struct where
  "task_zero = \<lparr>task_stack = 0, stack_min_addr = 0, task_context = context_zero, tid = 0,
     status = TASK_RUNNING, name = [], priority = 0, ticks = 0, elapsed_ticks = 0,
     task_function = 0, func_args = 0, stack_magic = 0, sleep_millisecond = 0,
     first = False, is_hook = False, is_collaborative_schedule = False\<rparr>"

definition node_zero :: "node list_elem" where
  "node_zero = \<lparr>elem_prev = None, elem_next = None\<rparr>"

definition zero_nodes :: "node heap \<Rightarrow> task \<Rightarrow> node heap" where
  "zero_nodes h t = h(Tag General_tag t \<mapsto> node_zero, Tag All_list_tag t \<mapsto> node_zero,
     Tag Pool_tag t \<mapsto> node_zero)"

text \<open>\<open>malloc\<close> of a task structure; its contents are indeterminate and zeroed by the caller next.\<close>

definition malloc_task :: "'a kstate_scheme \<Rightarrow> task option \<Rightarrow> 'a kstate_scheme" where
  "malloc_task k m = (case m of None \<Rightarrow> k
     | Some t \<Rightarrow> k\<lparr>tasks := (tasks k)(t \<mapsto> task_zero), nodes := zero_nodes (nodes k) t\<rparr>)"

definition free_task :: "'a kstate_scheme \<Rightarrow> task \<Rightarrow> 'a kstate_scheme" where
  "free_task k t = k\<lparr>tasks := (tasks k)(t := None),
     nodes := (nodes k)(Tag General_tag t := None, Tag All_list_tag t := None, Tag Pool_tag t := None)\<rparr>"

text \<open>\<open>memset(ptask, 0, sizeof(*ptask))\<close> covers the three list nodes.\<close>

definition memset_task :: "'a kstate_scheme \<Rightarrow> task option \<Rightarrow> 'a kstate_scheme res" where
  "memset_task k p =
     bnd (upd_task k p (\<lambda>_. task_zero)) (\<lambda>k. Inr (k\<lparr>nodes := zero_nodes (nodes k) (the p)\<rparr>))"

text \<open>\<open>name\<close> is a \<open>char[32]\<close>: a longer string runs past the array.\<close>

definition init_task_begin ::
    "'a kstate_scheme \<Rightarrow> task option \<Rightarrow> string \<Rightarrow> 'a kstate_scheme res" where
  "init_task_begin k ptask nm =
     bnd (memset_task k ptask) (\<lambda>k.
     bnd (check (length nm < 32) Wild_deref) (\<lambda>_.
     bnd (upd_task k ptask (\<lambda>t. t\<lparr>name := nm\<rparr>)) (\<lambda>k.
     if ptask = main_task k then
       bnd (upd_task k ptask (\<lambda>t. t\<lparr>status := TASK_RUNNING, first := False\<rparr>)) (\<lambda>k.
       Inr (k\<lparr>current_task := ptask\<rparr>))
     else upd_task k ptask (\<lambda>t. t\<lparr>status := TASK_READY, first := True\<rparr>))))"

definition init_task_end ::
    "'a kstate_scheme \<Rightarrow> task option \<Rightarrow> 16 word \<Rightarrow> 32 word \<Rightarrow> 64 word \<Rightarrow> 'a kstate_scheme res" where
  "init_task_end k ptask i prio stk =
     upd_task k ptask (\<lambda>t. t\<lparr>tid := i, stack_min_addr := stk, task_stack := stk + TASK_STACK_SIZE,
       priority := ucast prio, ticks := ucast prio, elapsed_ticks := 0, stack_magic := 0x19991120,
       sleep_millisecond := 0, is_hook := False, is_collaborative_schedule := False\<rparr>)"

definition init_task ::
    "'a kstate_scheme \<Rightarrow> task option \<Rightarrow> string \<Rightarrow> 32 word \<Rightarrow> 64 word
     \<Rightarrow> (unit flow \<times> 'a kstate_scheme) res" where
  "init_task k ptask nm prio stk =
     bnd (init_task_begin k ptask nm) (\<lambda>k.
     bnd (allocate_tid k) (\<lambda>(fl, k).
     (case fl of Switched \<Rightarrow> Inr (Switched, k)
      | Returned i \<Rightarrow> bnd (init_task_end k ptask i prio stk) (\<lambda>k. Inr (Returned (), k)))))"

definition task_create ::
    "'a kstate_scheme \<Rightarrow> abi \<Rightarrow> task option \<Rightarrow> 64 word \<Rightarrow> 64 word \<Rightarrow> 'a kstate_scheme res" where
  "task_create k a ptask func func_arg =
     upd_task k ptask (\<lambda>t. t\<lparr>task_context :=
       (let c = context_zero\<lparr>rsp := task_stack t, rbp := task_stack t\<rparr>;
            c = get_reg (abi_cs a) (abi_ss a) c
        in c\<lparr>rip := abi_task_entrance a, rdi := func, rsi := func_arg\<rparr>)\<rparr>)"

section \<open>Starting tasks\<close>

text \<open>Where \<open>task_start\<close> gets the structure: from the pool when it holds one, else \<open>malloc\<close>.\<close>

definition obtain_task :: "'a kstate_scheme \<Rightarrow> task option \<Rightarrow> (task option \<times> 'a kstate_scheme) res" where
  "obtain_task k m =
     bnd (k_empty k Pool_list) (\<lambda>empty.
     if \<not> empty then
       bnd (k_pop k Pool_list) (\<lambda>(p, k).
       bnd (get_task k p) (\<lambda>t.
       bnd (assert_c (TASK_DIED \<noteq> status t)) (\<lambda>_.
       Inr (p, k))))
     else Inr (m, malloc_task k m))"

definition task_publish :: "'a kstate_scheme \<Rightarrow> task option \<Rightarrow> 'a kstate_scheme res" where
  "task_publish k p =
     bnd (get_task k p) (\<lambda>_.
     bnd (k_find k Ready_list (the p)) (\<lambda>f.
     bnd (assert_c (\<not> f)) (\<lambda>_.
     bnd (k_append k Ready_list (the p)) (\<lambda>k.
     bnd (k_find k All_list (the p)) (\<lambda>f.
     bnd (assert_c (\<not> f)) (\<lambda>_.
     bnd (k_append k All_list (the p)) (\<lambda>k.
     Inr (interrupt_enable (k\<lparr>task_all_nums := task_all_nums k + 1\<rparr>)))))))))"

definition task_start ::
    "'a kstate_scheme \<Rightarrow> abi \<Rightarrow> task option \<Rightarrow> 64 word \<Rightarrow> string \<Rightarrow> 32 word \<Rightarrow> 64 word \<Rightarrow> 64 word
     \<Rightarrow> (task option flow \<times> 'a kstate_scheme) res" where
  "task_start k a m stk nm prio func func_arg =
     (let k = interrupt_disable k in
      bnd (obtain_task k m) (\<lambda>(p, k).
      bnd (init_task k p nm prio stk) (\<lambda>(fl, k).
      (case fl of Switched \<Rightarrow> Inr (Switched, k)
       | Returned _ \<Rightarrow>
           bnd (task_create k a p func func_arg) (\<lambda>k.
           bnd (task_publish k p) (\<lambda>k.
           Inr (Returned p, k)))))))"

definition make_main_task ::
    "'a kstate_scheme \<Rightarrow> task option \<Rightarrow> 64 word \<Rightarrow> (unit flow \<times> 'a kstate_scheme) res" where
  "make_main_task k m stk =
     (let k = (malloc_task k m)\<lparr>main_task := m\<rparr> in
      bnd (init_task k m ''main'' 3 stk) (\<lambda>(fl, k).
      (case fl of Switched \<Rightarrow> Inr (Switched, k)
       | Returned _ \<Rightarrow>
           bnd (k_find k All_list (the m)) (\<lambda>f.
           bnd (assert_c (\<not> f)) (\<lambda>_.
           bnd (k_append k All_list (the m)) (\<lambda>k.
           Inr (Returned (), k\<lparr>task_all_nums := task_all_nums k + 1\<rparr>)))))))"

definition task_init ::
    "'a kstate_scheme \<Rightarrow> task option \<Rightarrow> 64 word \<Rightarrow> (unit flow \<times> 'a kstate_scheme) res" where
  "task_init k m stk =
     (let k = k\<lparr>nodes := list_init (nodes k) (clist_of Ready_list)\<rparr>;
          k = k\<lparr>nodes := list_init (nodes k) (clist_of All_list)\<rparr>;
          k = k\<lparr>nodes := list_init (nodes k) (clist_of Pool_list)\<rparr>;
          k = k\<lparr>task_all_nums := 0\<rparr>
      in bnd (tid_pool_init k) (\<lambda>k. make_main_task k m stk))"

section \<open>Ending tasks\<close>

definition task_exit_unlink :: "'a kstate_scheme \<Rightarrow> task option \<Rightarrow> 'a kstate_scheme res" where
  "task_exit_unlink k p =
     (let k = interrupt_disable k in
      bnd (upd_task k p (\<lambda>t. t\<lparr>status := TASK_DIED\<rparr>)) (\<lambda>k.
      bnd (k_find k Ready_list (the p)) (\<lambda>f.
      bnd (if f then k_remove k General_tag (the p) else Inr k) (\<lambda>k.
      bnd (k_remove k All_list_tag (the p)) (\<lambda>k.
      (let k = k\<lparr>task_all_nums := task_all_nums k - 1\<rparr> in
       if p \<noteq> main_task k then k_append k Pool_list (the p) else Inr k))))))"

definition task_exit :: "'a kstate_scheme \<Rightarrow> task option \<Rightarrow> (unit flow \<times> 'a kstate_scheme) res" where
  "task_exit k p =
     bnd (task_exit_unlink k p) (\<lambda>k.
     bnd (get_task k p) (\<lambda>t.
     bnd (release_tid k (tid t)) (\<lambda>(fl, k).
     (case fl of Switched \<Rightarrow> Inr (Switched, k)
      | Returned _ \<Rightarrow>
          bnd (died_task_schedule (interrupt_enable k)) (\<lambda>k. Inr (Switched, k))))))"

text \<open>The entry point of every task: run the task's function, then end the task that runs.\<close>

definition task_entrance ::
    "('a kstate_scheme \<Rightarrow> 'a kstate_scheme res) \<Rightarrow> 'a kstate_scheme
     \<Rightarrow> (unit flow \<times> 'a kstate_scheme) res" where
  "task_entrance func k = bnd (func k) (\<lambda>k. task_exit k (current_task k))"

section \<open>Cleaning the pool\<close>

partial_function (option) clean_loop :: "'a kstate_scheme \<Rightarrow> int \<Rightarrow> 'a kstate_scheme res option" where
  "clean_loop k clean_cnt =
     (case k_empty k Pool_list of
        Inl e \<Rightarrow> Some (Inl e)
      | Inr none_left \<Rightarrow>
          (if none_left \<or> clean_cnt = 0 then
             (case k_pop k Pool_list of
                Inl e \<Rightarrow> Some (Inl e)
              | Inr (p, k') \<Rightarrow>
                  (case get_task k' p of
                     Inl e \<Rightarrow> Some (Inl e)
                   | Inr _ \<Rightarrow> clean_loop (free_task k' (the p)) (clean_cnt - 1)))
           else Some (Inr k)))"

declare clean_loop.simps [code]

definition clean_dead_task :: "'a kstate_scheme \<Rightarrow> 'a kstate_scheme res" where
  "clean_dead_task k =
     bnd (k_empty k Pool_list) (\<lambda>empty.
     if empty then Inr k
     else
       (let n = sint (task_all_nums k);
            clean_cnt = (if c_div n 8 > 16 then 16 else c_div n 8)
        in returns (clean_loop k clean_cnt)))"

end
