(* ===== verification/Demo.thy ===== *)
theory Demo
  imports SchedInv TaskLife
begin

text \<open>
  A generator of concrete kernel states from a description of their queues, with the general
  lemma that the states it makes satisfy the scheduler's invariant. The examples that apply the
  theorems of the development at concrete inputs are built with it.
\<close>

section \<open>Heaps from queues\<close>

fun chain_heap :: "node option \<Rightarrow> node list \<Rightarrow> node heap" where
  "chain_heap p [] = Map.empty"
| "chain_heap p (x # xs) = (chain_heap (Some x) xs)(x \<mapsto> \<lparr>elem_prev = p, elem_next = hd_or xs None\<rparr>)"

definition list_heap :: "list_id \<Rightarrow> task list \<Rightarrow> node heap" where
  "list_heap L xs = chain_heap None (Head L # map (Tag (tag_of L)) xs @ [Tail L])"

definition tag_heap :: "task list \<Rightarrow> node heap" where
  "tag_heap ts = (\<lambda>n. case n of Tag g t \<Rightarrow> if t \<in> set ts then Some node_zero else None | _ \<Rightarrow> None)"

fun heap_of :: "(list_id \<times> task list) list \<Rightarrow> task list \<Rightarrow> node heap" where
  "heap_of [] ts = tag_heap ts"
| "heap_of ((L, xs) # qs) ts = heap_of qs ts ++ list_heap L xs"

definition demo_regs :: sigcontext where
  "demo_regs = context_zero\<lparr>rax := 7, rip := 0x401000\<rparr>"

definition demo_task :: "task \<Rightarrow> task_status \<Rightarrow> task_struct" where
  "demo_task t s = task_zero\<lparr>tid := of_nat (Suc t), status := s, priority := 3, ticks := of_nat t,
     task_context := context_zero\<lparr>rax := of_nat t, rip := 0x500000\<rparr>\<rparr>"

definition demo_lock :: lock where
  "demo_lock = \<lparr>holder = None, semaphore = \<lparr>sema_value = 1\<rparr>, holder_repeat_nr = 0\<rparr>"

definition demo_state ::
    "(list_id \<times> task list) list \<Rightarrow> (task \<times> task_status) list \<Rightarrow> task \<Rightarrow> kstate" where
  "demo_state qs ts c = \<lparr>nodes = heap_of qs (map fst ts),
     tasks = map_of (map (\<lambda>(t, s). (t, demo_task t s)) ts),
     main_task = Some 0, current_task = Some c, task_all_nums = of_nat (length ts),
     tid_bitmap = \<lparr>btmp_bytes_len = 1, bits = [2 ^ length ts - 1]\<rparr>, tid_start = 1,
     locks = (\<lambda>_. demo_lock), sigmask = {}, regs = demo_regs\<rparr>"

definition general_members :: "(list_id \<times> task list) list \<Rightarrow> tag \<Rightarrow> task list" where
  "general_members qs g = concat (map snd (filter (\<lambda>(L, xs). tag_of L = g) qs))"

definition demo_ok :: "(list_id \<times> task list) list \<Rightarrow> (task \<times> task_status) list \<Rightarrow> task \<Rightarrow> bool" where
  "demo_ok qs ts c \<longleftrightarrow> distinct (map fst qs)
     \<and> list_all (\<lambda>g. distinct (general_members qs g)) [General_tag, All_list_tag, Pool_tag]
     \<and> list_all (\<lambda>(L, xs). list_all (\<lambda>t. case map_of ts t of None \<Rightarrow> False
           | Some s \<Rightarrow> list_status L s \<and> (tag_of L = General_tag \<longrightarrow>
               t \<in> set (the (map_of qs All_list)))) xs) qs
     \<and> list_all (\<lambda>L. map_of qs L \<noteq> None) [Ready_list, All_list, Pool_list]
     \<and> map_of ts c = Some TASK_RUNNING \<and> c \<in> set (the (map_of qs All_list))"

lemma chain_heap_outside: "n \<notin> set xs \<Longrightarrow> chain_heap p xs n = None"
  by (induction xs arbitrary: p) auto

lemma chain_heap_dchain: "distinct xs \<Longrightarrow> dchain (chain_heap p xs) p xs None"
proof (induction xs arbitrary: p)
  case (Cons x xs)
  have "dchain (chain_heap p (x # xs)) (Some x) xs None = dchain (chain_heap (Some x) xs) (Some x) xs None"
    by (rule dchain_frame) (use Cons.prems in auto)
  with Cons show ?case by (simp add: fun_upd_def)
qed simp

lemma is_list_cong:
  "is_list h l xs \<Longrightarrow> (\<And>n. n \<in> list_nodes l xs \<Longrightarrow> h' n = h n) \<Longrightarrow> is_list h' l xs"
  using is_list_frame [of l xs h' h] by (auto simp: list_nodes_def)

lemma list_heap_is_list:
  assumes "distinct xs"
  shows "is_list (list_heap L xs) (clist_of L) (map (Tag (tag_of L)) xs)"
proof -
  have "distinct (Head L # map (Tag (tag_of L)) xs @ [Tail L])"
    using assms by (auto simp: distinct_map inj_on_def)
  from chain_heap_dchain [OF this, of None] this show ?thesis
    by (simp add: is_list_def clist_of_def list_heap_def)
qed

lemma list_heap_dom: "dom (list_heap L xs) \<subseteq> {Head L, Tail L} \<union> Tag (tag_of L) ` set xs"
  using chain_heap_outside [of _ "Head L # map (Tag (tag_of L)) xs @ [Tail L]" None]
  unfolding list_heap_def by fastforce

lemma heap_of_tag: "t \<in> set ts \<Longrightarrow> Tag g t \<in> dom (heap_of qs ts)"
  by (induction qs ts rule: heap_of.induct) (auto simp: tag_heap_def)

lemma general_members_Cons:
  "general_members ((L, xs) # qs) g = (if tag_of L = g then xs else []) @ general_members qs g"
  by (simp add: general_members_def)

lemma general_members_mem:
  "map_of qs M = Some ys \<Longrightarrow> set ys \<subseteq> set (general_members qs (tag_of M))"
  by (induction qs) (auto simp: general_members_Cons split: if_splits)

lemma heap_of_queues:
  assumes "distinct (map fst qs)" and "\<And>g. distinct (general_members qs g)"
  shows "queues (heap_of qs ts) (map_of qs)"
  using assms
proof (induction qs ts rule: heap_of.induct)
  case (1 ts)
  then show ?case by (simp add: queues_def)
next
  case (2 L xs qs ts)
  have q: "queues (heap_of qs ts) (map_of qs)"
    using 2 by (simp add: general_members_Cons)
  have dx: "distinct xs" using "2.prems"(2) [of "tag_of L"] by (simp add: general_members_Cons)
  have disj: "set xs \<inter> set ys = {}" if "map_of qs M = Some ys" "tag_of M = tag_of L" for M ys
    using "2.prems"(2) [of "tag_of L"] general_members_mem [OF that(1)] that(2)
    by (auto simp: general_members_Cons)
  have nL: "map_of qs L = None" using "2.prems"(1) by (simp add: map_of_eq_None_iff)
  show ?case
    unfolding queues_def
  proof (intro conjI allI impI)
    fix M ys assume M: "map_of ((L, xs) # qs) M = Some ys"
    show "is_list (heap_of ((L, xs) # qs) ts) (clist_of M) (map (Tag (tag_of M)) ys)"
    proof (cases "M = L")
      case True
      with M have ys: "ys = xs" by simp
      have "list_nodes (clist_of L) (map (Tag (tag_of L)) xs) \<subseteq> dom (list_heap L xs)"
        by (rule is_list_dom [OF list_heap_is_list [OF dx]])
      then show ?thesis
        unfolding True ys by (intro is_list_cong [OF list_heap_is_list [OF dx]]) (auto simp: map_add_def)
    next
      case False
      with M have M: "map_of qs M = Some ys" by simp
      have "n \<notin> dom (list_heap L xs)" if "n \<in> list_nodes (clist_of M) (map (Tag (tag_of M)) ys)" for n
        using that subsetD [OF list_heap_dom, of n L xs] disj [OF M] False
        by (auto simp: list_nodes_clist_of)
      then show ?thesis
        by (intro is_list_cong [OF queues_list [OF q M]]) (auto simp: map_add_dom_app_simps)
    qed
  next
    fix M N us vs
    assume a: "map_of ((L, xs) # qs) M = Some us \<and> map_of ((L, xs) # qs) N = Some vs
      \<and> M \<noteq> N \<and> tag_of M = tag_of N"
    consider "M = L" "N \<noteq> L" | "N = L" "M \<noteq> L" | "M \<noteq> L" "N \<noteq> L" using a by blast
    then show "set us \<inter> set vs = {}"
    proof cases
      case 1
      then show ?thesis using a disj [of N vs] by auto
    next
      case 2
      then show ?thesis using a disj [of M us] by auto
    next
      case 3
      then show ?thesis using a queues_disjoint [OF q, of M us N vs] by simp
    qed
  qed
qed

lemma demo_inv:
  assumes "demo_ok qs ts c"
  shows "sched_inv (demo_state qs ts c) (map_of qs)"
proof -
  have d: "distinct (map fst qs)" "\<And>g. distinct (general_members qs g)"
    using assms by (auto simp: demo_ok_def) (metis tag.exhaust)
  have tk: "tasks (demo_state qs ts c) t = map_option (demo_task t) (map_of ts t)" for t
    by (simp add: demo_state_def) (induction ts, auto)
  have mem: "\<exists>s. map_of ts t = Some s \<and> list_status L s \<and>
      (tag_of L = General_tag \<longrightarrow> t \<in> set (the (map_of qs All_list)))"
    if "map_of qs L = Some xs" "t \<in> set xs" for L xs t
    using assms map_of_SomeD [OF that(1)] that(2)
    by (fastforce simp: demo_ok_def list_all_iff split: option.splits)
  have ok: "lists_ok (demo_state qs ts c) (map_of qs)"
  proof (rule lists_okI)
    show "queues (nodes (demo_state qs ts c)) (map_of qs)"
      using heap_of_queues [OF d] by (simp add: demo_state_def)
    show "\<exists>tt. tasks (demo_state qs ts c) t = Some tt \<and> list_status L (status tt)"
      if "map_of qs L = Some xs" "t \<in> set xs" for L xs t
      using mem [OF that] by (auto simp: tk demo_task_def)
    show "t \<in> set (the (map_of qs All_list))"
      if "map_of qs L = Some xs" "tag_of L = General_tag" "t \<in> set xs" for L xs t
      using mem [OF that(1,3)] that(2) by blast
    show "Tag g t \<in> dom (nodes (demo_state qs ts c))"
      if "tasks (demo_state qs ts c) t = Some tt" for t tt g
    proof -
      have "t \<in> set (map fst ts)"
        using that by (simp add: tk) (metis fst_conv image_eqI map_of_SomeD)
      then show ?thesis using heap_of_tag [of t "map fst ts" g qs] by (simp add: demo_state_def)
    qed
  qed (use assms in \<open>auto simp: demo_ok_def\<close>)
  moreover have "runs (demo_state qs ts c) (map_of qs) c"
    using assms current_unqueued [OF ok, of c]
    by (auto simp: runs_def tk demo_ok_def demo_task_def) (simp add: demo_state_def)
  ultimately show ?thesis unfolding sched_inv_def by blast
qed

text \<open>The main task runs, two others are ready.\<close>

definition demo3 :: kstate where
  "demo3 = demo_state [(Ready_list, [1, 2]), (All_list, [0, 1, 2]), (Pool_list, []),
     (Waiters Tid_lock, []), (Waiters (User_lock 0), [])]
     [(0, TASK_RUNNING), (1, TASK_READY), (2, TASK_READY)] 0"

definition demo3_queues :: queue_view where
  "demo3_queues = map_of [(Ready_list, [1, 2]), (All_list, [0, 1, 2]), (Pool_list, []),
     (Waiters Tid_lock, []), (Waiters (User_lock 0), [])]"

lemma demo3_inv: "sched_inv demo3 demo3_queues"
  unfolding demo3_def demo3_queues_def
  by (rule demo_inv) (simp add: demo_ok_def general_members_def)

lemma demo3_simps [simp]:
  "current_task demo3 = Some 0" "demo3_queues Ready_list = Some [1, 2]"
  "demo3_queues All_list = Some [0, 1, 2]" "demo3_queues Pool_list = Some []"
  "demo3_queues (Waiters Tid_lock) = Some []" "demo3_queues (Waiters (User_lock 0)) = Some []"
  "tasks demo3 0 = Some (demo_task 0 TASK_RUNNING)" "tasks demo3 (Suc 0) = Some (demo_task 1 TASK_READY)"
  "tasks demo3 2 = Some (demo_task 2 TASK_READY)" "locks demo3 l = demo_lock" "sigmask demo3 = {}"
  "main_task demo3 = Some 0" "regs demo3 = demo_regs"
  by (simp_all add: demo3_def demo_state_def demo3_queues_def)

end
