(* ===== verification/RoundRobin.thy ===== *)
theory RoundRobin
  imports Demo
begin

text \<open>
  The preemptive scheduler seen from the tasks: a preemption is invisible to the registers of
  every task, and preemptions serve the tasks in the order of the ready queue.
\<close>

section \<open>The registers of a task\<close>

text \<open>Where a task's registers are: on the processor while it runs, else in its structure.\<close>

definition regs_of :: "'a kstate_scheme \<Rightarrow> task \<Rightarrow> sigcontext" where
  "regs_of k t = (if current_task k = Some t then regs k else task_context (the (tasks k t)))"

lemma schedule_regs:
  assumes inv: "sched_inv k Q" and s: "schedule k = Inr k'"
  shows "regs_of k' t = regs_of k t"
proof -
  obtain c tc rs where c: "current_task k = Some c" and rs: "Q Ready_list = Some rs"
    and tc: "tasks k c = Some tc" and ok: "lists_ok k Q"
    using inv by (auto elim!: sched_invE)
  obtain k1 n rs' where k1: "schedule k = Inr k1" "rr_step (c, rs) = (n, rs')" "current_task k1 = Some n"
    "tasks k1 = switch_tasks (tasks k) c (regs k) n" "regs k1 = task_context (the (tasks k1 n))"
    by (rule schedule_inv [OF inv c rs])
  have eq: "k1 = k'" using k1(1) s by simp
  show ?thesis using c tc k1(3-5) by (auto simp: eq regs_of_def switch_tasks_def Let_def)
qed

lemma collaborative_regs:
  assumes inv: "sched_inv k Q" and s: "collaborative_schedule k = Inr k'"
  shows "regs_of k' t = regs_of k t"
proof -
  obtain c tc rs where c: "current_task k = Some c" and rs: "Q Ready_list = Some rs"
    and tc: "tasks k c = Some tc" "status tc = TASK_RUNNING" and ok: "lists_ok k Q"
    using inv by (auto elim!: sched_invE)
  show ?thesis
  proof (cases rs)
    case Nil
    with collaborative_schedule_idle [OF inv] rs s show ?thesis by simp
  next
    case (Cons n rs')
    with rs have rs: "Q Ready_list = Some (n # rs')" by simp
    have nc: "n \<noteq> c" using lists_ok_memberD [OF ok rs, of n] tc by auto
    obtain k1 tc' tn where k1: "collaborative_schedule k = Inr k1" "tasks k c = Some tc'" "tasks k n = Some tn"
      "current_task k1 = Some n" "tasks k1 = (tasks k)(n \<mapsto> resumed tn, c \<mapsto> tc'\<lparr>task_context := regs k\<rparr>)"
      "regs k1 = task_context tn"
      by (rule collaborative_schedule_inv [OF inv c rs])
    have eq: "k1 = k'" using k1(1) s by simp
    show ?thesis using c nc k1(2-6) by (auto simp: eq regs_of_def)
  qed
qed

section \<open>Runs of several preemptions\<close>

text \<open>
  The processor between two clock signals: the running task computes (any function of its
  registers), then the signal handler calls \<open>schedule\<close>.
\<close>

fun preempt_n :: "(sigcontext \<Rightarrow> sigcontext) list \<Rightarrow> 'a kstate_scheme \<Rightarrow> 'a kstate_scheme res" where
  "preempt_n [] k = Inr k"
| "preempt_n (u # us) k = bnd (schedule (k\<lparr>regs := u (regs k)\<rparr>)) (\<lambda>k. preempt_n us k)"

lemma rr_step_rotate: "rr_step (hd xs, tl xs) = (hd (rotate1 xs), tl (rotate1 xs))" if "xs \<noteq> []"
  using that by (cases xs) (auto simp: rr_step_def)

lemma preempt_n_inv:
  assumes "sched_inv k Q" and "current_task k = Some c" and "Q Ready_list = Some rs"
  shows "\<exists>k' n rs'. preempt_n us k = Inr k' \<and> rotate (length us) (c # rs) = n # rs'
    \<and> current_task k' = Some n \<and> sched_inv k' (Q(Ready_list \<mapsto> rs'))"
  using assms
proof (induction us arbitrary: k Q c rs)
  case Nil
  then have "Q(Ready_list \<mapsto> rs) = Q" by (simp only: fun_upd_idem)
  with Nil show ?case by (simp del: fun_upd_apply add: fun_upd_idem)
next
  case (Cons u us)
  let ?k = "k\<lparr>regs := u (regs k)\<rparr>"
  have "sched_inv ?k Q" using Cons.prems(1) sched_inv_cong [of ?k k Q] by simp
  then obtain k1 n1 rs1 where k1: "schedule ?k = Inr k1" "rr_step (c, rs) = (n1, rs1)"
    "sched_inv k1 (Q(Ready_list \<mapsto> rs1))" "current_task k1 = Some n1"
    by (rule schedule_inv [of ?k Q c rs]) (use Cons.prems in auto)
  have "(Q(Ready_list \<mapsto> rs1)) Ready_list = Some rs1" by simp
  from Cons.IH [OF k1(3,4) this]
  obtain k' n rs' where k': "preempt_n us k1 = Inr k'" "rotate (length us) (n1 # rs1) = n # rs'"
    "current_task k' = Some n" "sched_inv k' (Q(Ready_list \<mapsto> rs'))"
    unfolding fun_upd_upd by blast
  have "n1 # rs1 = rotate1 (c # rs)" using k1(2) by (cases rs) (auto simp: rr_step_def)
  then have "rotate (length (u # us)) (c # rs) = n # rs'" using k'(2) by (simp add: rotate1_rotate_swap)
  with k1(1) k' show ?case by (auto simp del: fun_upd_apply)
qed

section \<open>Properties\<close>

text \<open>
  C2. A preemption by \<open>schedule\<close> is one step of round robin: whenever the scheduler's invariant
  holds, the handler returns normally, the task at the head of the ready queue (with the
  preempted task queued behind it) becomes the running task, and the invariant holds again with
  the rotated queue; every other queue, the locks and the signal mask are as before.
\<close>

theorem schedule_round_robin:
  assumes "sched_inv k Q" and "current_task k = Some c" and "Q Ready_list = Some rs"
  shows "\<exists>k'. schedule k = Inr k' \<and> current_task k' = Some (hd (rs @ [c]))
    \<and> sched_inv k' (Q(Ready_list \<mapsto> tl (rs @ [c]))) \<and> locks k' = locks k \<and> sigmask k' = sigmask k"
proof -
  obtain k' n rs' where "schedule k = Inr k'" "rr_step (c, rs) = (n, rs')"
    "sched_inv k' (Q(Ready_list \<mapsto> rs'))" "current_task k' = Some n" "locks k' = locks k"
    "sigmask k' = sigmask k"
    by (rule schedule_inv [OF assms])
  then show ?thesis by (auto simp: rr_step_def)
qed

theorem schedule_round_robin_witness:
  "\<exists>k'. schedule demo3 = Inr k' \<and> current_task k' = Some 1
    \<and> sched_inv k' (demo3_queues(Ready_list \<mapsto> [2, 0]))"
  using schedule_round_robin [OF demo3_inv, of 0 "[1, 2]"] by auto

text \<open>
  C4. Preemption is transparent: when the handler that called \<open>schedule\<close> has returned, every
  task, running or not, has exactly the registers (flags and segment selectors included) it had
  before, wherever they are kept.
\<close>

theorem schedule_transparent:
  assumes "sched_inv k Q" and "schedule k = Inr k'"
  shows "regs_of k' t = regs_of k t"
  by (rule schedule_regs [OF assms])

theorem schedule_transparent_witness:
  "\<exists>k'. schedule demo3 = Inr k' \<and> regs_of k' 0 = demo_regs \<and> regs_of k' 1 = regs k'"
proof -
  obtain k' n rs' where k': "schedule demo3 = Inr k'" "rr_step (0, [1, 2]) = (n, rs')"
    "current_task k' = Some n"
    by (rule schedule_inv [OF demo3_inv, of 0 "[1, 2]"]) simp_all
  then have "regs_of k' 1 = regs k'" by (simp add: rr_step_def regs_of_def)
  with k'(1) schedule_transparent [OF demo3_inv k'(1), of 0] show ?thesis by (auto simp: regs_of_def)
qed

text \<open>
  C3. Fairness of preemption: whatever the tasks compute between the clock signals, after
  \<open>i\<close> preemptions no handler has failed and the running task is the one \<open>i\<close> places behind the
  first in the circular order given by the running task and the ready queue. Each of the \<open>n\<close>
  tasks therefore runs once in any \<open>n\<close> consecutive time slices.
\<close>

theorem round_robin_order:
  assumes "sched_inv k Q" and "current_task k = Some c" and "Q Ready_list = Some rs"
  shows "\<exists>k'. preempt_n us k = Inr k'
    \<and> current_task k' = Some ((c # rs) ! (length us mod Suc (length rs)))"
proof -
  obtain k' n rs' where k': "preempt_n us k = Inr k'" "rotate (length us) (c # rs) = n # rs'"
    "current_task k' = Some n"
    using preempt_n_inv [OF assms] by blast
  have "n = hd (rotate (length us) (c # rs))" using k'(2) by simp
  also have "\<dots> = (c # rs) ! (length us mod Suc (length rs))" by (subst hd_rotate_conv_nth) simp_all
  finally show ?thesis using k' by blast
qed

theorem round_robin_order_witness:
  "\<exists>k'. preempt_n [id, id, id, id] demo3 = Inr k' \<and> current_task k' = Some 1"
  using round_robin_order [OF demo3_inv, of 0 "[1, 2]" "[id, id, id, id]"] by simp

text \<open>
  The cooperative switch of a sleeping task: the head of the ready queue runs, the invariant
  holds with that queue shortened, no register of any task changes, and the task that gave up
  the processor is on no queue of the scheduler (only a timer holds it). With nobody ready the
  handler never returns.
\<close>

lemma collaborative_schedule_spec:
  assumes "sched_inv k Q" and "current_task k = Some c" and "Q Ready_list = Some rs"
  shows "if rs = [] then collaborative_schedule k = Inl Idle_spin
    else \<exists>k'. collaborative_schedule k = Inr k' \<and> current_task k' = Some (hd rs)
      \<and> sched_inv k' (Q(Ready_list \<mapsto> tl rs)) \<and> unqueued (Q(Ready_list \<mapsto> tl rs)) General_tag c
      \<and> (\<forall>t. regs_of k' t = regs_of k t)"
proof (cases rs)
  case Nil
  then show ?thesis using collaborative_schedule_idle [OF assms(1)] assms(3) by simp
next
  case (Cons n rs')
  with assms(3) have rs: "Q Ready_list = Some (n # rs')" by simp
  obtain k' where k': "collaborative_schedule k = Inr k'" "sched_inv k' (Q(Ready_list \<mapsto> rs'))"
    "current_task k' = Some n"
    by (rule collaborative_schedule_inv [OF assms(1,2) rs])
  have u: "unqueued Q General_tag c" using assms(1,2) by (auto elim!: sched_invE)
  have "unqueued (Q(Ready_list \<mapsto> rs')) General_tag c"
    unfolding unqueued_def using unqueuedD [OF u] rs
    by (metis fun_upd_apply list.set_intros(2) option.inject)
  with k' collaborative_regs [OF assms(1) k'(1)] Cons show ?thesis by auto
qed

end
