(* ===== verification/Selection.thy ===== *)
theory Selection
  imports Demo
begin

text \<open>
  The operations of task/task.c that walk the list of all tasks: the Linux-0.11 style choice of
  the next task, the search for a task number, and the test whether all tasks have finished.
\<close>

section \<open>The choice in the style of Linux 0.11\<close>

text \<open>What the loop computes: the recharged time slices and the first task with the largest one.\<close>

definition time_slice :: "(task \<rightharpoonup> task_struct) \<Rightarrow> task \<Rightarrow> int" where
  "time_slice T t = int (unat (ticks (recharge (the (T t)))))"

definition is_ready :: "(task \<rightharpoonup> task_struct) \<Rightarrow> task \<Rightarrow> bool" where
  "is_ready T t \<longleftrightarrow> status (the (T t)) = TASK_READY"

fun pick :: "(task \<rightharpoonup> task_struct) \<Rightarrow> task list \<Rightarrow> int \<Rightarrow> task option \<Rightarrow> task option" where
  "pick T [] c nt = nt"
| "pick T (t # ts) c nt =
     (if is_ready T t \<and> time_slice T t > c then pick T ts (time_slice T t) (Some t) else pick T ts c nt)"

definition recharge_on :: "task set \<Rightarrow> (task \<rightharpoonup> task_struct) \<Rightarrow> (task \<rightharpoonup> task_struct)" where
  "recharge_on A T = (\<lambda>t. if t \<in> A then map_option recharge (T t) else T t)"

lemma recharge_status [simp]: "status (recharge t) = status t"
  by (simp add: recharge_def)

lemma pick_cong:
  "(\<And>t. t \<in> set ts \<Longrightarrow> T t = T' t) \<Longrightarrow> pick T ts c nt = pick T' ts c nt"
  by (induction ts arbitrary: c nt) (auto simp: is_ready_def time_slice_def)

lemma pick_cases:
  "(pick T ts c nt = nt \<and> (\<forall>u\<in>set ts. is_ready T u \<longrightarrow> time_slice T u \<le> c)) \<or>
   (\<exists>ys t zs. pick T ts c nt = Some t \<and> ts = ys @ t # zs \<and> is_ready T t \<and> c < time_slice T t
      \<and> (\<forall>u\<in>set ys. is_ready T u \<longrightarrow> time_slice T u < time_slice T t)
      \<and> (\<forall>u\<in>set zs. is_ready T u \<longrightarrow> time_slice T u \<le> time_slice T t))"
proof (induction ts arbitrary: c nt)
  case Nil
  then show ?case by simp
next
  case (Cons a ts)
  show ?case
  proof (cases "is_ready T a \<and> time_slice T a > c")
    case True
    consider "pick T ts (time_slice T a) (Some a) = Some a" "\<forall>u\<in>set ts. is_ready T u \<longrightarrow> time_slice T u \<le> time_slice T a"
      | ys t zs where "pick T ts (time_slice T a) (Some a) = Some t" "ts = ys @ t # zs" "is_ready T t"
        "time_slice T a < time_slice T t" "\<forall>u\<in>set ys. is_ready T u \<longrightarrow> time_slice T u < time_slice T t"
        "\<forall>u\<in>set zs. is_ready T u \<longrightarrow> time_slice T u \<le> time_slice T t"
      using Cons.IH [of "time_slice T a" "Some a"] by blast
    then show ?thesis
    proof cases
      case 1
      then have "pick T (a # ts) c nt = Some a \<and> a # ts = [] @ a # ts \<and> is_ready T a \<and> c < time_slice T a
          \<and> (\<forall>u\<in>set []. is_ready T u \<longrightarrow> time_slice T u < time_slice T a)
          \<and> (\<forall>u\<in>set ts. is_ready T u \<longrightarrow> time_slice T u \<le> time_slice T a)"
        using True by simp
      then show ?thesis by blast
    next
      case 2
      then have "pick T (a # ts) c nt = Some t \<and> a # ts = (a # ys) @ t # zs \<and> is_ready T t \<and> c < time_slice T t
          \<and> (\<forall>u\<in>set (a # ys). is_ready T u \<longrightarrow> time_slice T u < time_slice T t)
          \<and> (\<forall>u\<in>set zs. is_ready T u \<longrightarrow> time_slice T u \<le> time_slice T t)"
        using True by auto
      then show ?thesis by blast
    qed
  next
    case False
    consider "pick T ts c nt = nt" "\<forall>u\<in>set ts. is_ready T u \<longrightarrow> time_slice T u \<le> c"
      | ys t zs where "pick T ts c nt = Some t" "ts = ys @ t # zs" "is_ready T t"
        "c < time_slice T t" "\<forall>u\<in>set ys. is_ready T u \<longrightarrow> time_slice T u < time_slice T t"
        "\<forall>u\<in>set zs. is_ready T u \<longrightarrow> time_slice T u \<le> time_slice T t"
      using Cons.IH [of c nt] by blast
    then show ?thesis
    proof cases
      case 1
      then show ?thesis using False by auto
    next
      case 2
      then have "pick T (a # ts) c nt = Some t \<and> a # ts = (a # ys) @ t # zs \<and> is_ready T t \<and> c < time_slice T t
          \<and> (\<forall>u\<in>set (a # ys). is_ready T u \<longrightarrow> time_slice T u < time_slice T t)
          \<and> (\<forall>u\<in>set zs. is_ready T u \<longrightarrow> time_slice T u \<le> time_slice T t)"
        using False by auto
      then show ?thesis by blast
    qed
  qed
qed

lemma scan_011_result:
  assumes "dchain (nodes k) p (map (Tag All_list_tag) ts @ [Tail All_list]) None" and "distinct ts"
    and "set ts \<subseteq> dom (tasks k)"
  shows "scan_011 k (hd_or (map (Tag All_list_tag) ts) (Some (Tail All_list))) c nt
    = Some (Inr (pick (tasks k) ts c nt, k\<lparr>tasks := recharge_on (set ts) (tasks k)\<rparr>))"
  using assms
proof (induction ts arbitrary: k p c nt)
  case Nil
  then show ?case by (subst scan_011.simps) (simp add: recharge_on_def)
next
  case (Cons t ts)
  obtain tt where tt: "tasks k t = Some tt" using Cons.prems by auto
  let ?k = "k\<lparr>tasks := (tasks k)(t \<mapsto> recharge tt)\<rparr>"
  have n: "nodes k (Tag All_list_tag t) = Some \<lparr>elem_prev = p,
      elem_next = hd_or (map (Tag All_list_tag) ts) (Some (Tail All_list))\<rparr>"
    using Cons.prems(1) by (cases ts) auto
  have sc: "scan_011 ?k (hd_or (map (Tag All_list_tag) ts) (Some (Tail All_list))) c' nt'
    = Some (Inr (pick (tasks ?k) ts c' nt', ?k\<lparr>tasks := recharge_on (set ts) (tasks ?k)\<rparr>))" for c' nt'
    by (rule Cons.IH) (use Cons.prems in auto)
  have re: "recharge_on (set ts) ((tasks k)(t \<mapsto> recharge tt)) = recharge_on (insert t (set ts)) (tasks k)"
    using tt Cons.prems(2) by (auto simp: recharge_on_def)
  have pk: "pick ((tasks k)(t \<mapsto> recharge tt)) ts c' nt' = pick (tasks k) ts c' nt'" for c' nt'
    by (rule pick_cong) (use Cons.prems(2) in auto)
  have sl: "time_slice (tasks k) t = int (unat (ticks (recharge tt)))" "is_ready (tasks k) t = (status tt = TASK_READY)"
    using tt by (simp_all add: time_slice_def is_ready_def)
  show ?case
    by (subst scan_011.simps) (simp add: tt n sc re pk sl)
qed

lemma get_next_task_011_scan:
  assumes ok: "lists_ok k Q" and a: "Q All_list = Some as"
  shows "get_next_task_011 k =
    (case pick (tasks k) as (-1) None of None \<Rightarrow> Inl Uninit_read
     | Some t \<Rightarrow> bnd (k_remove (k\<lparr>tasks := recharge_on (set as) (tasks k)\<rparr>) General_tag t) (\<lambda>k.
         bnd (upd_task k (Some t) (\<lambda>t. t\<lparr>status := TASK_RUNNING\<rparr>)) (\<lambda>k. Inr (Some t, k))))"
proof -
  have l: "is_list (nodes k) (clist_of All_list) (map (Tag All_list_tag) as)"
    using queues_list [OF lists_ok_queues [OF ok] a] by simp
  then have ch: "dchain (nodes k) (Some (Head All_list)) (map (Tag All_list_tag) as @ [Tail All_list]) None"
    by (simp add: is_list_def clist_of_def)
  have hd: "deref (nodes k) (Some (Head All_list)) =
      Inr \<lparr>elem_prev = None, elem_next = hd_or (map (Tag All_list_tag) as) (Some (Tail All_list))\<rparr>"
    using is_list_head [OF l] by (simp add: clist_of_def)
  have sub: "set as \<subseteq> dom (tasks k)" using lists_ok_memberD [OF ok a] by blast
  have dist: "distinct as" by (rule queues_distinct [OF lists_ok_queues [OF ok] a])
  show ?thesis
    by (simp add: get_next_task_011_def hd scan_011_result [OF ch dist sub] split: option.splits)
qed

section \<open>Searches\<close>

lemma tid2task_result:
  assumes ok: "lists_ok k Q" and a: "Q All_list = Some as"
  shows "tid2task k i = Inr (List.find (\<lambda>t. tid (the (tasks k t)) = i) as)"
proof -
  have l: "is_list (nodes k) (clist_of All_list) (map (Tag All_list_tag) as)"
    using queues_list [OF lists_ok_queues [OF ok] a] by simp
  let ?f = "\<lambda>n. case n of Tag g t \<Rightarrow> tid (the (tasks k t)) = i | _ \<Rightarrow> False"
  have "tid_check k (Some n) i = Inr (?f n)" if n: "n \<in> set (map (Tag All_list_tag) as)" for n
  proof -
    obtain t where t: "n = Tag All_list_tag t" "t \<in> set as" using n by auto
    then show ?thesis using lists_ok_memberD [OF ok a t(2)] by (auto simp: tid_check_def)
  qed
  from list_traversal_spec [OF l, where func = "tid_check k" and arg = i and f = ?f, OF this]
  have "list_traversal (nodes k) (clist_of All_list) (tid_check k) i
      = Inr (List.find ?f (map (Tag All_list_tag) as))" .
  moreover have "List.find ?f (map (Tag All_list_tag) as)
      = map_option (Tag All_list_tag) (List.find (\<lambda>t. tid (the (tasks k t)) = i) as)"
    by (induction as) auto
  ultimately show ?thesis
    by (cases "List.find (\<lambda>t. tid (the (tasks k t)) = i) as") (simp_all add: tid2task_def)
qed

lemma all_finished_from_result:
  assumes "dchain (nodes k) p (map (Tag All_list_tag) ts @ [Tail All_list]) None"
    and "set ts \<subseteq> dom (tasks k)"
  shows "all_finished_from k (hd_or (map (Tag All_list_tag) ts) (Some (Tail All_list)))
    = Some (Inr (\<forall>t\<in>set ts. status (the (tasks k t)) = TASK_DIED))"
  using assms
proof (induction ts arbitrary: p)
  case Nil
  then show ?case by (subst all_finished_from.simps) simp
next
  case (Cons t ts)
  obtain tt where tt: "tasks k t = Some tt" using Cons.prems by auto
  have n: "nodes k (Tag All_list_tag t) = Some \<lparr>elem_prev = p,
      elem_next = hd_or (map (Tag All_list_tag) ts) (Some (Tail All_list))\<rparr>"
    using Cons.prems(1) by (cases ts) auto
  have "all_finished_from k (hd_or (map (Tag All_list_tag) ts) (Some (Tail All_list)))
      = Some (Inr (\<forall>t\<in>set ts. status (the (tasks k t)) = TASK_DIED))"
    by (rule Cons.IH) (use Cons.prems in auto)
  then show ?case by (subst all_finished_from.simps) (simp add: tt n)
qed

lemma all_tasks_finished_result:
  assumes ok: "lists_ok k Q" and a: "Q All_list = Some as"
  shows "all_tasks_finished k = Inr (as = [])"
proof -
  have l: "is_list (nodes k) (clist_of All_list) (map (Tag All_list_tag) as)"
    using queues_list [OF lists_ok_queues [OF ok] a] by simp
  then have ch: "dchain (nodes k) (Some (Head All_list)) (map (Tag All_list_tag) as @ [Tail All_list]) None"
    by (simp add: is_list_def clist_of_def)
  have hd: "deref (nodes k) (Some (Head All_list)) =
      Inr \<lparr>elem_prev = None, elem_next = hd_or (map (Tag All_list_tag) as) (Some (Tail All_list))\<rparr>"
    using is_list_head [OF l] by (simp add: clist_of_def)
  have sub: "set as \<subseteq> dom (tasks k)" using lists_ok_memberD [OF ok a] by blast
  have "(\<forall>t\<in>set as. status (the (tasks k t)) = TASK_DIED) = (as = [])"
    using lists_ok_memberD [OF ok a, of "hd as"] by (cases as) auto
  then show ?thesis by (simp add: all_tasks_finished_def hd all_finished_from_result [OF ch sub])
qed

lemma wait_all_diverges:
  assumes "\<And>i. all_tasks_finished (polled i) = Inr False"
  shows "wait_all_from polled i = None"
proof (rule ccontr)
  assume "wait_all_from polled i \<noteq> None"
  then obtain y where y: "wait_all_from polled i = Some y" by blast
  have "\<exists>j. all_tasks_finished (polled j) \<noteq> Inr False"
  proof (rule wait_all_from.raw_induct [where P = "\<lambda>polled i y. \<exists>j. all_tasks_finished (polled j) \<noteq> Inr False", OF _ y])
    fix f :: "(nat \<Rightarrow> 'a kstate_scheme) \<Rightarrow> nat \<Rightarrow> unit res option" and polled i y
    assume step: "\<And>polled i y. f polled i = Some y \<Longrightarrow> \<exists>j. all_tasks_finished (polled j) \<noteq> Inr False"
      and res: "(case all_tasks_finished (polled i) of Inl e \<Rightarrow> Some (Inl e)
        | Inr fin \<Rightarrow> if fin then Some (Inr ()) else f polled (Suc i)) = Some y"
    show "\<exists>j. all_tasks_finished (polled j) \<noteq> Inr False"
    proof (cases "all_tasks_finished (polled i) = Inr False")
      case True
      with res have "f polled (Suc i) = Some y" by simp
      then show ?thesis by (rule step)
    qed blast
  qed
  with assms show False by simp
qed

section \<open>Properties\<close>

text \<open>
  C24. The Linux-0.11 style choice: on a scheduler state in which the ready tasks are exactly
  the members of the ready queue and there is one, it returns normally and takes the first task,
  in the order of the list of all tasks, with the largest time slice among the ready ones; that
  task leaves the ready queue and becomes running, and the time slices of the waiting and of the
  cooperative tasks have been recharged to half of what was left plus the priority.
\<close>

theorem get_next_task_011_spec:
  assumes ok: "lists_ok k Q" and a: "Q All_list = Some as" and rs: "Q Ready_list = Some rs"
    and rdy: "\<And>t. t \<in> set as \<Longrightarrow> is_ready (tasks k) t \<longleftrightarrow> t \<in> set rs" and ne: "rs \<noteq> []"
  shows "\<exists>t ys zs k'. get_next_task_011 k = Inr (Some t, k') \<and> as = ys @ t # zs \<and> t \<in> set rs
    \<and> (\<forall>u\<in>set ys \<inter> set rs. time_slice (tasks k) u < time_slice (tasks k) t)
    \<and> (\<forall>u\<in>set zs \<inter> set rs. time_slice (tasks k) u \<le> time_slice (tasks k) t)
    \<and> queues (nodes k') (Q(Ready_list \<mapsto> remove1 t rs))
    \<and> tasks k' = (recharge_on (set as) (tasks k))(t \<mapsto> (recharge (the (tasks k t)))\<lparr>status := TASK_RUNNING\<rparr>)"
proof -
  note q = lists_ok_queues [OF ok]
  have sub: "set rs \<subseteq> set as" using lists_ok_known [OF ok rs] a by auto
  then obtain r where r: "r \<in> set as" "is_ready (tasks k) r" using ne rdy by (cases rs) auto
  have "time_slice (tasks k) r \<ge> 0" by (simp add: time_slice_def)
  with r have no: "\<not> (\<forall>u\<in>set as. is_ready (tasks k) u \<longrightarrow> time_slice (tasks k) u \<le> -1)" by force
  obtain ys t zs where t: "pick (tasks k) as (-1) None = Some t" "as = ys @ t # zs" "is_ready (tasks k) t"
    "\<forall>u\<in>set ys. is_ready (tasks k) u \<longrightarrow> time_slice (tasks k) u < time_slice (tasks k) t"
    "\<forall>u\<in>set zs. is_ready (tasks k) u \<longrightarrow> time_slice (tasks k) u \<le> time_slice (tasks k) t"
    using pick_cases [of "tasks k" as "-1" None] no by blast
  have tr: "t \<in> set rs" using t(2,3) rdy by simp
  obtain us vs where uv: "rs = us @ t # vs" "t \<notin> set us" using split_list_first [OF tr] by blast
  have rem: "remove1 t rs = us @ vs" using uv by (simp add: remove1_append)
  let ?k = "k\<lparr>tasks := recharge_on (set as) (tasks k)\<rparr>"
  obtain h where h: "k_remove ?k (tag_of Ready_list) t = Inr (?k\<lparr>nodes := h\<rparr>)"
    "queues h (Q(Ready_list \<mapsto> us @ vs))"
    by (rule k_remove_spec [of ?k Q Ready_list us t vs]) (use q rs uv(1) in auto)
  obtain tt where tt: "tasks k t = Some tt" using lists_ok_memberD [OF ok rs tr] by blast
  have T: "tasks ?k t = Some (recharge tt)" using tt t(2) by (simp add: recharge_on_def)
  have res: "get_next_task_011 k = Inr (Some t, ?k\<lparr>nodes := h,
      tasks := (tasks ?k)(t \<mapsto> (recharge tt)\<lparr>status := TASK_RUNNING\<rparr>)\<rparr>)"
    using get_next_task_011_scan [OF ok a] t(1) h(1) T by simp
  show ?thesis
    by (intro exI conjI, rule res, rule t(2), rule tr)
      (use t(2,4,5) rdy h(2) tt rem in \<open>auto simp del: fun_upd_apply\<close>)
qed

theorem get_next_task_011_spec_witness:
  "\<exists>k'. get_next_task_011 demo3 = Inr (Some 2, k') \<and> queues (nodes k') (demo3_queues(Ready_list \<mapsto> [1]))"
proof -
  have ok: "lists_ok demo3 demo3_queues" using demo3_inv by (simp add: sched_inv_def)
  have T: "time_slice (tasks demo3) 1 = 1" "time_slice (tasks demo3) 2 = 2"
    "is_ready (tasks demo3) 0 = False" "is_ready (tasks demo3) 1" "is_ready (tasks demo3) 2"
    by (simp_all add: time_slice_def is_ready_def recharge_def demo_task_def task_zero_def)
  have prem: "is_ready (tasks demo3) t \<longleftrightarrow> t \<in> set [1, 2]" if "t \<in> set [0, 1, 2]" for t
    using that T by auto
  obtain t ys zs k' where t: "get_next_task_011 demo3 = Inr (Some t, k')" "[0, 1, 2] = ys @ t # zs"
    "t \<in> set [1, 2]" "\<forall>u\<in>set zs \<inter> set [1, 2]. time_slice (tasks demo3) u \<le> time_slice (tasks demo3) t"
    "queues (nodes k') (demo3_queues(Ready_list \<mapsto> remove1 t [1, 2]))"
    using get_next_task_011_spec [OF ok demo3_simps(3,2) prem] by blast
  have "t \<noteq> 1"
  proof
    assume t1: "t = 1"
    with t(2) have "zs = [2]" by (auto simp: Cons_eq_append_conv)
    with t(4) T t1 show False by simp
  qed
  with t show ?thesis by auto
qed

text \<open>
  With no ready task the choice reads its uninitialised local \<open>next_task\<close>.
\<close>

lemma get_next_task_011_none_ready:
  assumes "lists_ok k Q" and "Q All_list = Some as" and "\<And>t. t \<in> set as \<Longrightarrow> \<not> is_ready (tasks k) t"
  shows "get_next_task_011 k = Inl Uninit_read"
proof -
  have "pick (tasks k) as (-1) None = None"
    using pick_cases [of "tasks k" as "-1" None] assms(3) by auto
  then show ?thesis using get_next_task_011_scan [OF assms(1,2)] by simp
qed

text \<open>
  The search by task number returns the first task of the list of all tasks that carries
  the number, and NULL exactly when no listed task does.
\<close>

lemma tid2task_spec:
  assumes "lists_ok k Q" and "Q All_list = Some as"
  shows "\<exists>r. tid2task k i = Inr r \<and>
    (case r of None \<Rightarrow> (\<forall>t\<in>set as. tid (the (tasks k t)) \<noteq> i)
     | Some t \<Rightarrow> \<exists>ys zs. as = ys @ t # zs \<and> tid (the (tasks k t)) = i
         \<and> (\<forall>u\<in>set ys. tid (the (tasks k u)) \<noteq> i))"
proof (cases "List.find (\<lambda>t. tid (the (tasks k t)) = i) as")
  case None
  then have "\<forall>t\<in>set as. tid (the (tasks k t)) \<noteq> i" by (simp add: find_None_iff)
  then show ?thesis using tid2task_result [OF assms, of i] None by simp
next
  case (Some t)
  then obtain n where n: "n < length as" "tid (the (tasks k (as ! n))) = i" "t = as ! n"
    "\<forall>j<n. tid (the (tasks k (as ! j))) \<noteq> i"
    by (auto simp: find_Some_iff)
  have "as = take n as @ t # drop (Suc n) as" using n(1,3) by (simp add: id_take_nth_drop)
  moreover have "\<forall>u\<in>set (take n as). tid (the (tasks k u)) \<noteq> i"
  proof
    fix u assume "u \<in> set (take n as)"
    then obtain j where "j < n" "u = as ! j" using n(1) by (auto simp: in_set_conv_nth)
    with n(4) show "tid (the (tasks k u)) \<noteq> i" by blast
  qed
  ultimately show ?thesis using tid2task_result [OF assms, of i] Some n(2,3) by auto
qed

text \<open>
  \<open>task_wait_all\<close> cannot return to a task that is itself on the list of all tasks: if at every
  poll the scheduler's invariant holds, the running caller is listed, so some listed task has not
  died and every poll is negative.
\<close>

lemma wait_never_returns:
  assumes "\<And>i. \<exists>Q. sched_inv (polled i) Q"
  shows "task_wait_all polled = Inl No_return"
proof -
  have "all_tasks_finished (polled i) = Inr False" for i
  proof -
    obtain Q where inv: "sched_inv (polled i) Q" using assms by blast
    then obtain c as where ok: "lists_ok (polled i) Q" and a: "Q All_list = Some as" "c \<in> set as"
      by (elim sched_invE)
    then show ?thesis using all_tasks_finished_result [OF ok a(1)] by auto
  qed
  then show ?thesis by (simp add: task_wait_all_def wait_all_diverges)
qed

end
