(* ===== verification/SyncInv.thy ===== *)
theory SyncInv
  imports Demo
begin

text \<open>
  Semaphores and locks on states that satisfy the scheduler's invariant: what each call does on
  each of its branches, and that the invariant survives it.
\<close>

lemma upd_lock_fields [simp]:
  "nodes (upd_lock k l f) = nodes k" "tasks (upd_lock k l f) = tasks k"
  "current_task (upd_lock k l f) = current_task k" "sigmask (upd_lock k l f) = sigmask k"
  "regs (upd_lock k l f) = regs k" "main_task (upd_lock k l f) = main_task k"
  "tid_bitmap (upd_lock k l f) = tid_bitmap k" "tid_start (upd_lock k l f) = tid_start k"
  "task_all_nums (upd_lock k l f) = task_all_nums k"
  by (simp_all add: upd_lock_def)

lemma locks_upd_lock [simp]:
  "locks (upd_lock k l f) m = (if m = l then f (locks k l) else locks k m)"
  by (simp add: upd_lock_def)

lemma set_value_fields [simp]:
  "sema_value (semaphore (set_value v x)) = v" "holder (set_value v x) = holder x"
  "holder_repeat_nr (set_value v x) = holder_repeat_nr x"
  by (simp_all add: set_value_def)

lemma sema_val_simps [simp]:
  "sema_val (upd_lock k l (set_value v)) m = (if m = l then v else sema_val k m)"
  "sema_val (upd_lock k l (\<lambda>x. x\<lparr>holder := p\<rparr>)) m = sema_val k m"
  "sema_val (upd_lock k l (\<lambda>x. x\<lparr>holder_repeat_nr := f x\<rparr>)) m = sema_val k m"
  "sema_val (interrupt_enable k) m = sema_val k m" "sema_val (interrupt_disable k) m = sema_val k m"
  "sema_val (k\<lparr>nodes := h\<rparr>) m = sema_val k m"
  by (simp_all add: sema_val_def)

lemma irq_on_upd_lock [simp]: "irq_on (upd_lock k l f) = irq_on k"
  by (simp add: irq_on_def)

lemma sched_inv_upd_lock [simp]:
  "sched_inv (upd_lock k l f) Q = sched_inv k Q" "lists_ok (upd_lock k l f) Q = lists_ok k Q"
  by (intro sched_inv_cong lists_ok_cong; simp)+

section \<open>Waiting\<close>

text \<open>The running task queues itself on a waiting list and marks itself blocked.\<close>

lemma enqueue_waiter:
  assumes inv: "sched_inv k Q" and c: "current_task k = Some c" and tc: "tasks k c = Some tc"
    and w: "Q (Waiters l) = Some ws"
  obtains h where "k_append k (Waiters l) c = Inr (k\<lparr>nodes := h\<rparr>)"
    and "lists_ok (k\<lparr>nodes := h, tasks := (tasks k)(c \<mapsto> tc\<lparr>status := TASK_BLOCKED\<rparr>)\<rparr>)
           (Q(Waiters l \<mapsto> ws @ [c]))"
proof -
  have ok: "lists_ok k Q" and u: "unqueued Q General_tag c" and st: "status tc = TASK_RUNNING"
    and a: "c \<in> set (the (Q All_list))"
    using inv c tc by (auto elim!: sched_invE)
  note q = lists_ok_queues [OF ok]
  obtain h where h: "k_append k (Waiters l) c = Inr (k\<lparr>nodes := h\<rparr>)"
    "queues h (Q(Waiters l \<mapsto> ws @ [c]))" "dom h = dom (nodes k)"
    by (rule k_append_spec [OF q w]) (use u lists_ok_tag [OF ok tc] in auto)
  let ?k = "k\<lparr>nodes := h, tasks := (tasks k)(c \<mapsto> tc\<lparr>status := TASK_BLOCKED\<rparr>)\<rparr>"
  have "lists_ok ?k (Q(Waiters l \<mapsto> ws @ [c]))"
  proof (rule lists_ok_step [OF ok])
    fix M xs t assume M: "(Q(Waiters l \<mapsto> ws @ [c])) M = Some xs" and t: "t \<in> set xs"
    show "\<exists>ts. tasks ?k t = Some ts \<and> list_status M (status ts)"
    proof (cases "t = c")
      case True
      have "list_status M TASK_BLOCKED"
      proof (cases M)
        case Ready_list
        then show ?thesis using unqueuedD [OF u, of M xs] M t True by simp
      next
        case Pool_list
        then show ?thesis using lists_ok_not_in [OF ok tc, of M xs] M t True st by simp
      qed simp_all
      with True show ?thesis by simp
    next
      case False
      obtain ys where "Q M = Some ys" "t \<in> set ys" using M t w False by (cases "M = Waiters l") auto
      then show ?thesis using lists_ok_memberD [OF ok] False by simp
    qed
  next
    fix M xs t assume "(Q(Waiters l \<mapsto> ws @ [c])) M = Some xs" "tag_of M = General_tag" "t \<in> set xs"
    then show "t \<in> set (the (Q All_list))"
      using lists_ok_known [OF ok w, of t] lists_ok_known [OF ok, of M xs t] a
      by (cases "M = Waiters l") auto
  qed (use h tc ok in \<open>auto simp: lists_ok_def\<close>)
  with h(1) show ?thesis by (rule that)
qed

lemma sema_down_loop_wait:
  assumes inv: "sched_inv k Q" and c: "current_task k = Some c" and w: "Q (Waiters l) = Some ws"
    and rs: "Q Ready_list = Some (n # rs)" and v: "sema_val k l = 0"
  obtains k' where "sema_down_loop k l = Inr (Switched, k')"
    and "sched_inv k' (Q(Waiters l \<mapsto> ws @ [c], Ready_list \<mapsto> rs))" and "current_task k' = Some n"
    and "locks k' = locks k" and "sigmask k' = sigmask k" and "status (the (tasks k' c)) = TASK_BLOCKED"
proof -
  obtain tc where tc: "tasks k c = Some tc" and ok: "lists_ok k Q" and u: "unqueued Q General_tag c"
    and st: "status tc = TASK_RUNNING"
    using inv c by (auto elim!: sched_invE)
  note q = lists_ok_queues [OF ok]
  obtain h where h: "k_append k (Waiters l) c = Inr (k\<lparr>nodes := h\<rparr>)"
    "lists_ok (k\<lparr>nodes := h, tasks := (tasks k)(c \<mapsto> tc\<lparr>status := TASK_BLOCKED\<rparr>)\<rparr>)
       (Q(Waiters l \<mapsto> ws @ [c]))" (is "lists_ok ?k ?Q")
    by (rule enqueue_waiter [OF inv c tc w])
  have f: "k_find k (Waiters l) c = Inr False"
    using k_find_spec [OF q w, of c] unqueuedD [OF u w] by simp
  have rs': "?Q Ready_list = Some (n # rs)" using rs by simp
  have nc: "n \<noteq> c" using lists_ok_memberD [OF ok rs, of n] tc st by auto
  let ?tc = "tc\<lparr>status := TASK_BLOCKED\<rparr>"
  obtain k' tn where k': "block_task_schedule ?k = Inr k'" "sched_inv k' (?Q(Ready_list \<mapsto> rs))"
    "current_task k' = Some n" "locks k' = locks ?k" "sigmask k' = sigmask ?k"
    "tasks k' = (tasks ?k)(n \<mapsto> resumed tn, c \<mapsto> ?tc\<lparr>task_context := gprs_from (regs ?k) (task_context ?tc)\<rparr>)"
    by (rule block_task_schedule_inv [OF h(2) rs', of c ?tc])
      (use c in \<open>simp_all del: fun_upd_apply add: fun_upd_same\<close>)
  have "sema_down_loop k l = Inr (Switched, k')"
    using v c f h(1) tc k'(1)
    by (simp add: sema_down_loop_def running_def task_block_def blocking_status_def)
  with k' show ?thesis by (intro that [of k']) simp_all
qed

lemma sema_down_loop_take:
  assumes "sema_val k l = 1"
  shows "sema_down_loop k l = Inr (Returned (), interrupt_enable (upd_lock k l (set_value 0)))"
  using assms by (simp add: sema_down_loop_def Let_def)

section \<open>Waking\<close>

lemma sema_up_wake_none:
  assumes inv: "sched_inv k Q" and w: "Q (Waiters l) = Some []" and v: "sema_val k l = 0"
  shows "sema_up_wake k l = Inr (interrupt_disable k)"
  using k_empty_spec [of "interrupt_disable k" Q "Waiters l" "[]"] assms
  by (simp add: sema_up_wake_def Let_def sched_inv_def lists_ok_def)

lemma sema_up_wake_one:
  assumes inv: "sched_inv k Q" and w: "Q (Waiters l) = Some (t # ws)" and rs: "Q Ready_list = Some rs"
    and v: "sema_val k l = 0"
  obtains k' where "sema_up_wake k l = Inr k'"
    and "sched_inv k' (Q(Waiters l \<mapsto> ws, Ready_list \<mapsto> t # rs))" and "irq_on k'"
    and "current_task k' = current_task k" and "locks k' = locks k"
    and "status (the (tasks k' t)) = TASK_READY" and "regs k' = regs k"
proof -
  obtain c where c: "runs k Q c" and ok: "lists_ok k Q" using inv by (auto simp: sched_inv_def)
  note q = lists_ok_queues [OF ok]
  obtain tt where tt: "tasks k t = Some tt" "status tt = TASK_BLOCKED"
    using lists_ok_memberD [OF ok w, of t] by auto
  let ?k = "interrupt_disable k"
  obtain h where h: "k_pop ?k (Waiters l) = Inr (Some t, ?k\<lparr>nodes := h\<rparr>)"
    "queues h (Q(Waiters l \<mapsto> ws))" "dom h = dom (nodes k)"
    using k_pop_spec [of ?k Q "Waiters l" t ws] q w by auto
  have dist: "distinct (t # ws)" by (rule queues_distinct [OF q w])
  let ?k1 = "?k\<lparr>nodes := h\<rparr>" and ?Q = "Q(Waiters l \<mapsto> ws)"
  have ok1: "lists_ok ?k1 ?Q"
  proof (rule lists_ok_step [OF ok])
    fix M xs s assume M: "?Q M = Some xs" and s: "s \<in> set xs"
    obtain ys where "Q M = Some ys" "s \<in> set ys" using M s w by (cases "M = Waiters l") auto
    then show "\<exists>ts. tasks ?k1 s = Some ts \<and> list_status M (status ts)"
      using lists_ok_memberD [OF ok] by simp
  next
    fix M xs s assume "?Q M = Some xs" "tag_of M = General_tag" "s \<in> set xs"
    then show "s \<in> set (the (Q All_list))"
      using lists_ok_known [OF ok w, of s] lists_ok_known [OF ok, of M xs s]
      by (cases "M = Waiters l") auto
  qed (use h ok in \<open>auto simp: lists_ok_def\<close>)
  have uq: "unqueued ?Q General_tag t"
    unfolding unqueued_def
  proof (intro allI impI)
    fix M xs assume M: "?Q M = Some xs \<and> tag_of M = General_tag"
    show "t \<notin> set xs"
    proof (cases "M = Waiters l")
      case True
      with M dist show ?thesis by simp
    next
      case False
      with M queues_disjoint [OF q w, of M xs] show ?thesis by auto
    qed
  qed
  have "runs ?k1 ?Q c"
    using c current_unqueued [OF ok1, of c] by (auto simp: runs_def)
  then have inv1: "sched_inv ?k1 ?Q" using ok1 unfolding sched_inv_def by blast
  have al: "t \<in> set (the (?Q All_list))" using lists_ok_known [OF ok w, of t] by simp
  obtain k' where k': "task_unblock ?k1 (Some t) = Inr k'" "sched_inv k' (?Q(Ready_list \<mapsto> t # rs))"
    "tasks k' = (tasks ?k1)(t \<mapsto> tt\<lparr>status := TASK_READY\<rparr>)" "irq_on k'"
    "current_task k' = current_task ?k1" "locks k' = locks ?k1" "regs k' = regs ?k1"
    by (rule task_unblock_inv [OF inv1 _ _ uq al, of tt rs]) (use tt rs in \<open>auto simp: blocking_status_def\<close>)
  have "sema_up_wake k l = Inr k'"
    using h(1) k'(1) v k_empty_spec [of ?k Q "Waiters l" "t # ws"] q w
    by (simp add: sema_up_wake_def Let_def)
  with k' show ?thesis by (intro that [of k']) simp_all
qed

lemma sema_up_post_one:
  assumes "sema_val k l = 0"
  shows "sema_up_post k l = Inr (interrupt_enable (upd_lock k l (set_value 1)))"
  using assms by (simp add: sema_up_post_def Let_def)

lemma sema_val_locks: "locks k' = locks k \<Longrightarrow> sema_val k' l = sema_val k l"
  by (simp add: sema_val_def)

lemma sema_up_inv:
  assumes inv: "sched_inv k Q" and w: "Q (Waiters l) = Some ws" and rs: "Q Ready_list = Some rs"
    and v: "sema_val k l = 0"
  obtains k' where "sema_up k l = Inr k'"
    and "sched_inv k' (Q(Waiters l \<mapsto> tl ws, Ready_list \<mapsto> take 1 ws @ rs))"
    and "current_task k' = current_task k" and "locks k' = (locks k)(l := set_value 1 (locks k l))"
    and "irq_on k'"
proof (cases ws)
  case Nil
  let ?k = "interrupt_enable (upd_lock (interrupt_disable k) l (set_value 1))"
  have Q: "Q(Waiters l \<mapsto> tl ws, Ready_list \<mapsto> take 1 ws @ rs) = Q"
    using Nil w rs by (auto simp: fun_eq_iff)
  show ?thesis
    by (rule that [of ?k], unfold Q)
      (use sema_up_wake_none [OF inv, of l] w v inv Nil
        sema_up_post_one [of "interrupt_disable k" l] in
        \<open>simp_all add: sema_up_def, simp add: upd_lock_def\<close>)
next
  case (Cons t ws')
  with w have w': "Q (Waiters l) = Some (t # ws')" by simp
  obtain k1 where k1: "sema_up_wake k l = Inr k1"
    "sched_inv k1 (Q(Waiters l \<mapsto> ws', Ready_list \<mapsto> t # rs))" "irq_on k1"
    "current_task k1 = current_task k" "locks k1 = locks k"
    by (rule sema_up_wake_one [OF inv w' rs v])
  have v1: "sema_val k1 l = 0" using sema_val_locks [OF k1(5)] v by simp
  show ?thesis
    by (rule that [of "interrupt_enable (upd_lock k1 l (set_value 1))"])
      (use k1 sema_up_post_one [OF v1] Cons in \<open>simp_all add: sema_up_def, simp add: upd_lock_def\<close>)
qed

section \<open>Properties\<close>

text \<open>A lock at rest: free with the semaphore at one, or held with the semaphore at zero.\<close>

definition lock_free :: "lock \<Rightarrow> bool" where
  "lock_free x \<longleftrightarrow> holder x = None \<and> sema_value (semaphore x) = 1 \<and> holder_repeat_nr x = 0"

definition lock_held :: "lock \<Rightarrow> task \<Rightarrow> bool" where
  "lock_held x t \<longleftrightarrow> holder x = Some t \<and> sema_value (semaphore x) = 0"

lemma lock_acquire_free:
  assumes inv: "sched_inv k Q" and c: "current_task k = Some c" and f: "lock_free (locks k l)"
  shows "lock_acquire k l = Inr (Returned (), upd_lock (upd_lock (interrupt_enable
      (upd_lock (interrupt_disable k) l (set_value 0))) l (\<lambda>x. x\<lparr>holder := Some c\<rparr>))
      l (\<lambda>x. x\<lparr>holder_repeat_nr := 1\<rparr>))"
proof -
  have "sema_val (interrupt_disable k) l = 1" using f by (simp add: lock_free_def sema_val_def)
  from sema_down_loop_take [OF this] show ?thesis
    using c f by (simp add: lock_acquire_def sema_down_def lock_acquired_def Let_def lock_free_def)
qed

text \<open>What a lock's fields say of each other outside the lock functions.\<close>

definition lock_ok :: "lock \<Rightarrow> bool" where
  "lock_ok x \<longleftrightarrow> (case holder x of None \<Rightarrow> lock_free x | Some t \<Rightarrow> lock_held x t)"

text \<open>
  C14. \<open>lock_acquire\<close> on each of its branches. A free lock is taken: the caller becomes its
  holder at depth one with interrupts on. A lock the caller holds is taken once more. A lock held
  by another task makes the caller wait: it is queued last on the lock's waiting list as a
  blocked task, the head of the ready queue runs (with the signal still blocked: the mask is not
  part of a task's context), the lock is unchanged and the scheduler's invariant holds.
\<close>

theorem lock_acquire_spec:
  assumes inv: "sched_inv k Q" and c: "current_task k = Some c" and w: "Q (Waiters l) = Some ws"
    and rs: "Q Ready_list = Some (n # rs)" and lk: "lock_ok (locks k l)"
  shows "\<exists>fl k'. lock_acquire k l = Inr (fl, k') \<and>
    (case holder (locks k l) of
       None \<Rightarrow> fl = Returned () \<and> irq_on k' \<and> sched_inv k' Q \<and> lock_held (locks k' l) c
         \<and> holder_repeat_nr (locks k' l) = 1
     | Some t \<Rightarrow>
         (if t = c then fl = Returned () \<and> sched_inv k' Q \<and> lock_held (locks k' l) c
            \<and> holder_repeat_nr (locks k' l) = holder_repeat_nr (locks k l) + 1
          else fl = Switched \<and> current_task k' = Some n
            \<and> sched_inv k' (Q(Waiters l \<mapsto> ws @ [c], Ready_list \<mapsto> rs))
            \<and> status (the (tasks k' c)) = TASK_BLOCKED \<and> locks k' = locks k \<and> \<not> irq_on k'))"
proof (cases "holder (locks k l)")
  case None
  then have f: "lock_free (locks k l)" using lk by (simp add: lock_ok_def)
  show ?thesis using lock_acquire_free [OF inv c f] inv None by (simp add: lock_held_def)
next
  case (Some t)
  then have h: "lock_held (locks k l) t" using lk by (simp add: lock_ok_def)
  show ?thesis
  proof (cases "t = c")
    case True
    then show ?thesis using h Some c inv by (simp add: lock_acquire_def lock_held_def)
  next
    case False
    let ?k = "interrupt_disable k"
    have v: "sema_val ?k l = 0" using h by (simp add: lock_held_def sema_val_def)
    obtain k' where k': "sema_down_loop ?k l = Inr (Switched, k')"
      "sched_inv k' (Q(Waiters l \<mapsto> ws @ [c], Ready_list \<mapsto> rs))" "current_task k' = Some n"
      "locks k' = locks ?k" "sigmask k' = sigmask ?k" "status (the (tasks k' c)) = TASK_BLOCKED"
      by (rule sema_down_loop_wait [of ?k Q c l ws n rs]) (use inv c w rs v in simp_all)
    have "irq_on k' = irq_on ?k" using k'(5) by (simp add: irq_on_def)
    then show ?thesis
      using k' h False c Some by (simp add: lock_acquire_def sema_down_def lock_held_def)
  qed
qed

theorem lock_acquire_spec_witness:
  "\<exists>k'. lock_acquire demo3 (User_lock 0) = Inr (Returned (), k') \<and> lock_held (locks k' (User_lock 0)) 0"
  using lock_acquire_spec [OF demo3_inv, of 0 "User_lock 0" "[]" 1 "[2]"]
  by (auto simp: lock_ok_def lock_free_def demo_lock_def)

text \<open>
  C15. \<open>lock_release\<close> on each of its branches. A caller that does not hold the lock spins in
  \<open>assert\<close>. A holder at depth above one only lowers the depth. At depth one the lock becomes
  free, the task waiting longest (if any) is moved from the lock's waiting list to the front of
  the ready queue, the caller keeps running, interrupts are on and the invariant holds.
\<close>

theorem lock_release_spec:
  assumes inv: "sched_inv k Q" and c: "current_task k = Some c" and w: "Q (Waiters l) = Some ws"
    and rs: "Q Ready_list = Some rs" and lk: "lock_ok (locks k l)"
  shows "if holder (locks k l) \<noteq> Some c \<or> holder_repeat_nr (locks k l) = 0
    then lock_release k l = Inl Assert_spin
    else if holder_repeat_nr (locks k l) = 1
    then \<exists>k'. lock_release k l = Inr k' \<and> lock_free (locks k' l) \<and> current_task k' = Some c \<and> irq_on k'
        \<and> sched_inv k' (Q(Waiters l \<mapsto> tl ws, Ready_list \<mapsto> take 1 ws @ rs))
    else \<exists>k'. lock_release k l = Inr k' \<and> sched_inv k' Q \<and> lock_held (locks k' l) c
        \<and> holder_repeat_nr (locks k' l) = holder_repeat_nr (locks k l) - 1"
proof -
  consider "holder (locks k l) \<noteq> Some c \<or> holder_repeat_nr (locks k l) = 0"
    | "holder (locks k l) = Some c" "holder_repeat_nr (locks k l) = 1"
    | "holder (locks k l) = Some c" "1 < holder_repeat_nr (locks k l)"
    by (metis linorder_neqE word_less_1)
  then show ?thesis
  proof cases
    case 1
    then show ?thesis
      using c by (cases "holder (locks k l) = Some c") (simp_all add: lock_release_def)
  next
    case 2
    let ?k = "upd_lock (upd_lock k l (\<lambda>x. x\<lparr>holder := None\<rparr>)) l (\<lambda>x. x\<lparr>holder_repeat_nr := 0\<rparr>)"
    have v: "sema_val ?k l = 0" using lk 2 by (simp add: lock_ok_def lock_held_def sema_val_def)
    obtain k' where k': "sema_up ?k l = Inr k'"
      "sched_inv k' (Q(Waiters l \<mapsto> tl ws, Ready_list \<mapsto> take 1 ws @ rs))"
      "current_task k' = current_task ?k" "locks k' = (locks ?k)(l := set_value 1 (locks ?k l))" "irq_on k'"
      by (rule sema_up_inv [of ?k Q l ws rs]) (use inv w rs v in simp_all)
    then show ?thesis using 2 c by (simp add: lock_release_def lock_free_def Let_def)
  next
    case 3
    then show ?thesis using c inv lk by (auto simp: lock_release_def lock_held_def lock_ok_def)
  qed
qed

theorem lock_release_spec_witness: "lock_release demo3 (User_lock 0) = Inl Assert_spin"
  using lock_release_spec [OF demo3_inv, of 0 "User_lock 0" "[]" "[1, 2]"]
  by (simp add: demo_lock_def lock_ok_def lock_free_def)

text \<open>\<open>n\<close> nested acquisitions, and as many releases.\<close>

fun acquire_n :: "nat \<Rightarrow> lock_id \<Rightarrow> 'a kstate_scheme \<Rightarrow> (unit flow \<times> 'a kstate_scheme) res" where
  "acquire_n 0 l k = Inr (Returned (), k)"
| "acquire_n (Suc n) l k = bnd (lock_acquire k l) (\<lambda>(fl, k).
     (case fl of Switched \<Rightarrow> Inr (Switched, k) | Returned _ \<Rightarrow> acquire_n n l k))"

fun release_n :: "nat \<Rightarrow> lock_id \<Rightarrow> 'a kstate_scheme \<Rightarrow> 'a kstate_scheme res" where
  "release_n 0 l k = Inr k"
| "release_n (Suc n) l k = bnd (lock_release k l) (\<lambda>k. release_n n l k)"

lemma acquire_n_held:
  assumes "holder (locks k l) = current_task k"
  shows "acquire_n n l k = Inr (Returned (),
    upd_lock k l (\<lambda>x. x\<lparr>holder_repeat_nr := holder_repeat_nr x + of_nat n\<rparr>))"
  using assms
proof (induction n arbitrary: k)
  case 0
  then show ?case by (simp add: upd_lock_def)
next
  case (Suc n)
  let ?k = "upd_lock k l (\<lambda>x. x\<lparr>holder_repeat_nr := holder_repeat_nr x + 1\<rparr>)"
  have "acquire_n n l ?k = Inr (Returned (),
      upd_lock ?k l (\<lambda>x. x\<lparr>holder_repeat_nr := holder_repeat_nr x + of_nat n\<rparr>))"
    using Suc by simp
  with Suc.prems show ?case by (simp add: lock_acquire_def upd_lock_def algebra_simps)
qed

lemma release_n_held:
  assumes "holder (locks k l) = current_task k" and "n < unat (holder_repeat_nr (locks k l))"
  shows "release_n n l k = Inr (upd_lock k l (\<lambda>x. x\<lparr>holder_repeat_nr := holder_repeat_nr x - of_nat n\<rparr>))"
  using assms
proof (induction n arbitrary: k)
  case 0
  then show ?case by (simp add: upd_lock_def)
next
  case (Suc n)
  let ?k = "upd_lock k l (\<lambda>x. x\<lparr>holder_repeat_nr := holder_repeat_nr x - 1\<rparr>)"
  have g: "1 < holder_repeat_nr (locks k l)" using Suc.prems(2) by (simp add: word_less_nat_alt)
  then have "0 < holder_repeat_nr (locks k l)" by (simp add: word_less_nat_alt)
  then have "n < unat (holder_repeat_nr (locks ?k l))"
    using Suc.prems(2) by (simp add: unat_minus_one_pos)
  with Suc have "release_n n l ?k =
      Inr (upd_lock ?k l (\<lambda>x. x\<lparr>holder_repeat_nr := holder_repeat_nr x - of_nat n\<rparr>))"
    by simp
  with Suc.prems(1) g show ?case by (simp add: lock_release_def upd_lock_def algebra_simps)
qed

text \<open>
  The lock is recursive: a task that takes a free lock \<open>n + 1\<close> times (fewer than \<open>2^32\<close>)
  still holds it after \<open>n\<close> releases, and the last release leaves the lock as it was at first,
  with the caller running and the invariant kept.
\<close>

lemma lock_recursion:
  assumes inv: "sched_inv k Q" and c: "current_task k = Some c" and f: "lock_free (locks k l)"
    and w: "Q (Waiters l) = Some []" and rs: "Q Ready_list = Some rs" and n: "Suc n < 2 ^ 32"
  shows "\<exists>k1 k2 k3. acquire_n (Suc n) l k = Inr (Returned (), k1) \<and> release_n n l k1 = Inr k2
    \<and> lock_held (locks k2 l) c \<and> lock_release k2 l = Inr k3 \<and> locks k3 l = locks k l
    \<and> current_task k3 = Some c \<and> sched_inv k3 Q"
proof -
  let ?k0 = "upd_lock (upd_lock (interrupt_enable (upd_lock (interrupt_disable k) l (set_value 0)))
      l (\<lambda>x. x\<lparr>holder := Some c\<rparr>)) l (\<lambda>x. x\<lparr>holder_repeat_nr := 1\<rparr>)"
  let ?k1 = "upd_lock ?k0 l (\<lambda>x. x\<lparr>holder_repeat_nr := holder_repeat_nr x + of_nat n\<rparr>)"
  let ?k2 = "upd_lock ?k1 l (\<lambda>x. x\<lparr>holder_repeat_nr := holder_repeat_nr x - of_nat n\<rparr>)"
  have a: "acquire_n (Suc n) l k = Inr (Returned (), ?k1)"
    using lock_acquire_free [OF inv c f] acquire_n_held [of ?k0 l n] c by simp
  have "unat (1 + of_nat n :: 32 word) = Suc n" using n unat_of_nat_small [of "Suc n", where 'a = 32] by simp
  then have r: "release_n n l ?k1 = Inr ?k2"
    using release_n_held [of ?k1 l n] c by simp
  have inv2: "sched_inv ?k2 Q" using inv by simp
  let ?k3 = "upd_lock (upd_lock ?k2 l (\<lambda>x. x\<lparr>holder := None\<rparr>)) l (\<lambda>x. x\<lparr>holder_repeat_nr := 0\<rparr>)"
  have v: "sema_val ?k3 l = 0" by (simp add: sema_val_def)
  obtain k3 where k3: "sema_up ?k3 l = Inr k3"
    "sched_inv k3 (Q(Waiters l \<mapsto> tl [], Ready_list \<mapsto> take 1 [] @ rs))"
    "current_task k3 = current_task ?k3" "locks k3 = (locks ?k3)(l := set_value 1 (locks ?k3 l))"
    by (rule sema_up_inv [of ?k3 Q l "[]" rs]) (use inv w rs v in simp_all)
  have "Q(Waiters l \<mapsto> [], Ready_list \<mapsto> rs) = Q" using w rs by (auto simp: fun_eq_iff)
  with k3(2) have "sched_inv k3 Q" by (simp del: fun_upd_apply)
  moreover have "lock_release ?k2 l = Inr k3" using k3(1) c by (simp add: lock_release_def Let_def)
  moreover have "locks k3 l = locks k l" using k3(4) f by (cases "locks k l") (simp add: lock_free_def set_value_def)
  moreover have "lock_held (locks ?k2 l) c" by (simp add: lock_held_def)
  ultimately show ?thesis using a r k3(3) c by (intro exI [of _ ?k1] exI [of _ ?k2] exI [of _ k3]) simp
qed

end
