(* ===== verification/TidPool.thy ===== *)
theory TidPool
  imports SyncInv
begin

text \<open>
  The pool of task numbers of task/task.c: a bitmap of used indices behind a lock. A locale
  states the contract of an index pool; the bitmap operations meet it, and \<open>allocate_tid\<close> and
  \<open>release_tid\<close> are those operations under the lock, with the number truncated to the 16 bits
  of \<open>tid_t\<close>.
\<close>

section \<open>The contract of an index pool\<close>

locale id_pool =
  fixes ok :: "'s \<Rightarrow> bool" and ids :: "'s \<Rightarrow> nat set" and cap :: "'s \<Rightarrow> nat"
    and alloc :: "'s \<Rightarrow> (nat \<times> 's) res" and free :: "nat \<Rightarrow> 's \<Rightarrow> 's res"
  assumes alloc_law:
      "ok s \<Longrightarrow> i < cap s \<Longrightarrow> i \<notin> ids s \<Longrightarrow>
       \<exists>n s'. alloc s = Inr (n, s') \<and> ok s' \<and> cap s' = cap s \<and> n \<notin> ids s \<and> n \<le> i
         \<and> (\<forall>j<n. j \<in> ids s) \<and> ids s' = insert n (ids s)"
    and free_law:
      "ok s \<Longrightarrow> n < cap s \<Longrightarrow> \<exists>s'. free n s = Inr s' \<and> ok s' \<and> cap s' = cap s \<and> ids s' = ids s - {n}"
begin

lemma alloc_free:
  assumes "ok s" and "i < cap s" and "i \<notin> ids s"
  shows "\<exists>n s' s''. alloc s = Inr (n, s') \<and> free n s' = Inr s'' \<and> ok s'' \<and> ids s'' = ids s"
proof -
  obtain n s' where n: "alloc s = Inr (n, s')" "ok s'" "cap s' = cap s" "n \<notin> ids s" "n \<le> i"
    "ids s' = insert n (ids s)"
    using alloc_law [OF assms] by blast
  moreover have "n < cap s'" using n(3,5) assms(2) by simp
  ultimately show ?thesis using free_law [of s' n] by auto
qed

fun alloc_n :: "nat \<Rightarrow> 's \<Rightarrow> (nat list \<times> 's) res" where
  "alloc_n 0 s = Inr ([], s)"
| "alloc_n (Suc n) s = bnd (alloc s) (\<lambda>(i, s). bnd (alloc_n n s) (\<lambda>(is, s). Inr (i # is, s)))"

lemma alloc_n_from:
  "ok s \<Longrightarrow> ids s = {..<m} \<Longrightarrow> m + n \<le> cap s \<Longrightarrow>
   \<exists>s'. alloc_n n s = Inr ([m..<m + n], s') \<and> ok s' \<and> cap s' = cap s \<and> ids s' = {..<m + n}"
proof (induction n arbitrary: s m)
  case 0
  then show ?case by simp
next
  case (Suc n)
  have "m < cap s" "m \<notin> ids s" using Suc.prems(2,3) by simp_all
  from alloc_law [OF Suc.prems(1) this]
  obtain i s1 where s1: "alloc s = Inr (i, s1)" "ok s1" "cap s1 = cap s" "i \<notin> ids s" "i \<le> m"
    "ids s1 = insert i (ids s)"
    by blast
  have im: "i = m" using s1(4,5) Suc.prems(2) by simp
  have "ids s1 = {..<Suc m}" using s1(6) Suc.prems(2) by (simp add: im lessThan_Suc)
  moreover have "Suc m + n \<le> cap s1" using s1(3) Suc.prems(3) by simp
  ultimately obtain s' where s': "alloc_n n s1 = Inr ([Suc m..<Suc m + n], s')" "ok s'" "cap s' = cap s1"
    "ids s' = {..<Suc m + n}"
    using Suc.IH [OF s1(2)] by blast
  have "[m..<m + Suc n] = m # [Suc m..<Suc m + n]" by (simp add: upt_conv_Cons)
  then show ?case using s1(1,3) im s' by simp
qed

end

section \<open>The bitmap as an index pool\<close>

text \<open>The bitmap part of \<open>allocate_tid\<close> and of \<open>release_tid\<close>.\<close>

definition bits_alloc :: "bitmap \<Rightarrow> (nat \<times> bitmap) res" where
  "bits_alloc b = bnd (bitmap_scan b 1) (\<lambda>i. bnd (bitmap_set b i 1) (\<lambda>b. Inr (unat i, b)))"

definition bits_free :: "nat \<Rightarrow> bitmap \<Rightarrow> bitmap res" where
  "bits_free n b = bitmap_set b (of_nat n) 0"

definition bits_cap :: "bitmap \<Rightarrow> nat" where
  "bits_cap b = 8 * length (bits b)"

lemma cap_small: "bitmap_ok b \<Longrightarrow> n < bits_cap b \<Longrightarrow> unat (of_nat n :: 32 word) = n"
  by (rule unat_of_nat_small) (simp add: bitmap_ok_def bits_cap_def)

lemma bits_alloc_lowest:
  assumes ok: "bitmap_ok b" and i: "i < bits_cap b" "i \<notin> used b"
  shows "\<exists>b'. bitmap_scan b 1 = Inr (of_nat (lowest_free b)) \<and> bitmap_set b (of_nat (lowest_free b)) 1 = Inr b'
    \<and> bitmap_ok b' \<and> used b' = insert (lowest_free b) (used b) \<and> length (bits b') = length (bits b)
    \<and> unat (of_nat (lowest_free b) :: 32 word) = lowest_free b"
proof -
  have f: "lowest_free b \<le> i" using lowest_free_props [of i b] i by (simp add: bits_cap_def)
  then have u: "unat (of_nat (lowest_free b) :: 32 word) = lowest_free b"
    using cap_small [OF ok] i(1) by simp
  have "unat (of_nat (lowest_free b) :: 32 word) < 8 * length (bits b)"
    using f i(1) unfolding u by (simp add: bits_cap_def)
  from bitmap_set_used(1) [OF ok this] bitmap_scan_one [OF ok, of i] i u show ?thesis
    by (auto simp: bits_cap_def)
qed

interpretation tids: id_pool bitmap_ok used bits_cap bits_alloc bits_free
proof unfold_locales
  fix b i assume a: "bitmap_ok b" "i < bits_cap b" "i \<notin> used b"
  have f: "lowest_free b \<notin> used b" "lowest_free b \<le> i" "\<And>j. j < lowest_free b \<Longrightarrow> j \<in> used b"
    using lowest_free_props [of i b] a by (simp_all add: bits_cap_def)
  from bits_alloc_lowest [OF a] f
  show "\<exists>n b'. bits_alloc b = Inr (n, b') \<and> bitmap_ok b' \<and> bits_cap b' = bits_cap b \<and> n \<notin> used b \<and> n \<le> i
      \<and> (\<forall>j<n. j \<in> used b) \<and> used b' = insert n (used b)"
    by (auto simp: bits_alloc_def bits_cap_def)
next
  fix b n assume a: "bitmap_ok b" "n < bits_cap b"
  have u: "unat (of_nat n :: 32 word) = n" by (rule cap_small [OF a])
  then have "unat (of_nat n :: 32 word) < 8 * length (bits b)" using a(2) by (simp add: bits_cap_def)
  from bitmap_set_used(2) [OF a(1) this]
  show "\<exists>b'. bits_free n b = Inr b' \<and> bitmap_ok b' \<and> bits_cap b' = bits_cap b \<and> used b' = used b - {n}"
    by (auto simp: bits_free_def bits_cap_def u)
qed

section \<open>Allocation and release under the lock\<close>

lemma lock_free_eq:
  "lock_free x \<longleftrightarrow> x = \<lparr>holder = None, semaphore = \<lparr>sema_value = 1\<rparr>, holder_repeat_nr = 0\<rparr>"
  by (cases x; cases "semaphore x") (auto simp: lock_free_def)

lemma lock_acquire_uncontended:
  assumes c: "current_task k = Some c" and f: "lock_free (locks k l)"
  shows "lock_acquire k l = Inr (Returned (), interrupt_enable (k\<lparr>locks := (locks k)(l :=
      \<lparr>holder = Some c, semaphore = \<lparr>sema_value = 0\<rparr>, holder_repeat_nr = 1\<rparr>)\<rparr>))"
proof -
  have "sema_val (interrupt_disable k) l = 1" using f by (simp add: lock_free_def sema_val_def)
  from sema_down_loop_take [OF this] show ?thesis
    using c f [unfolded lock_free_eq]
    by (simp add: lock_acquire_def sema_down_def lock_acquired_def Let_def upd_lock_def
        set_value_def interrupt_enable_def interrupt_disable_def)
       (simp add: sigemptyset_def sigaddset_def insert_Diff_if)
qed

lemma lock_release_uncontended:
  assumes c: "current_task k = Some c" and q: "queues (nodes k) Q" and w: "Q (Waiters l) = Some []"
    and h: "locks k l = \<lparr>holder = Some c, semaphore = \<lparr>sema_value = 0\<rparr>, holder_repeat_nr = 1\<rparr>"
  shows "lock_release k l = Inr (interrupt_enable (k\<lparr>locks := (locks k)(l :=
      \<lparr>holder = None, semaphore = \<lparr>sema_value = 1\<rparr>, holder_repeat_nr = 0\<rparr>)\<rparr>))"
proof -
  have e: "list_empty (nodes k) (clist_of (Waiters l)) = Inr True"
    using k_empty_spec [OF q w] by (simp add: k_empty_def)
  show ?thesis
    using c h
    by (simp add: lock_release_def sema_up_def sema_up_wake_def sema_up_post_def k_empty_def e Let_def
        sema_val_def upd_lock_def set_value_def interrupt_enable_def interrupt_disable_def)
       (simp add: sigemptyset_def sigaddset_def insert_Diff_if)
qed

lemma allocate_tid_result:
  assumes c: "current_task k = Some c" and q: "queues (nodes k) Q" and w: "Q (Waiters Tid_lock) = Some []"
    and f: "lock_free (locks k Tid_lock)" and ok: "bitmap_ok (tid_bitmap k)"
    and i: "i < bits_cap (tid_bitmap k)" "i \<notin> used (tid_bitmap k)"
  shows "\<exists>b. allocate_tid k = Inr (Returned (ucast (of_nat (lowest_free (tid_bitmap k)) + tid_start k)),
      interrupt_enable (k\<lparr>tid_bitmap := b\<rparr>)) \<and> bitmap_ok b \<and> length (bits b) = length (bits (tid_bitmap k))
      \<and> used b = insert (lowest_free (tid_bitmap k)) (used (tid_bitmap k))"
proof -
  obtain b where b: "bitmap_scan (tid_bitmap k) 1 = Inr (of_nat (lowest_free (tid_bitmap k)))"
    "bitmap_set (tid_bitmap k) (of_nat (lowest_free (tid_bitmap k))) 1 = Inr b" "bitmap_ok b"
    "used b = insert (lowest_free (tid_bitmap k)) (used (tid_bitmap k))"
    "length (bits b) = length (bits (tid_bitmap k))"
    using bits_alloc_lowest [OF ok i] by blast
  let ?k1 = "interrupt_enable (k\<lparr>locks := (locks k)(Tid_lock :=
      \<lparr>holder = Some c, semaphore = \<lparr>sema_value = 0\<rparr>, holder_repeat_nr = 1\<rparr>)\<rparr>)\<lparr>tid_bitmap := b\<rparr>"
  have rel: "lock_release ?k1 Tid_lock = Inr (interrupt_enable (?k1\<lparr>locks := (locks ?k1)(Tid_lock :=
      \<lparr>holder = None, semaphore = \<lparr>sema_value = 1\<rparr>, holder_repeat_nr = 0\<rparr>)\<rparr>))"
    by (rule lock_release_uncontended [of ?k1 c Q]) (use c q w in simp_all)
  have same: "(locks k)(Tid_lock := \<lparr>holder = None, semaphore = \<lparr>sema_value = 1\<rparr>, holder_repeat_nr = 0\<rparr>) = locks k"
    using f by (auto simp: lock_free_eq)
  have fin: "interrupt_enable (?k1\<lparr>locks := (locks ?k1)(Tid_lock :=
      \<lparr>holder = None, semaphore = \<lparr>sema_value = 1\<rparr>, holder_repeat_nr = 0\<rparr>)\<rparr>) = interrupt_enable (k\<lparr>tid_bitmap := b\<rparr>)"
    by (simp add: interrupt_enable_def same)
  show ?thesis
    using b lock_acquire_uncontended [OF c f] rel fin
    by (intro exI [of _ b]) (simp add: allocate_tid_def allocate_tid_locked_def)
qed

lemma release_tid_result:
  assumes c: "current_task k = Some c" and q: "queues (nodes k) Q" and w: "Q (Waiters Tid_lock) = Some []"
    and f: "lock_free (locks k Tid_lock)"
  shows "release_tid k t = bnd (bitmap_set (tid_bitmap k) (scast t - tid_start k) 0) (\<lambda>b.
      Inr (Returned (), interrupt_enable (k\<lparr>tid_bitmap := b\<rparr>)))"
proof -
  have same: "(locks k)(Tid_lock := \<lparr>holder = None, semaphore = \<lparr>sema_value = 1\<rparr>, holder_repeat_nr = 0\<rparr>) = locks k"
    using f by (auto simp: lock_free_eq)
  let ?k1 = "interrupt_enable (k\<lparr>locks := (locks k)(Tid_lock :=
      \<lparr>holder = Some c, semaphore = \<lparr>sema_value = 0\<rparr>, holder_repeat_nr = 1\<rparr>)\<rparr>)"
  have rel: "lock_release (?k1\<lparr>tid_bitmap := b\<rparr>) Tid_lock = Inr (interrupt_enable (k\<lparr>tid_bitmap := b\<rparr>))" for b
  proof -
    have "lock_release (?k1\<lparr>tid_bitmap := b\<rparr>) Tid_lock =
        Inr (interrupt_enable ((?k1\<lparr>tid_bitmap := b\<rparr>)\<lparr>locks := (locks (?k1\<lparr>tid_bitmap := b\<rparr>))(Tid_lock :=
      \<lparr>holder = None, semaphore = \<lparr>sema_value = 1\<rparr>, holder_repeat_nr = 0\<rparr>)\<rparr>))"
      by (rule lock_release_uncontended [of _ c Q]) (use c q w in simp_all)
    also have "\<dots> = Inr (interrupt_enable (k\<lparr>tid_bitmap := b\<rparr>))"
      by (simp add: interrupt_enable_def same)
    finally show ?thesis .
  qed
  show ?thesis
    using lock_acquire_uncontended [OF c f]
    by (simp add: release_tid_def release_tid_locked_def Let_def rel bnd_assoc)
qed

section \<open>Properties\<close>

text \<open>The pool is usable: nobody holds or awaits its lock, and the first number is 1.\<close>

definition tid_pool_ok :: "'a kstate_scheme \<Rightarrow> queue_view \<Rightarrow> bool" where
  "tid_pool_ok k Q \<longleftrightarrow> lock_free (locks k Tid_lock) \<and> Q (Waiters Tid_lock) = Some []
     \<and> bitmap_ok (tid_bitmap k) \<and> tid_start k = 1"

text \<open>The numbers in use, as the integers they stand for.\<close>

definition live_tids :: "'a kstate_scheme \<Rightarrow> int set" where
  "live_tids k = (\<lambda>i. int i + 1) ` used (tid_bitmap k)"

lemma sched_inv_tid_bitmap [simp]: "sched_inv (k\<lparr>tid_bitmap := b\<rparr>) Q = sched_inv k Q"
  by (rule sched_inv_cong) simp_all

lemma tid_of_index:
  assumes "n < 32767"
  shows "sint (ucast (of_nat n + 1 :: 32 word) :: 16 word) = int n + 1"
    and "scast (ucast (of_nat n + 1 :: 32 word) :: 16 word) - 1 = (of_nat n :: 32 word)"
    and "ucast (of_nat n + 1 :: 32 word) = (of_nat (Suc n) :: 16 word)"
proof -
  have m: "of_nat n + 1 = (of_nat (Suc n) :: 32 word)" by simp
  have "take_bit 32 (Suc n) = Suc n" using assms by (intro take_bit_nat_eq_self) simp
  then have e: "(ucast (of_nat n + 1 :: 32 word) :: 16 word) = of_nat (Suc n)"
    unfolding m by (simp add: unsigned_of_nat del: of_nat_Suc)
  show "ucast (of_nat n + 1 :: 32 word) = (of_nat (Suc n) :: 16 word)" by (rule e)
  have "sint (of_nat (Suc n) :: 16 word) = int (Suc n)"
    using assms by (simp add: signed_of_nat signed_take_bit_int_eq_self del: of_nat_Suc)
  then show s: "sint (ucast (of_nat n + 1 :: 32 word) :: 16 word) = int n + 1" by (simp add: e)
  have "(scast (ucast (of_nat n + 1 :: 32 word) :: 16 word) :: 32 word) = word_of_int (int n + 1)"
    by (simp only: scast_eq s)
  then show "scast (ucast (of_nat n + 1 :: 32 word) :: 16 word) - 1 = (of_nat n :: 32 word)" by simp
qed

text \<open>
  C12. Allocation gives unused numbers: with an index below 32767 free, \<open>allocate_tid\<close> returns
  the smallest positive number not in use, marks exactly that one used, and leaves the locks, the
  queues and the running task as they were; interrupts are on afterwards.
\<close>

theorem allocate_tid_unique:
  assumes inv: "sched_inv k Q" and ok: "tid_pool_ok k Q"
    and i: "i < 32767" "i < bits_cap (tid_bitmap k)" "i \<notin> used (tid_bitmap k)"
  shows "\<exists>t k'. allocate_tid k = Inr (Returned t, k') \<and> 0 < sint t \<and> sint t \<notin> live_tids k
    \<and> live_tids k' = insert (sint t) (live_tids k) \<and> (\<forall>j\<in>{1..<sint t}. j \<in> live_tids k)
    \<and> sched_inv k' Q \<and> tid_pool_ok k' Q \<and> current_task k' = current_task k \<and> locks k' = locks k \<and> irq_on k'"
proof -
  let ?n = "lowest_free (tid_bitmap k)"
  obtain c where c: "current_task k = Some c" and q: "queues (nodes k) Q"
    using inv by (auto elim!: sched_invE simp: lists_ok_def)
  have f: "?n \<notin> used (tid_bitmap k)" "?n \<le> i" "\<And>j. j < ?n \<Longrightarrow> j \<in> used (tid_bitmap k)"
    using lowest_free_props [of i "tid_bitmap k"] i(2,3) by (simp_all add: bits_cap_def)
  have ok': "lock_free (locks k Tid_lock)" "Q (Waiters Tid_lock) = Some []" "bitmap_ok (tid_bitmap k)"
    "tid_start k = 1"
    using ok by (simp_all add: tid_pool_ok_def)
  obtain b where b: "allocate_tid k = Inr (Returned (ucast (of_nat ?n + tid_start k)),
      interrupt_enable (k\<lparr>tid_bitmap := b\<rparr>))" "bitmap_ok b" "used b = insert ?n (used (tid_bitmap k))"
    using allocate_tid_result [OF c q ok'(2,1,3) i(2,3)] by blast
  have s: "sint (ucast (of_nat ?n + tid_start k) :: 16 word) = int ?n + 1"
    using tid_of_index(1) [of ?n] f(2) i(1) ok'(4) by simp
  have low: "j \<in> live_tids k" if "j \<in> {1..<int ?n + 1}" for j
  proof -
    have "nat (j - 1) \<in> used (tid_bitmap k)" using f(3) [of "nat (j - 1)"] that
      by (simp add: nat_less_iff)
    moreover have "j = int (nat (j - 1)) + 1" using that by simp
    ultimately show ?thesis unfolding live_tids_def by blast
  qed
  let ?k' = "interrupt_enable (k\<lparr>tid_bitmap := b\<rparr>)"
  have "live_tids ?k' = insert (int ?n + 1) (live_tids k)" by (simp add: live_tids_def b(3))
  moreover have "int ?n + 1 \<notin> live_tids k" using f(1) by (auto simp: live_tids_def)
  moreover have "tid_pool_ok ?k' Q" using ok' b(2) by (simp add: tid_pool_ok_def)
  ultimately show ?thesis
    using b(1) s low inv by (intro exI [of _ "ucast (of_nat ?n + tid_start k)"] exI [of _ ?k']) auto
qed

lemma demo3_tids: "tid_pool_ok demo3 demo3_queues" "bits_cap (tid_bitmap demo3) = 8"
  "used (tid_bitmap demo3) = {0, 1, 2}"
proof -
  have t: "tid_bitmap demo3 = \<lparr>btmp_bytes_len = 1, bits = [7]\<rparr>" "tid_start demo3 = 1"
    by (simp_all add: demo3_def demo_state_def)
  show "tid_pool_ok demo3 demo3_queues" "bits_cap (tid_bitmap demo3) = 8"
    by (simp_all add: tid_pool_ok_def t bitmap_ok_def bits_cap_def lock_free_def demo_lock_def)
  have "bit (7 :: 8 word) i \<longleftrightarrow> i < 3" if "i < 8" for i
  proof -
    have "i = 0 \<or> i = 1 \<or> i = 2 \<or> i = 3 \<or> i = 4 \<or> i = 5 \<or> i = 6 \<or> i = 7"
      using that by linarith
    then show ?thesis by (elim disjE) simp_all
  qed
  then show "used (tid_bitmap demo3) = {0, 1, 2}" by (auto simp: used_def t bit_at_def)
qed

theorem allocate_tid_unique_witness:
  "\<exists>t k'. allocate_tid demo3 = Inr (Returned t, k') \<and> live_tids k' = insert (sint t) (live_tids demo3)"
  using allocate_tid_unique [OF demo3_inv demo3_tids(1), of 3] by (auto simp: demo3_tids)

text \<open>
  C13. Releasing the number just allocated gives back the pool as it was: the same numbers are
  in use, and the locks and queues are unchanged.
\<close>

theorem release_tid_roundtrip:
  assumes inv: "sched_inv k Q" and ok: "tid_pool_ok k Q"
    and i: "i < 32767" "i < bits_cap (tid_bitmap k)" "i \<notin> used (tid_bitmap k)"
  shows "\<exists>t k1 k2. allocate_tid k = Inr (Returned t, k1) \<and> release_tid k1 t = Inr (Returned (), k2)
    \<and> used (tid_bitmap k2) = used (tid_bitmap k) \<and> sched_inv k2 Q \<and> tid_pool_ok k2 Q \<and> locks k2 = locks k"
proof -
  let ?n = "lowest_free (tid_bitmap k)"
  obtain c where c: "current_task k = Some c" and q: "queues (nodes k) Q"
    using inv by (auto elim!: sched_invE simp: lists_ok_def)
  have f: "?n \<notin> used (tid_bitmap k)" "?n \<le> i"
    using lowest_free_props [of i "tid_bitmap k"] i(2,3) by (simp_all add: bits_cap_def)
  have ok': "lock_free (locks k Tid_lock)" "Q (Waiters Tid_lock) = Some []" "bitmap_ok (tid_bitmap k)"
    "tid_start k = 1"
    using ok by (simp_all add: tid_pool_ok_def)
  obtain b where b: "allocate_tid k = Inr (Returned (ucast (of_nat ?n + tid_start k)),
      interrupt_enable (k\<lparr>tid_bitmap := b\<rparr>))" (is "_ = Inr (Returned ?t, ?k1)") "bitmap_ok b"
    "used b = insert ?n (used (tid_bitmap k))" "length (bits b) = length (bits (tid_bitmap k))"
    using allocate_tid_result [OF c q ok'(2,1,3) i(2,3)] by blast
  have idx: "scast ?t - tid_start ?k1 = of_nat ?n" using tid_of_index(2) [of ?n] f(2) i(1) ok'(4) by simp
  have n: "?n < bits_cap b" using f(2) i(2) b(4) by (simp add: bits_cap_def)
  obtain b2 where b2: "bitmap_set b (of_nat ?n) 0 = Inr b2" "bitmap_ok b2" "used b2 = used b - {?n}"
    using tids.free_law [OF b(2) n] by (auto simp: bits_free_def)
  have rel: "release_tid ?k1 ?t = Inr (Returned (), interrupt_enable (?k1\<lparr>tid_bitmap := b2\<rparr>))"
    using release_tid_result [of ?k1 c Q ?t] c q ok'(1,2) b2(1) idx by simp
  have "used b2 = used (tid_bitmap k)" using b2(3) b(3) f(1) by auto
  then show ?thesis
    using b(1) rel inv ok' b2(2)
    by (intro exI [of _ ?t] exI [of _ ?k1] exI [of _ "interrupt_enable (?k1\<lparr>tid_bitmap := b2\<rparr>)"])
       (simp add: tid_pool_ok_def)
qed

theorem release_tid_roundtrip_witness:
  "\<exists>t k1 k2. allocate_tid demo3 = Inr (Returned t, k1) \<and> release_tid k1 t = Inr (Returned (), k2)
    \<and> used (tid_bitmap k2) = {0, 1, 2}"
  using release_tid_roundtrip [OF demo3_inv demo3_tids(1), of 3] by (auto simp: demo3_tids)

lemma tid_wrap: "ucast (w + 0x10000 :: 32 word) = (ucast w :: 16 word)"
  by transfer (simp add: take_bit_eq_mod mod_mod_cancel)

text \<open>
  C30. Numbers repeat: \<open>tid_t\<close> is 16 bits wide while the map has more than a million bits. When the
  first 65536 indices are in use, whatever others are, the next task gets the number of the task whose
  index lies 65536 below, which is in use.
\<close>

theorem tid_collision:
  assumes inv: "sched_inv k Q" and ok: "tid_pool_ok k Q" and u: "{..<65536} \<subseteq> used (tid_bitmap k)"
    and i: "i < bits_cap (tid_bitmap k)" "i \<notin> used (tid_bitmap k)"
  shows "\<exists>t k' j. allocate_tid k = Inr (Returned t, k') \<and> used (tid_bitmap k') = insert (j + 65536) (used (tid_bitmap k))
    \<and> j \<in> used (tid_bitmap k) \<and> j + 65536 \<notin> used (tid_bitmap k)
    \<and> t = ucast (of_nat j + tid_start k) \<and> t = ucast (of_nat (j + 65536) + tid_start k)"
proof -
  obtain c where c: "current_task k = Some c" and q: "queues (nodes k) Q"
    using inv by (auto elim!: sched_invE simp: lists_ok_def)
  have ok': "lock_free (locks k Tid_lock)" "Q (Waiters Tid_lock) = Some []" "bitmap_ok (tid_bitmap k)"
    using ok by (simp_all add: tid_pool_ok_def)
  let ?n = "lowest_free (tid_bitmap k)"
  have f: "?n \<notin> used (tid_bitmap k)" "\<forall>j<?n. j \<in> used (tid_bitmap k)"
    using lowest_free_props [of i "tid_bitmap k"] i by (simp_all add: bits_cap_def)
  have "65536 \<le> ?n" using f(1) u by (meson lessThan_iff not_le subsetD)
  then obtain j where j: "?n = j + 65536" by (metis le_add_diff_inverse2)
  have e: "ucast (of_nat j + 65536 + tid_start k) = (ucast (of_nat j + tid_start k) :: 16 word)"
    using tid_wrap [of "of_nat j + tid_start k"] by (simp add: ac_simps)
  show ?thesis using allocate_tid_result [OF c q ok'(2,1,3) i] f j by (auto simp: e intro!: exI [of _ j])
qed

definition full_bits :: "nat \<Rightarrow> bitmap" where
  "full_bits n = \<lparr>btmp_bytes_len = of_nat (Suc n), bits = replicate n 0xff @ [0x7f]\<rparr>"

lemma full_bits_used: "used (full_bits n) = {..<8 * n + 7}"
proof -
  have b: "bit (0xff :: 8 word) j" if "j < 8" for j
  proof -
    have "(0xff :: 8 word) = - 1" by simp
    then show ?thesis using that by (simp only:) simp
  qed
  have b7: "bit (0x7f :: 8 word) j \<longleftrightarrow> j < 7" if "j < 8" for j
  proof -
    have "j = 0 \<or> j = 1 \<or> j = 2 \<or> j = 3 \<or> j = 4 \<or> j = 5 \<or> j = 6 \<or> j = 7"
      using that by linarith
    then show ?thesis by (elim disjE) simp_all
  qed
  have "i \<in> used (full_bits n) \<longleftrightarrow> i < 8 * n + 7" for i
  proof (cases "i div 8 < n")
    case True
    then show ?thesis using b [of "i mod 8"] by (auto simp: used_def full_bits_def bit_at_def nth_append)
  next
    case False
    then have d: "8 * n \<le> i" by simp
    show ?thesis
    proof (cases "i < 8 * Suc n")
      case True
      then have "i div 8 = n" using False by simp
      moreover from this have "i mod 8 = i - 8 * n" by (simp add: minus_mult_div_eq_mod [symmetric])
      ultimately show ?thesis using b7 [of "i mod 8"] True d
        by (auto simp: used_def full_bits_def bit_at_def nth_append)
    next
      case False
      then show ?thesis by (simp add: used_def full_bits_def)
    qed
  qed
  then show ?thesis by blast
qed

lemma full_bits_ok: "n < 2 ^ 27 \<Longrightarrow> bitmap_ok (full_bits n) \<and> bits_cap (full_bits n) = 8 * n + 8"
  by (simp add: full_bits_def bitmap_ok_def bits_cap_def unat_of_nat_small del: of_nat_Suc)

definition demo_full :: "nat \<Rightarrow> kstate" where
  "demo_full n = demo3\<lparr>tid_bitmap := full_bits n\<rparr>"

text \<open>
  Numbers turn negative: with the indices below 32767 in use the next task gets number
  -32768, and when it ends, \<open>release_tid\<close> computes an index far behind the map and writes there.
\<close>

lemma tid_negative:
  assumes inv: "sched_inv k Q" and ok: "tid_pool_ok k Q" and u: "used (tid_bitmap k) = {..<32767}"
    and cap: "32767 < bits_cap (tid_bitmap k)"
  shows "\<exists>t k'. allocate_tid k = Inr (Returned t, k') \<and> sint t = - 32768
    \<and> release_tid k' t = Inl Wild_deref"
proof -
  obtain c where c: "current_task k = Some c" and q: "queues (nodes k) Q"
    using inv by (auto elim!: sched_invE simp: lists_ok_def)
  have ok': "lock_free (locks k Tid_lock)" "Q (Waiters Tid_lock) = Some []" "bitmap_ok (tid_bitmap k)"
    "tid_start k = 1"
    using ok by (simp_all add: tid_pool_ok_def)
  have nf: "32767 \<notin> used (tid_bitmap k)" by (simp add: u)
  have "lowest_free (tid_bitmap k) = 32767"
    unfolding lowest_free_def by (rule Least_equality) (auto simp: u not_less)
  then have t: "ucast (of_nat (lowest_free (tid_bitmap k)) + tid_start k) = (0x8000 :: 16 word)"
    using ok'(4) by simp
  obtain b where b: "allocate_tid k = Inr (Returned 0x8000, interrupt_enable (k\<lparr>tid_bitmap := b\<rparr>))"
    "bitmap_ok b"
    using allocate_tid_result [OF c q ok'(2,1,3) cap nf] t by auto
  have "length (bits b) < 2 ^ 28" using b(2) by (simp add: bitmap_ok_def)
  then have "bitmap_set b (scast (0x8000 :: 16 word) - 1) 0 = Inl Wild_deref"
    by (simp add: bitmap_set_def read_byte_def Let_def)
  then have "release_tid (interrupt_enable (k\<lparr>tid_bitmap := b\<rparr>)) 0x8000 = Inl Wild_deref"
    using release_tid_result [of "interrupt_enable (k\<lparr>tid_bitmap := b\<rparr>)" c Q] c q ok'(1,2,4) by simp
  moreover have "sint (0x8000 :: 16 word) = - 32768" by simp
  ultimately show ?thesis using b(1) by blast
qed

lemma demo_full_ok:
  assumes "n < 2 ^ 27"
  shows "sched_inv (demo_full n) demo3_queues" and "tid_pool_ok (demo_full n) demo3_queues"
    and "used (tid_bitmap (demo_full n)) = {..<8 * n + 7}" and "bits_cap (tid_bitmap (demo_full n)) = 8 * n + 8"
  using demo3_inv demo3_tids(1) full_bits_ok [OF assms] full_bits_used [of n]
  by (simp_all add: demo_full_def tid_pool_ok_def)

theorem tid_collision_witness:
  "\<exists>t k' j. allocate_tid (demo_full 8192) = Inr (Returned t, k') \<and> j \<in> used (tid_bitmap (demo_full 8192))
    \<and> t = ucast (of_nat j + tid_start (demo_full 8192))"
  using tid_collision [of "demo_full 8192" demo3_queues 65543] by (fastforce simp: demo_full_ok)

end
