(* ===== verification/TaskProps.thy ===== *)
theory TaskProps
  imports TidPool Selection
begin

text \<open>
  The life of a task on states that satisfy the scheduler's invariant: start-up, creation, exit,
  and what goes wrong around the pool of dead task structures.
\<close>

section \<open>Heap facts\<close>

lemma queues_frame:
  assumes q: "queues h Q" and f: "\<And>L xs n. Q L = Some xs \<Longrightarrow> n \<in> {Head L, Tail L} \<union> Tag (tag_of L) ` set xs \<Longrightarrow> h' n = h n"
  shows "queues h' Q"
proof -
  have "is_list h' (clist_of L) (map (Tag (tag_of L)) xs)" if L: "Q L = Some xs" for L xs
    by (rule is_list_cong [OF queues_list [OF q L]]) (use f [OF L] in \<open>auto simp: list_nodes_clist_of\<close>)
  then show ?thesis using q unfolding queues_def by blast
qed

lemma zero_nodes_dom:
  "dom (zero_nodes h t) = dom h \<union> {Tag General_tag t, Tag All_list_tag t, Tag Pool_tag t}"
  by (auto simp: zero_nodes_def)

lemma zero_nodes_other: "(\<And>g. n \<noteq> Tag g t) \<Longrightarrow> zero_nodes h t n = h n"
  by (simp add: zero_nodes_def)

lemma zero_nodes_twice [simp]: "zero_nodes (zero_nodes h t) t = zero_nodes h t"
  by (auto simp: zero_nodes_def)

lemma queues_zero_nodes:
  assumes "queues h Q" and "\<And>L xs. Q L = Some xs \<Longrightarrow> t \<notin> set xs"
  shows "queues (zero_nodes h t) Q"
  by (rule queues_frame [OF assms(1)]) (use assms(2) in \<open>auto simp: zero_nodes_def\<close>)

lemma clist_of_simps [simp]: "list_head (clist_of L) = Head L" "list_tail (clist_of L) = Tail L"
  by (simp_all add: clist_of_def)

lemma queues_list_init:
  assumes q: "queues h Q"
  shows "queues (list_init h (clist_of L)) (Q(L \<mapsto> []))"
proof -
  have "is_list (list_init h (clist_of L)) (clist_of M) (map (Tag (tag_of M)) ys)"
    if M: "(Q(L \<mapsto> [])) M = Some ys" for M ys
  proof (cases "M = L")
    case True
    with M show ?thesis using list_init_is_list [of "clist_of L" h] by (simp add: clist_of_def)
  next
    case False
    with M have M: "Q M = Some ys" by simp
    show ?thesis
      by (rule is_list_cong [OF queues_list [OF q M]])
         (use False in \<open>auto simp: list_nodes_clist_of list_init_def\<close>)
  qed
  moreover have "set us \<inter> set vs = {}"
    if "(Q(L \<mapsto> [])) M = Some us" "(Q(L \<mapsto> [])) N = Some vs" "M \<noteq> N" "tag_of M = tag_of N" for M N us vs
    using that queues_disjoint [OF q, of M us N vs] by (auto split: if_splits)
  ultimately show ?thesis unfolding queues_def by blast
qed

lemma list_init_dom: "dom (list_init h (clist_of L)) = dom h \<union> {Head L, Tail L}"
  by (auto simp: list_init_def clist_of_def)

section \<open>Creation\<close>

text \<open>The structure \<open>task_start\<close> publishes.\<close>

definition new_task ::
    "abi \<Rightarrow> string \<Rightarrow> 32 word \<Rightarrow> 64 word \<Rightarrow> 16 word \<Rightarrow> 64 word \<Rightarrow> 64 word \<Rightarrow> task_struct" where
  "new_task a nm prio stk i func arg = task_zero\<lparr>name := nm, status := TASK_READY, first := True,
     tid := i, stack_min_addr := stk, task_stack := stk + TASK_STACK_SIZE,
     priority := ucast prio, ticks := ucast prio, stack_magic := 0x19991120,
     task_context := (get_reg (abi_cs a) (abi_ss a)
         (context_zero\<lparr>rsp := stk + TASK_STACK_SIZE, rbp := stk + TASK_STACK_SIZE\<rparr>))
       \<lparr>rip := abi_task_entrance a, rdi := func, rsi := arg\<rparr>\<rparr>"

lemma init_task_result:
  assumes t: "tasks k t = Some t0" and m: "main_task k \<noteq> Some t" and nm: "length nm < 32"
    and c: "current_task k = Some c" and q: "queues (nodes k) Q" and pool: "tid_pool_ok k Q"
    and nt: "\<And>L xs. Q L = Some xs \<Longrightarrow> t \<notin> set xs"
    and i: "i < bits_cap (tid_bitmap k)" "i \<notin> used (tid_bitmap k)"
  shows "\<exists>b ti. init_task k (Some t) nm prio stk = Inr (Returned (), interrupt_enable (k\<lparr>
      nodes := zero_nodes (nodes k) t,
      tasks := (tasks k)(t \<mapsto> task_zero\<lparr>name := nm, status := TASK_READY, first := True,
         tid := ti, stack_min_addr := stk, task_stack := stk + TASK_STACK_SIZE,
         priority := ucast prio, ticks := ucast prio, stack_magic := 0x19991120\<rparr>),
      tid_bitmap := b\<rparr>))
    \<and> ti = ucast (of_nat (lowest_free (tid_bitmap k)) + 1 :: 32 word) \<and> bitmap_ok b
    \<and> used b = insert (lowest_free (tid_bitmap k)) (used (tid_bitmap k))
    \<and> length (bits b) = length (bits (tid_bitmap k))"
proof -
  let ?tt = "task_zero\<lparr>name := nm, status := TASK_READY, first := True\<rparr>"
  let ?k = "k\<lparr>nodes := zero_nodes (nodes k) t, tasks := (tasks k)(t \<mapsto> ?tt)\<rparr>"
  have b: "init_task_begin k (Some t) nm = Inr ?k"
    using t m nm by (simp add: init_task_begin_def memset_task_def)
  have q': "queues (nodes ?k) Q" using queues_zero_nodes [OF q nt] by simp
  obtain bm where bm: "allocate_tid ?k = Inr (Returned (ucast (of_nat (lowest_free (tid_bitmap k)) + 1 :: 32 word)),
      interrupt_enable (?k\<lparr>tid_bitmap := bm\<rparr>))" "bitmap_ok bm"
    "length (bits bm) = length (bits (tid_bitmap k))"
    "used bm = insert (lowest_free (tid_bitmap k)) (used (tid_bitmap k))"
    using allocate_tid_result [of ?k c Q i] c q' pool i by (auto simp: tid_pool_ok_def)
  show ?thesis
    by (intro exI [of _ bm] exI [of _ "ucast (of_nat (lowest_free (tid_bitmap k)) + 1 :: 32 word)"])
      (use b bm in \<open>simp add: init_task_def init_task_end_def, simp add: task_zero_def interrupt_enable_def\<close>)
qed

lemma task_publish_result:
  assumes q: "queues (nodes k) Q" and rs: "Q Ready_list = Some rs" and as: "Q All_list = Some as"
    and t: "tasks k t = Some tt" and d: "\<And>g. Tag g t \<in> dom (nodes k)"
    and nt: "\<And>L xs. Q L = Some xs \<Longrightarrow> t \<notin> set xs"
  obtains h where "task_publish k (Some t) = Inr (interrupt_enable (k\<lparr>nodes := h, task_all_nums := task_all_nums k + 1\<rparr>))"
    and "queues h (Q(Ready_list \<mapsto> rs @ [t], All_list \<mapsto> as @ [t]))" and "dom h = dom (nodes k)"
proof -
  obtain h1 where h1: "k_append k Ready_list t = Inr (k\<lparr>nodes := h1\<rparr>)"
    "queues h1 (Q(Ready_list \<mapsto> rs @ [t]))" "dom h1 = dom (nodes k)"
    by (rule k_append_spec [OF q rs]) (use nt d [of General_tag] in \<open>auto simp: unqueued_def\<close>)
  have as1: "(Q(Ready_list \<mapsto> rs @ [t])) All_list = Some as" using as by simp
  have q1: "queues (nodes (k\<lparr>nodes := h1\<rparr>)) (Q(Ready_list \<mapsto> rs @ [t]))" using h1(2) by simp
  have u: "unqueued (Q(Ready_list \<mapsto> rs @ [t])) (tag_of All_list) t"
    unfolding unqueued_def using nt by auto
  obtain h2 where h2: "k_append (k\<lparr>nodes := h1\<rparr>) All_list t = Inr ((k\<lparr>nodes := h1\<rparr>)\<lparr>nodes := h2\<rparr>)"
    "queues h2 ((Q(Ready_list \<mapsto> rs @ [t]))(All_list \<mapsto> as @ [t]))" "dom h2 = dom (nodes (k\<lparr>nodes := h1\<rparr>))"
    by (rule k_append_spec [OF q1 as1 u]) (use d [of All_list_tag] h1(3) in simp_all)
  have f1: "k_find k Ready_list t = Inr False" using k_find_spec [OF q rs, of t] nt [OF rs] by simp
  have f2: "k_find (k\<lparr>nodes := h1\<rparr>) All_list t = Inr False"
    using k_find_spec [OF q1 as1, of t] nt [OF as] by simp
  have "task_publish k (Some t) = Inr (interrupt_enable (k\<lparr>nodes := h2, task_all_nums := task_all_nums k + 1\<rparr>))"
    using t f1 h1(1) f2 h2(1) by (simp add: task_publish_def)
  with h2 h1(3) show ?thesis by (intro that [of h2]) simp_all
qed

text \<open>The lists once the new task \<open>t\<close> is last on the ready queue and on the list of all tasks.\<close>

lemma start_lists_ok:
  assumes ok: "lists_ok k Q" and rs: "Q Ready_list = Some rs" and as: "Q All_list = Some as"
    and T: "tasks k' = (tasks k)(t \<mapsto> nt)" and st: "status nt = TASK_READY" and t: "tasks k t = None"
    and q: "queues (nodes k') (Q(Ready_list \<mapsto> rs @ [t], All_list \<mapsto> as @ [t]))"
    and d: "dom (nodes k') = dom (nodes k) \<union> {Tag General_tag t, Tag All_list_tag t, Tag Pool_tag t}"
  shows "lists_ok k' (Q(Ready_list \<mapsto> rs @ [t], All_list \<mapsto> as @ [t]))" (is "lists_ok _ ?Q")
proof (rule lists_okI)
  show "queues (nodes k') ?Q" by (rule q)
  show "\<exists>ts. tasks k' s = Some ts \<and> list_status L (status ts)" if L: "?Q L = Some xs" and s: "s \<in> set xs" for L xs s
  proof (cases "s = t")
    case True
    have "s \<notin> set ys" if "Q L = Some ys" for ys using lists_ok_memberD [OF ok that, of t] t True by auto
    then have "L = Ready_list \<or> L = All_list" using L s by (auto split: if_splits)
    then show ?thesis using True st unfolding T by auto
  next
    case False
    obtain ys where ys: "Q L = Some ys" "s \<in> set ys"
      using L s False rs as by (cases "L = Ready_list"; cases "L = All_list") auto
    show ?thesis using lists_ok_memberD [OF ok ys] False unfolding T by simp
  qed
  show "s \<in> set (the (?Q All_list))" if "?Q L = Some xs" "tag_of L = General_tag" "s \<in> set xs" for L xs s
    using that lists_ok_known [OF ok rs, of s] lists_ok_known [OF ok, of L xs s] as
    by (cases "L = Ready_list") (auto split: if_splits)
  show "Tag g s \<in> dom (nodes k')" if "tasks k' s = Some ts" for s ts g
    using that d lists_ok_tag [OF ok, of s ts g] unfolding T by (cases "s = t"; cases g) auto
qed (use ok in \<open>auto simp: lists_ok_def\<close>)

text \<open>The front half of \<open>task_start\<close>: the new structure with its number, its stack and its first context.\<close>

lemma start_makes:
  assumes ok: "lists_ok k Q" and pool: "tid_pool_ok k Q" and ps: "Q Pool_list = Some []"
    and t: "tasks k t = None" and m: "main_task k \<noteq> Some t" and nm: "length nm < 32"
    and i: "i < bits_cap (tid_bitmap k)" "i \<notin> used (tid_bitmap k)" and c: "current_task k = Some c"
  obtains k1 k2 k3 b ti where "obtain_task (interrupt_disable k) (Some t) = Inr (Some t, k1)"
    and "init_task k1 (Some t) nm prio stk = Inr (Returned (), k2)" and "task_create k2 a (Some t) func arg = Inr k3"
    and "k3 = (interrupt_enable k)\<lparr>nodes := zero_nodes (nodes k) t, tasks := (tasks k)(t \<mapsto> new_task a nm prio stk ti func arg),
        tid_bitmap := b\<rparr>"
    and "ti = ucast (of_nat (lowest_free (tid_bitmap k)) + 1 :: 32 word)" and "bitmap_ok b"
    and "used b = insert (lowest_free (tid_bitmap k)) (used (tid_bitmap k))" and "length (bits b) = length (bits (tid_bitmap k))"
proof -
  have nt: "t \<notin> set xs" if "Q L = Some xs" for L xs
    using lists_ok_memberD [OF ok that, of t] t by auto
  let ?k0 = "interrupt_disable k"
  let ?k1 = "malloc_task ?k0 (Some t)"
  have ob: "obtain_task ?k0 (Some t) = Inr (Some t, ?k1)"
    using k_empty_spec [of ?k0 Q Pool_list "[]"] lists_ok_queues [OF ok] ps by (simp add: obtain_task_def)
  have q1: "queues (nodes ?k1) Q"
    using queues_zero_nodes [OF lists_ok_queues [OF ok] nt] by (simp add: malloc_task_def)
  have pool1: "tid_pool_ok ?k1 Q" using pool by (simp add: tid_pool_ok_def malloc_task_def)
  have f1: "tasks ?k1 t = Some task_zero" "main_task ?k1 \<noteq> Some t" "current_task ?k1 = Some c"
    "tid_bitmap ?k1 = tid_bitmap k"
    using m c by (simp_all add: malloc_task_def)
  define tt where "tt ti = task_zero\<lparr>name := nm, status := TASK_READY, first := True,
      tid := ti, stack_min_addr := stk, task_stack := stk + TASK_STACK_SIZE,
      priority := ucast prio, ticks := ucast prio, stack_magic := 0x19991120\<rparr>" for ti
  have "\<exists>b ti. init_task ?k1 (Some t) nm prio stk = Inr (Returned (), interrupt_enable (?k1\<lparr>
      nodes := zero_nodes (nodes ?k1) t, tasks := (tasks ?k1)(t \<mapsto> tt ti), tid_bitmap := b\<rparr>))
    \<and> ti = ucast (of_nat (lowest_free (tid_bitmap ?k1)) + 1 :: 32 word) \<and> bitmap_ok b
    \<and> used b = insert (lowest_free (tid_bitmap ?k1)) (used (tid_bitmap ?k1))
    \<and> length (bits b) = length (bits (tid_bitmap ?k1))"
    unfolding tt_def
    by (rule init_task_result [OF f1(1,2) nm f1(3) q1 pool1, of i]) (use nt i f1(4) in simp_all)
  then obtain b ti where b: "init_task ?k1 (Some t) nm prio stk = Inr (Returned (), interrupt_enable (?k1\<lparr>
      nodes := zero_nodes (nodes ?k1) t, tasks := (tasks ?k1)(t \<mapsto> tt ti), tid_bitmap := b\<rparr>))"
    (is "_ = Inr (_, ?k2)")
    "ti = ucast (of_nat (lowest_free (tid_bitmap k)) + 1 :: 32 word)" "bitmap_ok b"
    "used b = insert (lowest_free (tid_bitmap k)) (used (tid_bitmap k))" "length (bits b) = length (bits (tid_bitmap k))"
    unfolding f1(4) by blast
  have "task_create ?k2 a (Some t) func arg = Inr (?k2\<lparr>tasks := (tasks ?k2)(t \<mapsto> new_task a nm prio stk ti func arg)\<rparr>)"
    by (simp add: task_create_def tt_def new_task_def Let_def)
  moreover have "?k2\<lparr>tasks := (tasks ?k2)(t \<mapsto> new_task a nm prio stk ti func arg)\<rparr> = (interrupt_enable k)\<lparr>
      nodes := zero_nodes (nodes k) t, tasks := (tasks k)(t \<mapsto> new_task a nm prio stk ti func arg), tid_bitmap := b\<rparr>"
    by (rule kstate.equality) (auto simp: malloc_task_def interrupt_enable_def interrupt_disable_def)
  ultimately show ?thesis by (rule that [OF ob b(1) _ _ b(2-5)])
qed

lemma task_start_result:
  assumes inv: "sched_inv k Q" and pool: "tid_pool_ok k Q" and ps: "Q Pool_list = Some []"
    and rs: "Q Ready_list = Some rs" and as: "Q All_list = Some as"
    and t: "tasks k t = None" and m: "main_task k \<noteq> Some t" and nm: "length nm < 32"
    and i: "i < bits_cap (tid_bitmap k)" "i \<notin> used (tid_bitmap k)"
  shows "\<exists>k' ti. task_start k a (Some t) stk nm prio func arg = Inr (Returned (Some t), k')
    \<and> tasks k' = (tasks k)(t \<mapsto> new_task a nm prio stk ti func arg)
    \<and> ti = ucast (of_nat (lowest_free (tid_bitmap k)) + 1 :: 32 word)
    \<and> used (tid_bitmap k') = insert (lowest_free (tid_bitmap k)) (used (tid_bitmap k))
    \<and> sched_inv k' (Q(Ready_list \<mapsto> rs @ [t], All_list \<mapsto> as @ [t]))
    \<and> tid_pool_ok k' (Q(Ready_list \<mapsto> rs @ [t], All_list \<mapsto> as @ [t]))
    \<and> current_task k' = current_task k \<and> regs k' = regs k \<and> main_task k' = main_task k
    \<and> task_all_nums k' = task_all_nums k + 1 \<and> irq_on k'
    \<and> bits_cap (tid_bitmap k') = bits_cap (tid_bitmap k) \<and> kstate.more k' = kstate.more k \<and> locks k' = locks k"
proof -
  obtain c where run: "runs k Q c" and ok: "lists_ok k Q" using inv by (auto simp: sched_inv_def)
  have nt: "t \<notin> set xs" if "Q L = Some xs" for L xs
    using lists_ok_memberD [OF ok that, of t] t by auto
  have c: "current_task k = Some c" using run by (simp add: runs_def)
  obtain k1 k2 k3 b ti where st: "obtain_task (interrupt_disable k) (Some t) = Inr (Some t, k1)"
    "init_task k1 (Some t) nm prio stk = Inr (Returned (), k2)" "task_create k2 a (Some t) func arg = Inr k3"
    and k3: "k3 = (interrupt_enable k)\<lparr>nodes := zero_nodes (nodes k) t, tasks := (tasks k)(t \<mapsto> new_task a nm prio stk ti func arg),
        tid_bitmap := b\<rparr>"
    and b: "ti = ucast (of_nat (lowest_free (tid_bitmap k)) + 1 :: 32 word)" "bitmap_ok b"
      "used b = insert (lowest_free (tid_bitmap k)) (used (tid_bitmap k))" "length (bits b) = length (bits (tid_bitmap k))"
    by (rule start_makes [OF ok pool ps t m nm i c])
  let ?nt = "new_task a nm prio stk ti func arg" and ?Q = "Q(Ready_list \<mapsto> rs @ [t], All_list \<mapsto> as @ [t])"
  have q3: "queues (nodes k3) Q" using queues_zero_nodes [OF lists_ok_queues [OF ok] nt] by (simp add: k3)
  have t3: "tasks k3 t = Some ?nt" by (simp add: k3)
  have d3: "Tag g t \<in> dom (nodes k3)" for g unfolding k3 by (cases g) (simp_all add: zero_nodes_dom)
  obtain h where h: "task_publish k3 (Some t) = Inr (interrupt_enable (k3\<lparr>nodes := h, task_all_nums := task_all_nums k3 + 1\<rparr>))"
    (is "_ = Inr ?k'") "queues h ?Q" "dom h = dom (nodes k3)"
    by (rule task_publish_result [OF q3 rs as t3 d3 nt])
  have T: "tasks ?k' = (tasks k)(t \<mapsto> ?nt)" by (simp add: k3)
  have dh: "dom (nodes ?k') = dom (nodes k) \<union> {Tag General_tag t, Tag All_list_tag t, Tag Pool_tag t}"
    using h(3) by (simp add: k3 zero_nodes_dom)
  have ok': "lists_ok ?k' ?Q" by (rule start_lists_ok [OF ok rs as T _ t _ dh]) (use h(2) in \<open>simp_all add: new_task_def\<close>)
  have "c \<noteq> t" using run t by (auto simp: runs_def)
  then have "runs ?k' ?Q c"
    using run as T current_unqueued [OF ok', of c] by (auto simp: runs_def k3)
  then have "sched_inv ?k' ?Q" using ok' unfolding sched_inv_def by blast
  moreover have "task_start k a (Some t) stk nm prio func arg = Inr (Returned (Some t), ?k')"
    unfolding task_start_def Let_def by (simp only: st bnd_Inr h(1) prod.case flow.case)
  moreover have "tid_pool_ok ?k' ?Q" using pool b(2) by (simp add: tid_pool_ok_def k3)
  moreover have "kstate.more ?k' = kstate.more k" "locks ?k' = locks k" by (simp_all add: interrupt_enable_def k3)
  ultimately show ?thesis using T b(1,3,4)
    by (intro exI [of _ ?k'] exI [of _ ti]) (simp add: k3 bits_cap_def)
qed

section \<open>Exit\<close>

text \<open>The lists once the exiting task is on the pool and off the list of all tasks.\<close>

lemma exit_lists_ok:
  assumes ok: "lists_ok k Q" and u: "unqueued Q General_tag c" and tc: "tasks k c = Some tc"
    and as: "Q All_list = Some as" "distinct as" and ps: "Q Pool_list = Some ps"
    and q: "queues h (Q(All_list \<mapsto> remove1 c as, Pool_list \<mapsto> ps @ [c]))" and d: "dom h = dom (nodes k)"
  shows "lists_ok ((interrupt_disable k)\<lparr>nodes := h, tasks := (tasks k)(c \<mapsto> tc\<lparr>status := TASK_DIED\<rparr>), task_all_nums := m\<rparr>)
    (Q(All_list \<mapsto> remove1 c as, Pool_list \<mapsto> ps @ [c]))" (is "lists_ok ?k' ?Q")
proof (rule lists_okI)
  show "queues (nodes ?k') ?Q" using q by simp
  show "\<exists>ts. tasks ?k' s = Some ts \<and> list_status L (status ts)" if L: "?Q L = Some xs" and s: "s \<in> set xs" for L xs s
  proof (cases "s = c")
    case True
    have "L \<noteq> All_list" using L s True as(2) by auto
    moreover have "tag_of L \<noteq> General_tag"
    proof
      assume g: "tag_of L = General_tag"
      then have "Q L = Some xs" using L by (cases L) auto
      then show False using unqueuedD [OF u _ g] s True by blast
    qed
    ultimately have "L = Pool_list" by (cases L) auto
    with True show ?thesis by simp
  next
    case False
    obtain ys where ys: "Q L = Some ys" "s \<in> set ys"
      using L s False as(1) ps set_remove1_subset [of c as] by (cases "L = Pool_list"; cases "L = All_list") auto
    show ?thesis using lists_ok_memberD [OF ok ys] False by simp
  qed
  show "s \<in> set (the (?Q All_list))" if L: "?Q L = Some xs" "tag_of L = General_tag" "s \<in> set xs" for L xs s
  proof -
    have "Q L = Some xs" using L by (cases L) auto
    then have "s \<in> set as" "s \<noteq> c"
      using lists_ok_known [OF ok _ L(2,3)] as(1) unqueuedD [OF u _ L(2)] L(3) by auto
    then show ?thesis by simp
  qed
  show "Tag g s \<in> dom (nodes ?k')" if "tasks ?k' s = Some ts" for s ts g
    using that d lists_ok_tag [OF ok tc, of g] lists_ok_tag [OF ok, of s ts g] by (cases "s = c") auto
qed (use ok in \<open>auto simp: lists_ok_def\<close>)

lemma task_exit_unlink_result:
  assumes inv: "sched_inv k Q" and c: "current_task k = Some c" and tc: "tasks k c = Some tc"
    and m: "main_task k \<noteq> Some c" and as: "Q All_list = Some as" and ps: "Q Pool_list = Some ps"
  obtains h where "task_exit_unlink k (Some c) = Inr ((interrupt_disable k)\<lparr>nodes := h,
      tasks := (tasks k)(c \<mapsto> tc\<lparr>status := TASK_DIED\<rparr>), task_all_nums := task_all_nums k - 1\<rparr>)"
    and "lists_ok ((interrupt_disable k)\<lparr>nodes := h,
      tasks := (tasks k)(c \<mapsto> tc\<lparr>status := TASK_DIED\<rparr>), task_all_nums := task_all_nums k - 1\<rparr>)
      (Q(All_list \<mapsto> remove1 c as, Pool_list \<mapsto> ps @ [c]))"
proof -
  have ok: "lists_ok k Q" and u: "unqueued Q General_tag c" and ca: "c \<in> set as"
    and st: "status tc = TASK_RUNNING"
    using inv c tc as by (auto elim!: sched_invE)
  obtain rs where rs: "Q Ready_list = Some rs" by (rule lists_ok_ready [OF ok])
  note q = lists_ok_queues [OF ok]
  have dist: "distinct as" by (rule queues_distinct [OF q as])
  obtain as1 as2 where as12: "as = as1 @ c # as2" "c \<notin> set as1" using split_list_first [OF ca] by blast
  then have rem: "remove1 c as = as1 @ as2" and ca2: "c \<notin> set (as1 @ as2)"
    using dist by (simp_all add: remove1_append)
  let ?T = "(tasks k)(c \<mapsto> tc\<lparr>status := TASK_DIED\<rparr>)"
  let ?k1 = "(interrupt_disable k)\<lparr>tasks := ?T\<rparr>"
  have f: "k_find ?k1 Ready_list c = Inr False"
    using k_find_spec [of ?k1 Q Ready_list rs c] q rs unqueuedD [OF u rs] by simp
  have as': "Q All_list = Some (as1 @ c # as2)" using as as12 by simp
  have q1: "queues (nodes ?k1) Q" using q by simp
  obtain h1 where h1: "k_remove ?k1 (tag_of All_list) c = Inr (?k1\<lparr>nodes := h1\<rparr>)"
    "queues h1 (Q(All_list \<mapsto> as1 @ as2))" "dom h1 = dom (nodes ?k1)"
    by (rule k_remove_spec [OF q1 as'])
  let ?k2 = "?k1\<lparr>nodes := h1, task_all_nums := task_all_nums k - 1\<rparr>" and ?Q1 = "Q(All_list \<mapsto> as1 @ as2)"
  have q2: "queues (nodes ?k2) ?Q1" and ps2: "?Q1 Pool_list = Some ps" using h1(2) ps by simp_all
  have cps: "c \<notin> set ps" by (rule lists_ok_not_in [OF ok tc _ ps]) (simp add: st)
  have up: "unqueued ?Q1 (tag_of Pool_list) c"
    unfolding unqueued_def
  proof (intro allI impI)
    fix L xs assume L: "?Q1 L = Some xs \<and> tag_of L = tag_of Pool_list"
    then have "L = Pool_list" by (cases L) auto
    with L ps2 cps show "c \<notin> set xs" by simp
  qed
  obtain h2 where h2: "k_append ?k2 Pool_list c = Inr (?k2\<lparr>nodes := h2\<rparr>)"
    "queues h2 (?Q1(Pool_list \<mapsto> ps @ [c]))" "dom h2 = dom (nodes ?k2)"
    by (rule k_append_spec [OF q2 ps2 up]) (use h1(3) lists_ok_tag [OF ok tc, of Pool_tag] in simp_all)
  let ?k' = "(interrupt_disable k)\<lparr>nodes := h2, tasks := ?T, task_all_nums := task_all_nums k - 1\<rparr>"
  let ?Q = "Q(All_list \<mapsto> remove1 c as, Pool_list \<mapsto> ps @ [c])"
  have d: "dom (nodes ?k') = dom (nodes k)" using h2(3) h1(3) by simp
  have "task_exit_unlink k (Some c) = Inr ?k'"
    using tc f h1(1) h2(1) m by (simp add: task_exit_unlink_def Let_def)
  moreover have "lists_ok ?k' ?Q" by (rule exit_lists_ok [OF ok u tc as dist ps]) (use h2(2) rem d in simp_all)
  ultimately show ?thesis by (rule that)
qed

text \<open>The state in which the exiting task has given back its number and interrupts are on again.\<close>

lemma task_exit_window:
  assumes inv: "sched_inv k Q" and c: "current_task k = Some c" and tc: "tasks k c = Some tc"
    and m: "main_task k \<noteq> Some c" and as: "Q All_list = Some as" and ps: "Q Pool_list = Some ps"
    and pool: "tid_pool_ok k Q" and n: "tid tc = of_nat (Suc n)" "n < 32767" "n < bits_cap (tid_bitmap k)"
  obtains k1 k2 where "task_exit_unlink k (Some c) = Inr k1" and "release_tid k1 (tid tc) = Inr (Returned (), k2)"
    and "tasks k1 = (tasks k)(c \<mapsto> tc\<lparr>status := TASK_DIED\<rparr>)"
    and "lists_ok k2 (Q(All_list \<mapsto> remove1 c as, Pool_list \<mapsto> ps @ [c]))" and "irq_on k2"
    and "tasks k2 = (tasks k)(c \<mapsto> tc\<lparr>status := TASK_DIED\<rparr>)" and "current_task k2 = Some c"
    and "used (tid_bitmap k2) = used (tid_bitmap k) - {n}" and "task_all_nums k2 = task_all_nums k - 1"
    and "tid_pool_ok k2 (Q(All_list \<mapsto> remove1 c as, Pool_list \<mapsto> ps @ [c]))" and "regs k2 = regs k"
proof -
  let ?Q = "Q(All_list \<mapsto> remove1 c as, Pool_list \<mapsto> ps @ [c])"
  define ex where "ex h = (interrupt_disable k)\<lparr>nodes := h,
      tasks := (tasks k)(c \<mapsto> tc\<lparr>status := TASK_DIED\<rparr>), task_all_nums := task_all_nums k - 1\<rparr>" for h
  obtain h where h: "task_exit_unlink k (Some c) = Inr (ex h)" "lists_ok (ex h) ?Q"
    unfolding ex_def by (rule task_exit_unlink_result [OF inv c tc m as ps])
  let ?k1 = "ex h"
  have ex [simp]: "locks ?k1 = locks k" "tid_start ?k1 = tid_start k" "tid_bitmap ?k1 = tid_bitmap k"
    "current_task ?k1 = current_task k" "regs ?k1 = regs k" "task_all_nums ?k1 = task_all_nums k - 1"
    "tasks ?k1 = (tasks k)(c \<mapsto> tc\<lparr>status := TASK_DIED\<rparr>)"
    by (simp_all add: ex_def)
  have p: "lock_free (locks k Tid_lock)" "Q (Waiters Tid_lock) = Some []" "bitmap_ok (tid_bitmap k)"
    "tid_start k = 1"
    using pool by (simp_all add: tid_pool_ok_def)
  have "scast (tid tc) - 1 = (of_nat n :: 32 word)"
    using tid_of_index(2,3) [OF n(2)] n(1) by simp
  then have idx: "scast (tid tc) - tid_start ?k1 = (of_nat n :: 32 word)" using p(4) by simp
  obtain b where b: "bitmap_set (tid_bitmap k) (of_nat n) 0 = Inr b" "bitmap_ok b"
    "used b = used (tid_bitmap k) - {n}"
    using tids.free_law [OF p(3) n(3)] by (auto simp: bits_free_def)
  have r: "release_tid ?k1 (tid tc) = Inr (Returned (), interrupt_enable (?k1\<lparr>tid_bitmap := b\<rparr>))" (is "_ = Inr (_, ?k2)")
    using release_tid_result [of ?k1 c ?Q "tid tc"] c p lists_ok_queues [OF h(2)] idx b(1) by simp
  have ok2: "lists_ok ?k2 ?Q" using h(2) lists_ok_cong [of ?k2 ?k1 ?Q] by simp
  show ?thesis
    by (rule that [OF h(1) r _ ok2]) (use b p c in \<open>simp_all add: tid_pool_ok_def\<close>)
qed

section \<open>Cleaning the pool\<close>

lemma free_task_queues:
  assumes q: "queues (nodes k) Q" and nt: "\<And>L xs. Q L = Some xs \<Longrightarrow> t \<notin> set xs"
  shows "queues (nodes (free_task k t)) Q"
  by (rule queues_frame [OF q]) (use nt in \<open>auto simp: free_task_def\<close>)

lemma pool_head_free:
  assumes ok: "lists_ok k Q" and ps: "Q Pool_list = Some (p # ps)"
  obtains h tp where "k_pop k Pool_list = Inr (Some p, k\<lparr>nodes := h\<rparr>)" and "tasks k p = Some tp"
    and "queues (nodes (free_task (k\<lparr>nodes := h\<rparr>) p)) (Q(Pool_list \<mapsto> ps))"
proof -
  note q = lists_ok_queues [OF ok]
  obtain tp where tp: "tasks k p = Some tp" "status tp = TASK_DIED"
    using lists_ok_memberD [OF ok ps, of p] by auto
  obtain h where h: "k_pop k Pool_list = Inr (Some p, k\<lparr>nodes := h\<rparr>)" "queues h (Q(Pool_list \<mapsto> ps))"
    by (rule k_pop_spec [OF q ps])
  have nt: "p \<notin> set xs" if L: "(Q(Pool_list \<mapsto> ps)) L = Some xs" for L xs
  proof (cases "L = Pool_list")
    case True
    then show ?thesis using L queues_distinct [OF q ps] by simp
  next
    case False
    with L have L: "Q L = Some xs" by simp
    show ?thesis using False tp(2) by (intro lists_ok_not_in [OF ok tp(1) _ L]) (cases L; simp)
  qed
  have "queues (nodes (free_task (k\<lparr>nodes := h\<rparr>) p)) (Q(Pool_list \<mapsto> ps))"
    by (rule free_task_queues) (use h(2) nt in simp_all)
  with h tp show ?thesis by (intro that)
qed

section \<open>Start-up\<close>

definition fresh_lock :: lock where
  "fresh_lock = \<lparr>holder = None, semaphore = \<lparr>sema_value = 1\<rparr>, holder_repeat_nr = 0\<rparr>"

lemma fresh_lock_free: "lock_free fresh_lock"
  by (simp add: fresh_lock_def lock_free_def)

lemma lock_init_result:
  "lock_init k l = k\<lparr>locks := (locks k)(l := fresh_lock), nodes := list_init (nodes k) (clist_of (Waiters l))\<rparr>"
proof -
  have "set_value 1 (x\<lparr>holder := None, holder_repeat_nr := 0\<rparr>) = fresh_lock" for x
    by (cases x; cases "semaphore x") (simp add: set_value_def fresh_lock_def)
  then show ?thesis by (simp add: lock_init_def sema_init_def upd_lock_def Let_def)
qed

lemma tid_pool_init_result:
  obtains b where "tid_pool_init k = Inr (lock_init (k\<lparr>tid_start := 1, tid_bitmap := b\<rparr>) Tid_lock)"
    and "bitmap_ok b" and "used b = {}" and "bits_cap b = 1000800"
proof -
  define b0 where "b0 = \<lparr>btmp_bytes_len = 125100, bits = tid_bitmap_bits\<rparr>"
  have len0: "length (bits b0) = 125100" by (simp add: b0_def tid_bitmap_bits_def)
  have b0: "bitmap_ok b0" by (simp add: bitmap_ok_def len0) (simp add: b0_def)
  obtain b where b: "bitmap_init b0 = Inr b" "bitmap_ok b" "used b = {}" "length (bits b) = 125100"
    using bitmap_init_used [OF b0] len0 by auto
  then show ?thesis by (intro that [of b]) (simp_all add: tid_pool_init_def Let_def b0_def bits_cap_def)
qed

text \<open>The main task's structure when \<open>init_task\<close> has filled it.\<close>

definition main_struct :: "64 word \<Rightarrow> task_struct" where
  "main_struct stk = task_zero\<lparr>name := ''main'', status := TASK_RUNNING, first := False, tid := 1,
     stack_min_addr := stk, task_stack := stk + TASK_STACK_SIZE, priority := 3, ticks := 3,
     elapsed_ticks := 0, stack_magic := 0x19991120, sleep_millisecond := 0, is_hook := False,
     is_collaborative_schedule := False\<rparr>"

lemma init_main_task:
  assumes k: "tasks k t \<noteq> None" "main_task k = Some t" and q: "queues (nodes k) Q" and pool: "tid_pool_ok k Q"
    and nt: "\<And>L xs. Q L = Some xs \<Longrightarrow> t \<notin> set xs" and u: "used (tid_bitmap k) = {}" "0 < bits_cap (tid_bitmap k)"
  obtains b where "init_task k (Some t) ''main'' 3 stk = Inr (Returned (), interrupt_enable (k\<lparr>
      nodes := zero_nodes (nodes k) t, tasks := (tasks k)(t \<mapsto> main_struct stk), current_task := Some t, tid_bitmap := b\<rparr>))"
    and "bitmap_ok b" and "used b = {0}" and "bits_cap b = bits_cap (tid_bitmap k)"
proof -
  define t2 where "t2 = task_zero\<lparr>name := ''main'', status := TASK_RUNNING, first := False\<rparr>"
  let ?k3 = "k\<lparr>nodes := zero_nodes (nodes k) t, tasks := (tasks k)(t \<mapsto> t2), current_task := Some t\<rparr>"
  have i1: "init_task_begin k (Some t) ''main'' = Inr ?k3"
    using k by (auto simp: init_task_begin_def memset_task_def t2_def)
  have q3: "queues (nodes ?k3) Q" using queues_zero_nodes [OF q nt] by simp
  have lf: "lowest_free (tid_bitmap k) = 0" unfolding lowest_free_def u(1) by (rule Least_equality) simp_all
  obtain b where b: "allocate_tid ?k3 = Inr (Returned 1, interrupt_enable (?k3\<lparr>tid_bitmap := b\<rparr>))" "bitmap_ok b" "used b = {0}"
    "bits_cap b = bits_cap (tid_bitmap k)"
    using allocate_tid_result [of ?k3 t Q 0] q3 pool u lf by (auto simp: tid_pool_ok_def bits_cap_def)
  have i2: "init_task_end (interrupt_enable (?k3\<lparr>tid_bitmap := b\<rparr>)) (Some t) 1 3 stk
      = Inr (interrupt_enable (k\<lparr>nodes := zero_nodes (nodes k) t, tasks := (tasks k)(t \<mapsto> main_struct stk),
          current_task := Some t, tid_bitmap := b\<rparr>))"
    by (simp add: init_task_end_def main_struct_def t2_def) (simp add: interrupt_enable_def)
  show ?thesis
    by (rule that [OF _ b(2-4)]) (simp only: init_task_def i1 b(1) i2 bnd_Inr prod.case flow.case)
qed

lemma make_main_task_result:
  assumes fresh: "tasks k = Map.empty" and q: "queues (nodes k) Q" and pool: "tid_pool_ok k Q"
    and e: "\<And>L xs. Q L = Some xs \<Longrightarrow> xs = []" and Q: "Q Ready_list = Some []" "Q All_list = Some []" "Q Pool_list = Some []"
    and u: "used (tid_bitmap k) = {}" "0 < bits_cap (tid_bitmap k)" and z: "task_all_nums k = 0"
  obtains k' where "make_main_task k (Some t) stk = Inr (Returned (), k')" and "sched_inv k' (Q(All_list \<mapsto> [t]))"
    and "tid_pool_ok k' (Q(All_list \<mapsto> [t]))" and "current_task k' = Some t" and "main_task k' = Some t"
    and "used (tid_bitmap k') = {0}" and "tasks k' = [t \<mapsto> main_struct stk]" and "task_all_nums k' = 1"
    and "kstate.more k' = kstate.more k" and "locks k' = locks k" and "bits_cap (tid_bitmap k') = bits_cap (tid_bitmap k)"
proof -
  let ?k2 = "(malloc_task k (Some t))\<lparr>main_task := Some t\<rparr>"
  have nt: "t \<notin> set xs" if "Q L = Some xs" for L xs using e [OF that] by simp
  have k2: "tasks ?k2 t \<noteq> None" "main_task ?k2 = Some t" "used (tid_bitmap ?k2) = {}" "0 < bits_cap (tid_bitmap ?k2)"
    "tid_pool_ok ?k2 Q" using u pool by (simp_all add: malloc_task_def tid_pool_ok_def)
  have q2: "queues (nodes ?k2) Q" using queues_zero_nodes [OF q nt] by (simp add: malloc_task_def)
  obtain b where b: "init_task ?k2 (Some t) ''main'' 3 stk = Inr (Returned (), interrupt_enable (?k2\<lparr>
      nodes := zero_nodes (nodes ?k2) t, tasks := (tasks ?k2)(t \<mapsto> main_struct stk), current_task := Some t, tid_bitmap := b\<rparr>))"
    "bitmap_ok b" "used b = {0}" "bits_cap b = bits_cap (tid_bitmap ?k2)"
    by (rule init_main_task [OF k2(1,2) q2 k2(5) nt k2(3,4)])
  define k5 where "k5 = interrupt_enable (?k2\<lparr>nodes := zero_nodes (nodes ?k2) t,
      tasks := (tasks ?k2)(t \<mapsto> main_struct stk), current_task := Some t, tid_bitmap := b\<rparr>)"
  have f5: "nodes k5 = zero_nodes (nodes k) t" "tasks k5 = [t \<mapsto> main_struct stk]" "current_task k5 = Some t"
    "main_task k5 = Some t" "tid_bitmap k5 = b" "locks k5 = locks k" "tid_start k5 = tid_start k"
    "task_all_nums k5 = 0" "kstate.more k5 = kstate.more k"
    using fresh z by (simp_all add: k5_def malloc_task_def interrupt_enable_def)
  have q5: "queues (nodes k5) Q" unfolding f5(1) by (rule queues_zero_nodes [OF q nt])
  have u5: "unqueued Q (tag_of All_list) t" unfolding unqueued_def using nt by blast
  have d5: "Tag g t \<in> dom (nodes k5)" for g using zero_nodes_dom [of "nodes k" t] f5(1) by (cases g) auto
  obtain h where h: "k_append k5 All_list t = Inr (k5\<lparr>nodes := h\<rparr>)" "queues h (Q(All_list \<mapsto> [] @ [t]))" "dom h = dom (nodes k5)"
    by (rule k_append_spec [OF q5 Q(2) u5 d5 [of "tag_of All_list"]])
  have fd: "k_find k5 All_list t = Inr False" using k_find_spec [OF q5 Q(2), of t] by simp
  let ?k' = "k5\<lparr>nodes := h, task_all_nums := task_all_nums k5 + 1\<rparr>" and ?Q' = "Q(All_list \<mapsto> [t])"
  have mm: "make_main_task k (Some t) stk = Inr (Returned (), ?k')"
    using b(1) [folded k5_def] fd h(1) by (simp add: make_main_task_def Let_def)
  have ok': "lists_ok ?k' ?Q'"
  proof (rule lists_okI)
    show "\<exists>ts. tasks ?k' s = Some ts \<and> list_status L (status ts)" if "?Q' L = Some xs" "s \<in> set xs" for L xs s
      using that e [of L xs] f5(2) by (auto simp: main_struct_def split: if_split_asm)
    show "s \<in> set (the (?Q' All_list))" if "?Q' L = Some xs" "tag_of L = General_tag" "s \<in> set xs" for L xs s
      using that e [of L xs] by (auto split: if_split_asm)
    show "Tag g s \<in> dom (nodes ?k')" if "tasks ?k' s = Some ts" for s ts g
      using that d5 [of g] h(3) f5(2) by (simp split: if_split_asm)
  qed (use h(2) Q in simp_all)
  have "runs ?k' ?Q' t"
    using current_unqueued [OF ok', of t "main_struct stk"] f5 by (simp add: runs_def main_struct_def)
  then have "sched_inv ?k' ?Q'" using ok' unfolding sched_inv_def by blast
  moreover have "tid_pool_ok ?k' ?Q'" using pool b(2) f5 by (simp add: tid_pool_ok_def)
  ultimately show ?thesis using that [OF mm] f5 b(3,4) by (simp add: malloc_task_def)
qed

text \<open>\<open>task_init\<close> on a process whose waiting lists initialised before are \<open>Q0\<close>.\<close>

lemma task_init_result:
  assumes fresh: "tasks k = Map.empty" and q: "queues (nodes k) Q0" and e: "\<And>L xs. Q0 L = Some xs \<Longrightarrow> xs = []"
  obtains k' where "task_init k (Some t) stk = Inr (Returned (), k')"
    and "sched_inv k' (Q0(Ready_list \<mapsto> [], All_list \<mapsto> [t], Pool_list \<mapsto> [], Waiters Tid_lock \<mapsto> []))"
    and "tid_pool_ok k' (Q0(Ready_list \<mapsto> [], All_list \<mapsto> [t], Pool_list \<mapsto> [], Waiters Tid_lock \<mapsto> []))"
    and "current_task k' = Some t" and "main_task k' = Some t" and "live_tids k' = {1}"
    and "tasks k' = [t \<mapsto> main_struct stk]" and "task_all_nums k' = 1"
    and "kstate.more k' = kstate.more k" and "\<And>l. l \<noteq> Tid_lock \<Longrightarrow> locks k' l = locks k l"
    and "used (tid_bitmap k') = {0}" and "bits_cap (tid_bitmap k') = 1000800"
proof -
  let ?h3 = "list_init (list_init (list_init (nodes k) (clist_of Ready_list)) (clist_of All_list)) (clist_of Pool_list)"
  let ?Q = "Q0(Ready_list \<mapsto> [], All_list \<mapsto> [], Pool_list \<mapsto> [], Waiters Tid_lock \<mapsto> [])"
  obtain b where b: "tid_pool_init (k\<lparr>nodes := ?h3, task_all_nums := 0\<rparr>)
      = Inr (lock_init (k\<lparr>nodes := ?h3, task_all_nums := 0, tid_start := 1, tid_bitmap := b\<rparr>) Tid_lock)"
    "bitmap_ok b" "used b = {}" "bits_cap b = 1000800"
    using tid_pool_init_result [of "k\<lparr>nodes := ?h3, task_all_nums := 0\<rparr>"] by auto
  define k1 where "k1 = lock_init (k\<lparr>nodes := ?h3, task_all_nums := 0, tid_start := 1, tid_bitmap := b\<rparr>) Tid_lock"
  have f1: "tasks k1 = Map.empty" "nodes k1 = list_init ?h3 (clist_of (Waiters Tid_lock))" "tid_bitmap k1 = b"
    "locks k1 = (locks k)(Tid_lock := fresh_lock)" "tid_start k1 = 1" "task_all_nums k1 = 0" "kstate.more k1 = kstate.more k"
    using fresh by (simp_all add: k1_def lock_init_result)
  have q1: "queues (nodes k1) ?Q" unfolding f1(2) by (intro queues_list_init q)
  have e1: "xs = []" if "?Q L = Some xs" for L xs using that e by (auto split: if_split_asm)
  have pool: "tid_pool_ok k1 ?Q" using f1 b(2) fresh_lock_free by (simp add: tid_pool_ok_def)
  have Q': "?Q(All_list \<mapsto> [t]) = Q0(Ready_list \<mapsto> [], All_list \<mapsto> [t], Pool_list \<mapsto> [], Waiters Tid_lock \<mapsto> [])" by auto
  obtain k' where k': "make_main_task k1 (Some t) stk = Inr (Returned (), k')" "sched_inv k' (?Q(All_list \<mapsto> [t]))"
    "tid_pool_ok k' (?Q(All_list \<mapsto> [t]))" "current_task k' = Some t" "main_task k' = Some t"
    "used (tid_bitmap k') = {0}" "tasks k' = [t \<mapsto> main_struct stk]" "task_all_nums k' = 1"
    "kstate.more k' = kstate.more k1" "locks k' = locks k1" "bits_cap (tid_bitmap k') = bits_cap (tid_bitmap k1)"
    by (rule make_main_task_result [OF f1(1) q1 pool e1, where t = t and stk = stk]) (use b f1 in simp_all)
  have "task_init k (Some t) stk = Inr (Returned (), k')"
    using b(1) k'(1) by (simp add: task_init_def Let_def k1_def)
  then show ?thesis by (rule that) (use k' f1 b(4) in \<open>simp_all only: Q' live_tids_def, simp_all\<close>)
qed

section \<open>Properties\<close>

text \<open>
  C10. \<open>task_start\<close> with an empty pool and a name that fits creates a ready task: it returns the
  new structure, queued last on the ready queue and on the list of all tasks, with an unused task
  number, the given priority as its time slice, and a context that will enter \<open>task_entrance\<close> with the
  function and its argument on the new stack. No other task changes, the running task keeps running
  with interrupts on, and the invariant holds.
\<close>

theorem task_start_creates:
  assumes inv: "sched_inv k Q" and pool: "tid_pool_ok k Q" and ps: "Q Pool_list = Some []"
    and rs: "Q Ready_list = Some rs" and as: "Q All_list = Some as"
    and t: "tasks k t = None" and m: "main_task k \<noteq> Some t" and nm: "length nm < 32"
    and i: "i < 32767" "i < bits_cap (tid_bitmap k)" "i \<notin> used (tid_bitmap k)"
  shows "\<exists>k' ti. task_start k a (Some t) stk nm prio func arg = Inr (Returned (Some t), k')
    \<and> tasks k' = (tasks k)(t \<mapsto> new_task a nm prio stk ti func arg)
    \<and> sint ti \<notin> live_tids k \<and> live_tids k' = insert (sint ti) (live_tids k)
    \<and> sched_inv k' (Q(Ready_list \<mapsto> rs @ [t], All_list \<mapsto> as @ [t]))
    \<and> current_task k' = current_task k \<and> regs k' = regs k \<and> irq_on k'"
proof -
  let ?n = "lowest_free (tid_bitmap k)"
  have f: "?n \<notin> used (tid_bitmap k)" "?n \<le> i"
    using lowest_free_props [of i "tid_bitmap k"] i(2,3) by (simp_all add: bits_cap_def)
  obtain k' ti where k': "task_start k a (Some t) stk nm prio func arg = Inr (Returned (Some t), k')"
    "tasks k' = (tasks k)(t \<mapsto> new_task a nm prio stk ti func arg)" "ti = ucast (of_nat ?n + 1 :: 32 word)"
    "used (tid_bitmap k') = insert ?n (used (tid_bitmap k))"
    "sched_inv k' (Q(Ready_list \<mapsto> rs @ [t], All_list \<mapsto> as @ [t]))"
    "current_task k' = current_task k" "regs k' = regs k" "irq_on k'"
    using task_start_result [OF inv pool ps rs as t m nm i(2,3), of a stk prio func arg] by blast
  have s: "sint ti = int ?n + 1" using tid_of_index(1) [of ?n] f(2) i(1) k'(3) by simp
  have "sint ti \<notin> live_tids k" using f(1) by (auto simp: s live_tids_def)
  moreover have "live_tids k' = insert (sint ti) (live_tids k)" by (simp add: live_tids_def k'(4) s)
  ultimately show ?thesis using k' by blast
qed

definition demo_abi :: abi where
  "demo_abi = \<lparr>abi_task_entrance = 0x402000, abi_cs = 0x33, abi_ss = 0x2b\<rparr>"

theorem task_start_creates_witness:
  "\<exists>k'. task_start demo3 demo_abi (Some 7) 8192 ''worker'' 5 17 18 = Inr (Returned (Some 7), k')
    \<and> sched_inv k' (demo3_queues(Ready_list \<mapsto> [1, 2] @ [7], All_list \<mapsto> [0, 1, 2] @ [7]))"
proof -
  have "tasks demo3 7 = None" by (simp add: demo3_def demo_state_def)
  from task_start_creates [OF demo3_inv demo3_tids(1) demo3_simps(4,2,3) this, of "''worker''" 3 demo_abi 8192 5 17 18]
  show ?thesis by (auto simp: demo3_tids simp del: fun_upd_apply)
qed

text \<open>
  C25. \<open>task_start\<close> never reuses a dead task's structure: when the pool holds one, its status is
  \<open>TASK_DIED\<close>, the assertion after the pop wants it not to be, and the caller spins with the clock
  signal blocked.
\<close>

theorem task_start_pool_spins:
  assumes inv: "sched_inv k Q" and ps: "Q Pool_list = Some (p # ps)"
  shows "task_start k a m stk nm prio func arg = Inl Assert_spin"
proof -
  have ok: "lists_ok (interrupt_disable k) Q" using inv by (simp add: sched_inv_def)
  obtain tp where tp: "tasks k p = Some tp" "status tp = TASK_DIED"
    using lists_ok_memberD [OF ok ps, of p] by auto
  obtain h where h: "k_pop (interrupt_disable k) Pool_list = Inr (Some p, (interrupt_disable k)\<lparr>nodes := h\<rparr>)"
    by (rule k_pop_spec [OF lists_ok_queues [OF ok] ps])
  show ?thesis
    using k_empty_spec [OF lists_ok_queues [OF ok] ps] h tp
    by (simp add: task_start_def obtain_task_def)
qed

definition demo_dead :: kstate where
  "demo_dead = demo_state [(Ready_list, [1]), (All_list, [0, 1]), (Pool_list, [2]), (Waiters Tid_lock, [])]
     [(0, TASK_RUNNING), (1, TASK_READY), (2, TASK_DIED)] 0"

definition demo_dead_queues :: queue_view where
  "demo_dead_queues = map_of [(Ready_list, [1]), (All_list, [0, 1]), (Pool_list, [2]), (Waiters Tid_lock, [])]"

lemma demo_dead_inv: "sched_inv demo_dead demo_dead_queues"
  unfolding demo_dead_def demo_dead_queues_def
  by (rule demo_inv) (simp add: demo_ok_def general_members_def)

theorem task_start_pool_spins_witness:
  "task_start demo_dead demo_abi (Some 7) 8192 ''worker'' 5 17 18 = Inl Assert_spin"
  by (rule task_start_pool_spins [OF demo_dead_inv, of 2 "[]"]) (simp add: demo_dead_queues_def)

text \<open>
  C11. The exit of a task other than the main one: it leaves the list of all tasks, its structure
  joins the pool as dead, its number is free again, and the head of the ready queue runs with its
  saved registers; the invariant holds. The dead task's context is not saved.
\<close>

theorem task_exit_spec:
  assumes inv: "sched_inv k Q" and c: "current_task k = Some c" and tc: "tasks k c = Some tc"
    and m: "main_task k \<noteq> Some c" and as: "Q All_list = Some as" and ps: "Q Pool_list = Some ps"
    and pool: "tid_pool_ok k Q" and rs: "Q Ready_list = Some (nx # rs)"
    and n: "tid tc = of_nat (Suc n)" "n < 32767" "n < bits_cap (tid_bitmap k)"
  shows "\<exists>k'. task_exit k (Some c) = Inr (Switched, k') \<and> current_task k' = Some nx
    \<and> sched_inv k' (Q(All_list \<mapsto> remove1 c as, Pool_list \<mapsto> ps @ [c], Ready_list \<mapsto> rs))
    \<and> used (tid_bitmap k') = used (tid_bitmap k) - {n}
    \<and> status (the (tasks k' c)) = TASK_DIED
    \<and> (\<forall>r. gpr (regs k') r = gpr (task_context (the (tasks k nx))) r)"
proof -
  have ok: "lists_ok k Q" and st: "status tc = TASK_RUNNING" using inv c tc by (auto elim!: sched_invE)
  have nc: "nx \<noteq> c" using lists_ok_memberD [OF ok rs, of nx] tc st by auto
  obtain k1 k2 where k1: "task_exit_unlink k (Some c) = Inr k1" "tasks k1 = (tasks k)(c \<mapsto> tc\<lparr>status := TASK_DIED\<rparr>)"
    and k2: "release_tid k1 (tid tc) = Inr (Returned (), k2)"
    "lists_ok k2 (Q(All_list \<mapsto> remove1 c as, Pool_list \<mapsto> ps @ [c]))"
    "tasks k2 = (tasks k)(c \<mapsto> tc\<lparr>status := TASK_DIED\<rparr>)" "used (tid_bitmap k2) = used (tid_bitmap k) - {n}"
    by (rule task_exit_window [OF inv c tc m as ps pool n])
  have ok2: "lists_ok (interrupt_enable k2) (Q(All_list \<mapsto> remove1 c as, Pool_list \<mapsto> ps @ [c]))"
    using k2(2) by simp
  have rs2: "(Q(All_list \<mapsto> remove1 c as, Pool_list \<mapsto> ps @ [c])) Ready_list = Some (nx # rs)" using rs by simp
  obtain k' tn where k': "died_task_schedule (interrupt_enable k2) = Inr k'"
    "sched_inv k' (Q(All_list \<mapsto> remove1 c as, Pool_list \<mapsto> ps @ [c], Ready_list \<mapsto> rs))"
    "tasks (interrupt_enable k2) nx = Some tn" "current_task k' = Some nx"
    "tasks k' = (tasks (interrupt_enable k2))(nx \<mapsto> resumed tn)"
    "regs k' = gprs_from (task_context tn) (regs (interrupt_enable k2))" "tid_bitmap k' = tid_bitmap k2"
  proof (rule died_task_schedule_inv [OF ok2 rs2])
    fix k' tn
    assume a: "died_task_schedule (interrupt_enable k2) = Inr k'"
      "sched_inv k' (Q(All_list \<mapsto> remove1 c as, Pool_list \<mapsto> ps @ [c], Ready_list \<mapsto> rs))"
      "tasks (interrupt_enable k2) nx = Some tn" "current_task k' = Some nx"
      "tasks k' = (tasks (interrupt_enable k2))(nx \<mapsto> resumed tn)"
      "regs k' = gprs_from (task_context tn) (regs (interrupt_enable k2))"
      "sigmask k' = sigmask (interrupt_enable k2)" "locks k' = locks (interrupt_enable k2)"
      "tid_bitmap k' = tid_bitmap (interrupt_enable k2)"
    then show thesis by (intro that [of k' tn]) simp_all
  qed
  have "task_exit k (Some c) = Inr (Switched, k')"
    using k1 k2(1) k'(1) by (simp add: task_exit_def)
  then show ?thesis
    using k'(2,4-7) k'(3) k2(3,4) nc by (intro exI [of _ k']) simp
qed

text \<open>Task 1 runs, the main task and task 2 are ready.\<close>

definition demo_other :: kstate where
  "demo_other = demo_state [(Ready_list, [0, 2]), (All_list, [0, 1, 2]), (Pool_list, []), (Waiters Tid_lock, [])]
     [(0, TASK_READY), (1, TASK_RUNNING), (2, TASK_READY)] 1"

definition demo_other_queues :: queue_view where
  "demo_other_queues = map_of [(Ready_list, [0, 2]), (All_list, [0, 1, 2]), (Pool_list, []), (Waiters Tid_lock, [])]"

lemma demo_other_inv: "sched_inv demo_other demo_other_queues"
  unfolding demo_other_def demo_other_queues_def
  by (rule demo_inv) (simp add: demo_ok_def general_members_def)

lemma demo_other_simps:
  "current_task demo_other = Some 1" "tasks demo_other 1 = Some (demo_task 1 TASK_RUNNING)"
  "main_task demo_other \<noteq> Some 1" "demo_other_queues All_list = Some [0, 1, 2]"
  "demo_other_queues Pool_list = Some []" "demo_other_queues Ready_list = Some [0, 2]"
  "tid_pool_ok demo_other demo_other_queues" "tid (demo_task 1 TASK_RUNNING) = of_nat (Suc 1)"
  "1 < bits_cap (tid_bitmap demo_other)"
  by (simp_all add: demo_other_def demo_state_def demo_other_queues_def tid_pool_ok_def bitmap_ok_def
      bits_cap_def lock_free_def demo_lock_def demo_task_def)

theorem task_exit_spec_witness:
  "\<exists>k'. task_exit demo_other (Some 1) = Inr (Switched, k') \<and> current_task k' = Some 0"
  using task_exit_spec [OF demo_other_inv demo_other_simps(1-5,7,6,8) _ demo_other_simps(9)] by auto

text \<open>
  C26. A dead task can be scheduled again: \<open>task_exit\<close> lets interrupts in before it switches away.
  If the clock signal arrives in that window, \<open>schedule\<close> puts the exiting task back on the ready
  queue, as a ready task, while its structure is in the pool and off the list of all tasks.
\<close>

theorem dead_task_rescheduled:
  assumes inv: "sched_inv k Q" and c: "current_task k = Some c" and tc: "tasks k c = Some tc"
    and m: "main_task k \<noteq> Some c" and as: "Q All_list = Some as" and ps: "Q Pool_list = Some ps"
    and pool: "tid_pool_ok k Q" and rs: "Q Ready_list = Some (nx # rs)"
    and n: "tid tc = of_nat (Suc n)" "n < 32767" "n < bits_cap (tid_bitmap k)"
  shows "\<exists>k1 k2 k3. task_exit_unlink k (Some c) = Inr k1 \<and> release_tid k1 (tid tc) = Inr (Returned (), k2)
    \<and> irq_on k2 \<and> schedule k2 = Inr k3 \<and> status (the (tasks k3 c)) = TASK_READY
    \<and> queues (nodes k3) (Q(All_list \<mapsto> remove1 c as, Pool_list \<mapsto> ps @ [c], Ready_list \<mapsto> rs @ [c]))"
proof -
  let ?Q = "Q(All_list \<mapsto> remove1 c as, Pool_list \<mapsto> ps @ [c])"
  have ok: "lists_ok k Q" and st: "status tc = TASK_RUNNING" using inv c tc by (auto elim!: sched_invE)
  have nc: "nx \<noteq> c" using lists_ok_memberD [OF ok rs, of nx] tc st by auto
  obtain k1 k2 where k1: "task_exit_unlink k (Some c) = Inr k1"
    and k2: "release_tid k1 (tid tc) = Inr (Returned (), k2)" "lists_ok k2 ?Q" "irq_on k2"
    "tasks k2 = (tasks k)(c \<mapsto> tc\<lparr>status := TASK_DIED\<rparr>)" "current_task k2 = Some c"
    by (rule task_exit_window [OF inv c tc m as ps pool n])
  have t2: "tasks k2 c = Some (tc\<lparr>status := TASK_DIED\<rparr>)" using k2(4) by simp
  have u: "unqueued ?Q General_tag c" by (rule unqueued_status [OF k2(2) t2]) simp_all
  have rs2: "?Q Ready_list = Some (nx # rs)" using rs by simp
  obtain h n' rs' where s: "rr_step (c, nx # rs) = (n', rs')"
    "schedule k2 = Inr (k2\<lparr>nodes := h, tasks := switch_tasks (tasks k2) c (regs k2) n',
       current_task := Some n', regs := task_context (the (switch_tasks (tasks k2) c (regs k2) n' n'))\<rparr>)"
    "queues h (?Q(Ready_list \<mapsto> rs'))"
    by (rule schedule_result [OF k2(2,5) t2 u rs2])
  have e: "n' = nx" "rs' = rs @ [c]" using s(1) by (simp_all add: rr_step_def)
  have "status (the (switch_tasks (tasks k2) c (regs k2) nx c)) = TASK_READY"
    using t2 nc by (simp add: switch_tasks_def Let_def)
  then show ?thesis
    using k1 k2(1,3) s(2,3) unfolding e
    by (intro exI [of _ k1] exI [of _ k2] exI [of _ "k2\<lparr>nodes := h, tasks := switch_tasks (tasks k2) c (regs k2) nx,
       current_task := Some nx, regs := task_context (the (switch_tasks (tasks k2) c (regs k2) nx nx))\<rparr>"])
      (simp del: fun_upd_apply)
qed

theorem dead_task_rescheduled_witness:
  "\<exists>k3 (k2 :: kstate). irq_on k2 \<and> schedule k2 = Inr k3 \<and> status (the (tasks k3 1)) = TASK_READY
    \<and> queues (nodes k3) (demo_other_queues(All_list \<mapsto> remove1 1 [0, 1, 2], Pool_list \<mapsto> [] @ [1],
        Ready_list \<mapsto> [2] @ [1]))"
  using dead_task_rescheduled [OF demo_other_inv demo_other_simps(1-5,7,6,8) _ demo_other_simps(9)]
  by (auto simp del: fun_upd_apply)

text \<open>With an empty pool, or enough tasks alive, nothing is cleaned.\<close>

lemma clean_nothing:
  assumes inv: "sched_inv k Q" and n: "Q Pool_list = Some [] \<or> 8 \<le> sint (task_all_nums k)"
  shows "clean_dead_task k = Inr k"
proof -
  have ok: "lists_ok k Q" using inv by (simp add: sched_inv_def)
  obtain ps where ps: "Q Pool_list = Some ps" by (rule lists_ok_pool [OF ok])
  have e: "k_empty k Pool_list = Inr (ps = [])" by (rule k_empty_spec [OF lists_ok_queues [OF ok] ps])
  let ?n = "sint (task_all_nums k)"
  show ?thesis
  proof (cases "ps = []")
    case False
    then have "8 \<le> ?n" using n ps by auto
    then have "c_div ?n 8 = ?n div 8" "0 < ?n div 8" by (simp_all add: c_div_nonneg)
    moreover have "clean_loop k m = Some (Inr k)" if "0 < m" for m
      using e False that by (subst clean_loop.simps) auto
    ultimately show ?thesis using e False by (simp add: clean_dead_task_def Let_def)
  qed (use e in \<open>simp add: clean_dead_task_def\<close>)
qed

text \<open>
  C27. What \<open>clean_dead_task\<close> does, its loop condition being the negation of the intended one. With
  an empty pool, or with eight or more tasks alive, it frees nothing. With fewer than eight it
  frees exactly the first dead structure of a longer pool, and crashes in \<open>list_pop\<close> when the pool
  holds just one.
\<close>

theorem clean_dead_task_spec:
  assumes inv: "sched_inv k Q" and ps: "Q Pool_list = Some ps" and n: "0 \<le> sint (task_all_nums k)"
  shows "if ps = [] \<or> 8 \<le> sint (task_all_nums k) then clean_dead_task k = Inr k
    else if length ps = 1 then clean_dead_task k = Inl Null_deref
    else \<exists>k'. clean_dead_task k = Inr k' \<and> tasks k' = (tasks k)(hd ps := None)
      \<and> queues (nodes k') (Q(Pool_list \<mapsto> tl ps))"
proof -
  have ok: "lists_ok k Q" using inv by (simp add: sched_inv_def)
  note q = lists_ok_queues [OF ok]
  have e: "k_empty k Pool_list = Inr (ps = [])" by (rule k_empty_spec [OF q ps])
  let ?n = "sint (task_all_nums k)"
  have cnt: "c_div ?n 8 = ?n div 8" using n by (simp add: c_div_nonneg)
  consider "ps = []" | "ps \<noteq> []" "8 \<le> ?n" | p ps' where "ps = p # ps'" "?n < 8"
    by (cases ps) fastforce+
  then show ?thesis
  proof cases
    case 1
    then show ?thesis using clean_nothing [OF inv] ps by simp
  next
    case 2
    then show ?thesis using clean_nothing [OF inv] by simp
  next
    case 3
    then have "?n div 8 = 0" using n by simp
    then have c0: "clean_dead_task k = returns (clean_loop k 0)"
      using e 3 cnt by (simp add: clean_dead_task_def Let_def)
    have ps': "Q Pool_list = Some (p # ps')" using ps 3 by simp
    obtain h tp where h: "k_pop k Pool_list = Inr (Some p, k\<lparr>nodes := h\<rparr>)" "tasks k p = Some tp"
      "queues (nodes (free_task (k\<lparr>nodes := h\<rparr>) p)) (Q(Pool_list \<mapsto> ps'))"
      by (rule pool_head_free [OF ok ps'])
    let ?k' = "free_task (k\<lparr>nodes := h\<rparr>) p"
    have first: "clean_loop k 0 = clean_loop ?k' (-1)"
      using e 3 h by (subst clean_loop.simps) simp
    have e': "k_empty ?k' Pool_list = Inr (ps' = [])" by (rule k_empty_spec [OF h(3)]) simp
    show ?thesis
    proof (cases "ps' = []")
      case True
      have "k_pop ?k' Pool_list = Inl Null_deref"
        by (rule k_pop_empty [OF h(3)]) (simp add: True)
      then have "clean_loop ?k' (-1) = Some (Inl Null_deref)"
        using e' True by (subst clean_loop.simps) simp
      then show ?thesis using 3 True c0 first by simp
    next
      case False
      then have "clean_loop ?k' (-1) = Some (Inr ?k')" using e' by (subst clean_loop.simps) simp
      then have "clean_dead_task k = Inr ?k'" using c0 first by simp
      moreover have "tasks ?k' = (tasks k)(p := None)" by (simp add: free_task_def)
      ultimately show ?thesis using 3 False h(3) by (auto simp del: fun_upd_apply)
    qed
  qed
qed

theorem clean_dead_task_spec_witness: "clean_dead_task demo_dead = Inl Null_deref"
  using clean_dead_task_spec [OF demo_dead_inv, of "[2]"]
  by (simp add: demo_dead_queues_def demo_dead_def demo_state_def)

end
