(* ===== verification/Ioqueue.thy ===== *)
theory Ioqueue
  imports SyncInv
begin

text \<open>
  The character queue of device/ioqueue.c: a ring buffer of 64 bytes between a producer and a
  consumer task, which wait by blocking themselves. The first half models the code; the second
  states the contract of a bounded queue as a locale, specifies the two operations on scheduler
  states, proves them an instance of the contract, and shows what they transfer and how they deadlock.
\<close>

section \<open>The queue\<close>

definition bufsize :: int where "bufsize = 64"

record ioqueue =
  ioq_lock :: lock_id
  producer :: "task option"
  consumer :: "task option"
  buf :: "8 word list"
  head :: int
  tail :: int

definition ioqueue_init :: "'a kstate_scheme \<Rightarrow> ioqueue \<Rightarrow> 'a kstate_scheme \<times> ioqueue" where
  "ioqueue_init k q = (lock_init k (ioq_lock q), q\<lparr>consumer := None, producer := None, tail := 0, head := 0\<rparr>)"

definition next_pos :: "int \<Rightarrow> int" where
  "next_pos pos = c_mod (pos + 1) bufsize"

definition ioq_full :: "ioqueue \<Rightarrow> bool" where
  "ioq_full q \<longleftrightarrow> next_pos (head q) = tail q"

definition ioq_empty :: "ioqueue \<Rightarrow> bool" where
  "ioq_empty q \<longleftrightarrow> head q = tail q"

text \<open>The two members a \<open>struct task_struct **\<close> argument can point to.\<close>

datatype role = Producer | Consumer

definition waiter :: "role \<Rightarrow> ioqueue \<Rightarrow> task option" where
  "waiter r q = (case r of Producer \<Rightarrow> producer q | Consumer \<Rightarrow> consumer q)"

definition set_waiter :: "role \<Rightarrow> task option \<Rightarrow> ioqueue \<Rightarrow> ioqueue" where
  "set_waiter r t q = (case r of Producer \<Rightarrow> q\<lparr>producer := t\<rparr> | Consumer \<Rightarrow> q\<lparr>consumer := t\<rparr>)"

definition ioq_wait :: "'a kstate_scheme \<Rightarrow> ioqueue \<Rightarrow> role \<Rightarrow> ('a kstate_scheme \<times> ioqueue) res" where
  "ioq_wait k q r =
     bnd (assert_c (waiter r q = None)) (\<lambda>_.
     (let q = set_waiter r (current_task k) q
      in bnd (task_block k TASK_BLOCKED) (\<lambda>k. Inr (k, q))))"

definition wakeup :: "'a kstate_scheme \<Rightarrow> ioqueue \<Rightarrow> role \<Rightarrow> ('a kstate_scheme \<times> ioqueue) res" where
  "wakeup k q r =
     bnd (assert_c (waiter r q \<noteq> None)) (\<lambda>_.
     bnd (task_unblock k (waiter r q)) (\<lambda>k.
     Inr (k, set_waiter r None q)))"

text \<open>
  The body of the waiting loops up to the point where the task has left the processor: either it
  waits for the queue's lock, or it has the lock and has blocked itself. When it runs again after
  \<open>ioq_wait\<close> it gives the lock back and tests the queue again.
\<close>

definition ioq_wait_round ::
    "'a kstate_scheme \<Rightarrow> ioqueue \<Rightarrow> role \<Rightarrow> ('v flow \<times> 'a kstate_scheme \<times> ioqueue) res" where
  "ioq_wait_round k q r =
     bnd (lock_acquire k (ioq_lock q)) (\<lambda>(fl, k).
     (case fl of Switched \<Rightarrow> Inr (Switched, k, q)
      | Returned _ \<Rightarrow> bnd (ioq_wait k q r) (\<lambda>(k, q). Inr (Switched, k, q))))"

text \<open>The accesses to the buffer.\<close>

definition ioq_take :: "ioqueue \<Rightarrow> (8 word \<times> ioqueue) res" where
  "ioq_take q =
     bnd (check (0 \<le> tail q \<and> tail q < int (length (buf q))) Wild_deref) (\<lambda>_.
     (let byte = buf q ! nat (tail q) in Inr (byte, q\<lparr>tail := next_pos (tail q)\<rparr>)))"

definition ioq_put :: "ioqueue \<Rightarrow> 8 word \<Rightarrow> ioqueue res" where
  "ioq_put q byte =
     bnd (check (0 \<le> head q \<and> head q < int (length (buf q))) Wild_deref) (\<lambda>_.
     Inr (q\<lparr>buf := (buf q)[nat (head q) := byte], head := next_pos (head q)\<rparr>))"

definition ioq_getchar ::
    "'a kstate_scheme \<Rightarrow> ioqueue \<Rightarrow> (8 word flow \<times> 'a kstate_scheme \<times> ioqueue) res" where
  "ioq_getchar k q =
     (if ioq_empty q then ioq_wait_round k q Consumer
      else bnd (ioq_take q) (\<lambda>(byte, q).
        if producer q \<noteq> None
        then bnd (wakeup k q Producer) (\<lambda>(k, q). Inr (Returned byte, k, q))
        else Inr (Returned byte, k, q)))"

definition ioq_putchar ::
    "'a kstate_scheme \<Rightarrow> ioqueue \<Rightarrow> 8 word \<Rightarrow> (unit flow \<times> 'a kstate_scheme \<times> ioqueue) res" where
  "ioq_putchar k q byte =
     (if ioq_full q then ioq_wait_round k q Producer
      else bnd (ioq_put q byte) (\<lambda>q.
        if consumer q \<noteq> None
        then bnd (wakeup k q Consumer) (\<lambda>(k, q). Inr (Returned (), k, q))
        else Inr (Returned (), k, q)))"

text \<open>The calls from the point where the waiting task runs again.\<close>

definition ioq_getchar_resume ::
    "'a kstate_scheme \<Rightarrow> ioqueue \<Rightarrow> (8 word flow \<times> 'a kstate_scheme \<times> ioqueue) res" where
  "ioq_getchar_resume k q = bnd (lock_release k (ioq_lock q)) (\<lambda>k. ioq_getchar k q)"

definition ioq_putchar_resume ::
    "'a kstate_scheme \<Rightarrow> ioqueue \<Rightarrow> 8 word \<Rightarrow> (unit flow \<times> 'a kstate_scheme \<times> ioqueue) res" where
  "ioq_putchar_resume k q byte = bnd (lock_release k (ioq_lock q)) (\<lambda>k. ioq_putchar k q byte)"

definition ioq_length :: "ioqueue \<Rightarrow> 32 word" where
  "ioq_length q =
     (if head q \<ge> tail q then word_of_int (head q - tail q)
      else word_of_int (bufsize - (tail q - head q)))"

section \<open>The bounded queue interface\<close>

text \<open>
  \<open>view s\<close> is the queue a state holds, of at most \<open>cap\<close> elements; storing and fetching may block,
  which they do not do while there is room, or something to fetch. The client lemma: what was put
  into a queue with enough room comes out in the same order.
\<close>

locale bounded_queue =
  fixes ok :: "'s \<Rightarrow> bool" and view :: "'s \<Rightarrow> 'e list" and cap :: nat
    and put :: "'s \<Rightarrow> 'e \<Rightarrow> (unit flow \<times> 's) res" and get :: "'s \<Rightarrow> ('e flow \<times> 's) res"
  assumes put_law: "ok s \<Longrightarrow> length (view s) < cap \<Longrightarrow>
      \<exists>s'. put s x = Inr (Returned (), s') \<and> ok s' \<and> view s' = view s @ [x]"
    and get_law: "ok s \<Longrightarrow> view s = x # xs \<Longrightarrow> \<exists>s'. get s = Inr (Returned x, s') \<and> ok s' \<and> view s' = xs"
begin

fun put_all :: "'s \<Rightarrow> 'e list \<Rightarrow> (unit flow \<times> 's) res" where
  "put_all s [] = Inr (Returned (), s)"
| "put_all s (x # xs) = bnd (put s x) (\<lambda>(fl, s). (case fl of Switched \<Rightarrow> Inr (Switched, s) | Returned _ \<Rightarrow> put_all s xs))"

fun get_n :: "'s \<Rightarrow> nat \<Rightarrow> ('e list flow \<times> 's) res" where
  "get_n s 0 = Inr (Returned [], s)"
| "get_n s (Suc n) = bnd (get s) (\<lambda>(fl, s). (case fl of Switched \<Rightarrow> Inr (Switched, s)
    | Returned x \<Rightarrow> bnd (get_n s n) (\<lambda>(fl, s). (case fl of Switched \<Rightarrow> Inr (Switched, s) | Returned xs \<Rightarrow> Inr (Returned (x # xs), s)))))"

lemma put_all_law:
  "ok s \<Longrightarrow> length (view s @ xs) \<le> cap \<Longrightarrow> \<exists>s'. put_all s xs = Inr (Returned (), s') \<and> ok s' \<and> view s' = view s @ xs"
proof (induction xs arbitrary: s)
  case (Cons x xs)
  obtain s1 where s1: "put s x = Inr (Returned (), s1)" "ok s1" "view s1 = view s @ [x]"
    using put_law [of s x] Cons.prems by auto
  then obtain s' where "put_all s1 xs = Inr (Returned (), s')" "ok s'" "view s' = view s1 @ xs"
    using Cons.IH [of s1] Cons.prems by auto
  with s1 show ?case by simp
qed simp

lemma get_n_law:
  "ok s \<Longrightarrow> view s = xs @ ys \<Longrightarrow> \<exists>s'. get_n s (length xs) = Inr (Returned xs, s') \<and> ok s' \<and> view s' = ys"
proof (induction xs arbitrary: s)
  case (Cons x xs)
  obtain s1 where s1: "get s = Inr (Returned x, s1)" "ok s1" "view s1 = xs @ ys"
    using get_law [of s x "xs @ ys"] Cons.prems by auto
  with Cons.IH [of s1] show ?case by auto
qed simp

lemma transfer:
  assumes "ok s" and "length (view s @ xs) \<le> cap"
  shows "\<exists>s1 s2. put_all s xs = Inr (Returned (), s1) \<and> ok s1 \<and> view s1 = view s @ xs
    \<and> get_n s1 (length (view s @ xs)) = Inr (Returned (view s @ xs), s2) \<and> ok s2 \<and> view s2 = []"
proof -
  obtain s1 where s1: "put_all s xs = Inr (Returned (), s1)" "ok s1" "view s1 = view s @ xs"
    using put_all_law [of s xs] assms by auto
  with get_n_law [of s1 "view s @ xs" "[]"] show ?thesis by auto
qed

end

section \<open>The contents of the ring buffer\<close>

definition ioq_ok :: "ioqueue \<Rightarrow> bool" where
  "ioq_ok q \<longleftrightarrow> length (buf q) = 64 \<and> 0 \<le> head q \<and> head q < 64 \<and> 0 \<le> tail q \<and> tail q < 64"

definition ioq_count :: "ioqueue \<Rightarrow> nat" where
  "ioq_count q = nat ((head q - tail q) mod 64)"

definition contents :: "ioqueue \<Rightarrow> 8 word list" where
  "contents q = map (\<lambda>i. buf q ! nat ((tail q + int i) mod 64)) [0..<ioq_count q]"

lemma length_contents [simp]: "length (contents q) = ioq_count q"
  by (simp add: contents_def)

lemma next_pos_mod: "0 \<le> p \<Longrightarrow> next_pos p = (p + 1) mod 64"
  by (simp add: next_pos_def c_mod_nonneg bufsize_def)

lemma next_pos_cases: "0 \<le> p \<Longrightarrow> p < 64 \<Longrightarrow> next_pos p = (if p = 63 then 0 else p + 1)"
  by (simp add: next_pos_mod)

lemma ring_diff:
  fixes h t :: int
  assumes "0 \<le> h" "h < 64" "0 \<le> t" "t < 64"
  shows "(h - t) mod 64 = (if t \<le> h then h - t else h - t + 64)"
proof (cases "t \<le> h")
  case False
  have "(h - t) mod 64 = (h - t + 64) mod 64" by simp
  also have "\<dots> = h - t + 64" using assms False by (intro mod_pos_pos_trivial) simp_all
  finally show ?thesis using False by simp
qed (use assms in simp)

lemma ring_add:
  fixes t i :: int
  assumes "0 \<le> t" "t < 64" "0 \<le> i" "i < 64"
  shows "(t + i) mod 64 = (if t + i < 64 then t + i else t + i - 64)"
proof (cases "t + i < 64")
  case False
  have "(t + i) mod 64 = (t + i - 64) mod 64" by simp
  also have "\<dots> = t + i - 64" using assms False by (intro mod_pos_pos_trivial) simp_all
  finally show ?thesis using False by simp
qed (use assms in simp)

lemma ioq_count_cases:
  "ioq_ok q \<Longrightarrow> int (ioq_count q) = (if tail q \<le> head q then head q - tail q else head q - tail q + 64)"
  by (simp add: ioq_count_def ioq_ok_def ring_diff)

lemma ioq_full_iff: "ioq_ok q \<Longrightarrow> ioq_full q \<longleftrightarrow> ioq_count q = 63"
  using ioq_count_cases [of q]
  by (auto simp: ioq_full_def ioq_ok_def next_pos_cases split: if_splits)

lemma ioq_empty_iff: "ioq_ok q \<Longrightarrow> ioq_empty q \<longleftrightarrow> contents q = []"
  using ioq_count_cases [of q]
  by (auto simp: ioq_empty_def contents_def ioq_ok_def split: if_splits)

lemma ioq_count_le: "ioq_ok q \<Longrightarrow> ioq_count q \<le> 63"
  using ioq_count_cases [of q] by (simp add: ioq_ok_def split: if_splits)

lemma ioq_put_law:
  assumes ok: "ioq_ok q" and n: "\<not> ioq_full q"
  shows "ioq_put q b = Inr (q\<lparr>buf := (buf q)[nat (head q) := b], head := next_pos (head q)\<rparr>)"
    and "ioq_ok (q\<lparr>buf := (buf q)[nat (head q) := b], head := next_pos (head q)\<rparr>)"
    and "contents (q\<lparr>buf := (buf q)[nat (head q) := b], head := next_pos (head q)\<rparr>) = contents q @ [b]"
proof -
  let ?q = "q\<lparr>buf := (buf q)[nat (head q) := b], head := next_pos (head q)\<rparr>"
  have r: "0 \<le> head q" "head q < 64" "0 \<le> tail q" "tail q < 64" "length (buf q) = 64"
    using ok by (simp_all add: ioq_ok_def)
  show "ioq_put q b = Inr ?q" using r by (simp add: ioq_put_def)
  show ok': "ioq_ok ?q" using r by (simp add: ioq_ok_def next_pos_mod)
  have "ioq_count q \<noteq> 63" using n ioq_full_iff [OF ok] by simp
  then have cnt: "ioq_count ?q = Suc (ioq_count q)"
    using r ioq_count_cases [OF ok] ioq_count_cases [OF ok']
    by (simp add: next_pos_cases split: if_splits)
  have lt: "ioq_count q < 64" using ioq_count_le [OF ok] by simp
  have pos: "(tail q + int (ioq_count q)) mod 64 = head q"
    using r lt ioq_count_cases [OF ok] by (simp add: ring_add split: if_splits)
  have ne: "nat ((tail q + int i) mod 64) \<noteq> nat (head q)" if "i < ioq_count q" for i
    using that r lt ioq_count_cases [OF ok] by (auto simp: ring_add eq_nat_nat_iff split: if_splits)
  show "contents ?q = contents q @ [b]"
    using r ne [symmetric] pos by (simp add: contents_def cnt nth_list_update)
qed

lemma ioq_take_law:
  assumes ok: "ioq_ok q" and c: "contents q = b # bs"
  shows "ioq_take q = Inr (b, q\<lparr>tail := next_pos (tail q)\<rparr>)"
    and "ioq_ok (q\<lparr>tail := next_pos (tail q)\<rparr>)" and "contents (q\<lparr>tail := next_pos (tail q)\<rparr>) = bs"
proof -
  let ?q = "q\<lparr>tail := next_pos (tail q)\<rparr>"
  have r: "0 \<le> head q" "head q < 64" "0 \<le> tail q" "tail q < 64" "length (buf q) = 64"
    using ok by (simp_all add: ioq_ok_def)
  have n: "ioq_count q = Suc (length bs)" using c length_contents [of q] by simp
  have "contents q ! 0 = buf q ! nat (tail q)"
    using n r by (simp add: contents_def del: upt_Suc)
  then show "ioq_take q = Inr (b, ?q)" using r c by (simp add: ioq_take_def Let_def)
  show ok': "ioq_ok ?q" using r by (simp add: ioq_ok_def next_pos_mod)
  have cnt: "ioq_count ?q = length bs"
    using n r ioq_count_cases [OF ok] ioq_count_cases [OF ok']
    by (simp add: next_pos_cases split: if_splits)
  show "contents ?q = bs"
  proof (rule nth_equalityI)
    show "length (contents ?q) = length bs" using cnt by simp
    fix i assume "i < length (contents ?q)"
    then have i: "i < length bs" using cnt by simp
    have "bs ! i = contents q ! Suc i" using c by simp
    also have "\<dots> = buf q ! nat ((tail q + int (Suc i)) mod 64)"
      using i n by (simp add: contents_def del: upt_Suc)
    also have "(tail q + int (Suc i)) mod 64 = (next_pos (tail q) + int i) mod 64"
      using r by (simp add: next_pos_mod mod_simps algebra_simps)
    finally show "contents ?q ! i = bs ! i" using i cnt by (simp add: contents_def)
  qed
qed

section \<open>Blocking in a queue\<close>

lemma unqueued_updI:
  "unqueued Q g t \<Longrightarrow> (tag_of L = g \<Longrightarrow> t \<notin> set xs) \<Longrightarrow> unqueued (Q(L \<mapsto> xs)) g t"
  by (auto simp: unqueued_def)

lemma task_block_inv:
  assumes inv: "sched_inv k Q" and c: "current_task k = Some c" and rs: "Q Ready_list = Some (n # rs)"
    and st: "blocking_status st"
  obtains k' where "task_block k st = Inr k'" and "sched_inv k' (Q(Ready_list \<mapsto> rs))"
    and "current_task k' = Some n" and "locks k' = locks k" and "sigmask k' = sigmask k"
    and "status (the (tasks k' c)) = st" and "unqueued (Q(Ready_list \<mapsto> rs)) General_tag c"
proof -
  obtain tc where tc: "tasks k c = Some tc" and ok: "lists_ok k Q" and u: "unqueued Q General_tag c"
    and run: "status tc = TASK_RUNNING"
    using inv c by (auto elim!: sched_invE)
  let ?tc = "tc\<lparr>status := st\<rparr>"
  let ?k = "k\<lparr>tasks := (tasks k)(c \<mapsto> ?tc)\<rparr>"
  have ok': "lists_ok ?k Q"
  proof (rule lists_okI)
    fix L xs t assume L: "Q L = Some xs" and t: "t \<in> set xs"
    show "\<exists>ts. tasks ?k t = Some ts \<and> list_status L (status ts)"
    proof (cases "t = c")
      case True
      have "L = All_list"
      proof (cases L)
        case Pool_list
        then show ?thesis using lists_ok_not_in [OF ok tc, of L xs] L t True run by simp
      qed (use unqueuedD [OF u L] t True in auto)
      then show ?thesis using True st by (auto simp: blocking_status_def)
    next
      case False
      then show ?thesis using lists_ok_memberD [OF ok L t] by simp
    qed
  qed (use ok lists_ok_known [OF ok] lists_ok_tag [OF ok] tc in \<open>auto simp: lists_ok_def split: if_splits\<close>)
  have nst: "status ?tc \<noteq> TASK_READY" using st by (auto simp: blocking_status_def)
  have nc: "n \<noteq> c" using unqueuedD [OF u rs] by simp
  obtain k' tn where k': "block_task_schedule ?k = Inr k'" "sched_inv k' (Q(Ready_list \<mapsto> rs))"
    "current_task k' = Some n" "locks k' = locks ?k" "sigmask k' = sigmask ?k"
    "tasks k' = (tasks ?k)(n \<mapsto> resumed tn, c \<mapsto> ?tc\<lparr>task_context := gprs_from (regs ?k) (task_context ?tc)\<rparr>)"
    by (rule block_task_schedule_inv [OF ok' rs, of c ?tc])
      (use c nst in \<open>simp_all del: fun_upd_apply add: fun_upd_same\<close>)
  have "unqueued (Q(Ready_list \<mapsto> rs)) General_tag c"
    using unqueuedD [OF u rs] by (intro unqueued_updI [OF u]) simp
  then show ?thesis
    using that [of k'] k' c tc st by (simp add: task_block_def)
qed

section \<open>Storing and fetching one byte\<close>

text \<open>A task recorded in the queue as waiting is blocked and on no queue of the scheduler.\<close>

definition waiting_ok :: "'a kstate_scheme \<Rightarrow> queue_view \<Rightarrow> task option \<Rightarrow> bool" where
  "waiting_ok k Q w \<longleftrightarrow> (\<forall>t. w = Some t \<longrightarrow> t \<in> set (the (Q All_list)) \<and> unqueued Q General_tag t
     \<and> (\<exists>ts. tasks k t = Some ts \<and> status ts = TASK_BLOCKED))"

lemma wakeup_inv:
  assumes inv: "sched_inv k Q" and rs: "Q Ready_list = Some rs" and w: "waiter r q = Some t"
    and ok: "waiting_ok k Q (waiter r q)"
  obtains k' where "wakeup k q r = Inr (k', set_waiter r None q)"
    and "sched_inv k' (Q(Ready_list \<mapsto> t # rs))" and "current_task k' = current_task k" and "locks k' = locks k"
proof -
  obtain ts where ts: "tasks k t = Some ts" "status ts = TASK_BLOCKED" and u: "unqueued Q General_tag t"
    and a: "t \<in> set (the (Q All_list))"
    using ok w by (auto simp: waiting_ok_def)
  obtain k' where "task_unblock k (Some t) = Inr k'" "sched_inv k' (Q(Ready_list \<mapsto> t # rs))"
    "current_task k' = current_task k" "locks k' = locks k"
    by (rule task_unblock_inv [OF inv ts(1) _ u a rs]) (use ts in \<open>simp add: blocking_status_def\<close>)
  then show ?thesis using that [of k'] w by (simp add: wakeup_def)
qed

lemma contents_waiter [simp]:
  "contents (set_waiter r t q) = contents q" "ioq_ok (set_waiter r t q) = ioq_ok q"
  "waiter r (set_waiter r t q) = t" "ioq_lock (set_waiter r t q) = ioq_lock q"
  by (cases r; simp add: set_waiter_def waiter_def contents_def ioq_count_def ioq_ok_def)+

text \<open>
  \<open>ioq_putchar\<close> on a queue that is not full: the byte is the last of the queue's contents
  afterwards and the caller keeps running. A consumer recorded as waiting is no longer recorded
  and is the next task to run; the scheduler's invariant holds.
\<close>

lemma ioq_putchar_spec:
  assumes inv: "sched_inv k Q" and rs: "Q Ready_list = Some rs" and ok: "ioq_ok q"
    and nf: "length (contents q) < 63" and w: "waiting_ok k Q (consumer q)"
  shows "\<exists>k' q'. ioq_putchar k q b = Inr (Returned (), k', q') \<and> ioq_ok q' \<and> contents q' = contents q @ [b]
    \<and> consumer q' = None \<and> producer q' = producer q \<and> ioq_lock q' = ioq_lock q \<and> current_task k' = current_task k \<and> locks k' = locks k
    \<and> sched_inv k' (Q(Ready_list \<mapsto> (case consumer q of None \<Rightarrow> rs | Some t \<Rightarrow> t # rs)))"
proof -
  have full: "\<not> ioq_full q" using nf ioq_full_iff [OF ok] by simp
  let ?q = "q\<lparr>buf := (buf q)[nat (head q) := b], head := next_pos (head q)\<rparr>"
  note p = ioq_put_law [OF ok full, of b]
  show ?thesis
  proof (cases "consumer q")
    case None
    have "Q(Ready_list \<mapsto> rs) = Q" using rs by auto
    then show ?thesis using None full p inv by (simp add: ioq_putchar_def)
  next
    case (Some t)
    then have wt: "waiter Consumer ?q = Some t" by (simp add: waiter_def)
    obtain k' where k': "wakeup k ?q Consumer = Inr (k', set_waiter Consumer None ?q)"
      "sched_inv k' (Q(Ready_list \<mapsto> t # rs))" "current_task k' = current_task k" "locks k' = locks k"
      by (rule wakeup_inv [OF inv rs wt]) (use w in \<open>simp add: waiter_def\<close>)
    have "ioq_putchar k q b = Inr (Returned (), k', set_waiter Consumer None ?q)"
      using full p(1) k'(1) Some by (simp add: ioq_putchar_def)
    moreover have "consumer (set_waiter Consumer None ?q) = None" "producer (set_waiter Consumer None ?q) = producer q"
      "ioq_lock (set_waiter Consumer None ?q) = ioq_lock q" by (simp_all add: set_waiter_def)
    ultimately show ?thesis using p(2,3) k' Some by auto
  qed
qed

text \<open>
  \<open>ioq_getchar\<close> on a queue that is not empty returns the first byte of the contents and
  removes it. A producer recorded as waiting is no longer recorded and is the next task to run.
\<close>

lemma ioq_getchar_spec:
  assumes inv: "sched_inv k Q" and rs: "Q Ready_list = Some rs" and ok: "ioq_ok q"
    and c: "contents q = b # bs" and w: "waiting_ok k Q (producer q)"
  shows "\<exists>k' q'. ioq_getchar k q = Inr (Returned b, k', q') \<and> ioq_ok q' \<and> contents q' = bs
    \<and> producer q' = None \<and> consumer q' = consumer q \<and> current_task k' = current_task k
    \<and> sched_inv k' (Q(Ready_list \<mapsto> (case producer q of None \<Rightarrow> rs | Some t \<Rightarrow> t # rs)))"
proof -
  have ne: "\<not> ioq_empty q" using c ioq_empty_iff [OF ok] by simp
  let ?q = "q\<lparr>tail := next_pos (tail q)\<rparr>"
  note p = ioq_take_law [OF ok c]
  show ?thesis
  proof (cases "producer q")
    case None
    have "Q(Ready_list \<mapsto> rs) = Q" using rs by auto
    then show ?thesis using None ne p inv by (simp add: ioq_getchar_def)
  next
    case (Some t)
    then have wt: "waiter Producer ?q = Some t" by (simp add: waiter_def)
    obtain k' where k': "wakeup k ?q Producer = Inr (k', set_waiter Producer None ?q)"
      "sched_inv k' (Q(Ready_list \<mapsto> t # rs))" "current_task k' = current_task k" "locks k' = locks k"
      by (rule wakeup_inv [OF inv rs wt]) (use w in \<open>simp add: waiter_def\<close>)
    have "ioq_getchar k q = Inr (Returned b, k', set_waiter Producer None ?q)"
      using ne p(1) k'(1) Some by (simp add: ioq_getchar_def)
    moreover have "producer (set_waiter Producer None ?q) = None" "consumer (set_waiter Producer None ?q) = consumer q"
      by (simp_all add: set_waiter_def)
    ultimately show ?thesis using p(2,3) k' Some by auto
  qed
qed

section \<open>The two operations are a bounded queue\<close>

text \<open>A state of the scheduler and the queue in which no task waits for the queue.\<close>

definition nobody_waits :: "queue_view \<Rightarrow> task option \<Rightarrow> 'a kstate_scheme \<times> ioqueue \<Rightarrow> bool" where
  "nobody_waits Q c s \<longleftrightarrow> (case s of (k, q) \<Rightarrow> sched_inv k Q \<and> Q Ready_list \<noteq> None \<and> current_task k = c
     \<and> ioq_ok q \<and> consumer q = None \<and> producer q = None)"

interpretation ioq: bounded_queue "nobody_waits Q c" "\<lambda>(k, q). contents q" 63
  "\<lambda>(k, q) b. ioq_putchar k q b" "\<lambda>(k, q). ioq_getchar k q" for Q c
proof
  fix s :: "'a kstate_scheme \<times> ioqueue" and b
  assume ok: "nobody_waits Q c s" and "length (case s of (k, q) \<Rightarrow> contents q) < 63"
  then obtain k q rs where s: "s = (k, q)" "sched_inv k Q" "Q Ready_list = Some rs" "current_task k = c" "ioq_ok q"
    "consumer q = None" "producer q = None" "length (contents q) < 63"
    by (auto simp: nobody_waits_def)
  have "Q(Ready_list \<mapsto> rs) = Q" using s(3) by auto
  then show "\<exists>s'. (case s of (k, q) \<Rightarrow> \<lambda>b. ioq_putchar k q b) b = Inr (Returned (), s') \<and> nobody_waits Q c s'
      \<and> (case s' of (k, q) \<Rightarrow> contents q) = (case s of (k, q) \<Rightarrow> contents q) @ [b]"
    using ioq_putchar_spec [OF s(2,3,5,8), of b] s by (auto simp: nobody_waits_def waiting_ok_def)
next
  fix s :: "'a kstate_scheme \<times> ioqueue" and b bs
  assume ok: "nobody_waits Q c s" and "(case s of (k, q) \<Rightarrow> contents q) = b # bs"
  then obtain k q rs where s: "s = (k, q)" "sched_inv k Q" "Q Ready_list = Some rs" "current_task k = c" "ioq_ok q"
    "consumer q = None" "producer q = None" "contents q = b # bs"
    by (auto simp: nobody_waits_def)
  have "Q(Ready_list \<mapsto> rs) = Q" using s(3) by auto
  then show "\<exists>s'. (case s of (k, q) \<Rightarrow> ioq_getchar k q) = Inr (Returned b, s') \<and> nobody_waits Q c s'
      \<and> (case s' of (k, q) \<Rightarrow> contents q) = bs"
    using ioq_getchar_spec [OF s(2,3,5,8)] s by (auto simp: nobody_waits_def waiting_ok_def)
qed

text \<open>A task that stores the bytes of a list, and one that fetches a number of bytes.\<close>

fun putchars :: "'a kstate_scheme \<Rightarrow> ioqueue \<Rightarrow> 8 word list \<Rightarrow> (unit flow \<times> 'a kstate_scheme \<times> ioqueue) res" where
  "putchars k q [] = Inr (Returned (), k, q)"
| "putchars k q (b # bs) = bnd (ioq_putchar k q b) (\<lambda>(fl, k, q).
     (case fl of Switched \<Rightarrow> Inr (Switched, k, q) | Returned _ \<Rightarrow> putchars k q bs))"

fun getchars :: "'a kstate_scheme \<Rightarrow> ioqueue \<Rightarrow> nat \<Rightarrow> (8 word list flow \<times> 'a kstate_scheme \<times> ioqueue) res" where
  "getchars k q 0 = Inr (Returned [], k, q)"
| "getchars k q (Suc n) = bnd (ioq_getchar k q) (\<lambda>(fl, k, q).
     (case fl of Switched \<Rightarrow> Inr (Switched, k, q)
      | Returned b \<Rightarrow> bnd (getchars k q n) (\<lambda>(fl, k, q).
          (case fl of Switched \<Rightarrow> Inr (Switched, k, q) | Returned bs \<Rightarrow> Inr (Returned (b # bs), k, q)))))"

lemma putchars_same:
  assumes "sched_inv k Q" "Q Ready_list = Some rs" and "ioq_ok q" "consumer q = None" and "length (contents q @ bs) \<le> 63"
    and "putchars k q bs = Inr (Returned (), k1, q1)"
  shows "locks k1 = locks k \<and> ioq_lock q1 = ioq_lock q"
  using assms
proof (induction bs arbitrary: k q)
  case (Cons b bs)
  then have n: "length (contents q) < 63" "waiting_ok k Q (consumer q)" by (simp_all add: waiting_ok_def)
  have "Q(Ready_list \<mapsto> rs) = Q" using Cons.prems(2) by auto
  then show ?case using ioq_putchar_spec [OF Cons.prems(1-3) n, of b] Cons.IH Cons.prems by fastforce
qed simp

lemma putchars_put_all: "ioq.put_all (k, q) bs = putchars k q bs"
  by (induction bs arbitrary: k q) (auto intro!: bnd_cong split: flow.splits)

lemma getchars_get_n: "ioq.get_n (k, q) n = getchars k q n"
  by (induction n arbitrary: k q) (auto intro!: bnd_cong split: flow.splits)

lemma chars_transfer:
  assumes inv: "sched_inv k Q" "Q Ready_list = Some rs" and q: "ioq_ok q" "consumer q = None" "producer q = None"
    and n: "length (contents q @ bs) \<le> 63"
  obtains k1 q1 k2 q2 where "putchars k q bs = Inr (Returned (), k1, q1)" and "contents q1 = contents q @ bs" and "ioq_ok q1"
    and "sched_inv k1 Q" and "current_task k1 = current_task k" and "consumer q1 = None"
    and "getchars k1 q1 (length (contents q @ bs)) = Inr (Returned (contents q @ bs), k2, q2)" and "contents q2 = []"
    and "ioq_ok q2" and "sched_inv k2 Q" and "current_task k2 = current_task k"
proof -
  have "nobody_waits Q (current_task k) (k, q)" using inv q by (simp add: nobody_waits_def)
  from ioq.transfer [OF this, of bs] show ?thesis
    using n that by (auto simp: putchars_put_all getchars_get_n nobody_waits_def)
qed

section \<open>Properties\<close>

text \<open>
  C31. The queue keeps the order: up to 63 bytes stored by \<open>ioq_putchar\<close> in an empty queue are
  fetched by \<open>ioq_getchar\<close> unchanged and in order, without either task leaving the processor, and
  the queue is empty again; a consumer that waited is made ready, first in the ready queue. On a
  queue of 63 bytes \<open>ioq_putchar\<close> enters its waiting loop, on an empty one \<open>ioq_getchar\<close> does.
\<close>

theorem ioq_transfer:
  assumes inv: "sched_inv k Q" and rs: "Q Ready_list = Some rs" and ok: "ioq_ok q" and e: "contents q = []"
    and n: "length bs \<le> 63" and w: "waiting_ok k Q (consumer q)" and p: "producer q = None"
  shows "\<exists>k1 q1 k2 q2. putchars k q bs = Inr (Returned (), k1, q1) \<and> contents q1 = bs
    \<and> getchars k1 q1 (length bs) = Inr (Returned bs, k2, q2) \<and> contents q2 = [] \<and> ioq_ok q2
    \<and> current_task k2 = current_task k
    \<and> sched_inv k2 (Q(Ready_list \<mapsto> (if bs = [] then [] else case consumer q of None \<Rightarrow> [] | Some t \<Rightarrow> [t]) @ rs))
    \<and> (length bs = 63 \<longrightarrow> ioq_putchar k1 q1 b = ioq_wait_round k1 q1 Producer)
    \<and> ioq_getchar k2 q2 = ioq_wait_round k2 q2 Consumer"
proof (cases bs)
  case Nil
  have "Q(Ready_list \<mapsto> rs) = Q" using rs by auto
  then show ?thesis using Nil inv ok e ioq_empty_iff [OF ok] by (auto simp: ioq_getchar_def)
next
  case (Cons b1 bs1)
  let ?rs = "case consumer q of None \<Rightarrow> rs | Some t \<Rightarrow> t # rs"
  let ?Q = "Q(Ready_list \<mapsto> ?rs)"
  have "length (contents q) < 63" using e by simp
  from ioq_putchar_spec [OF inv rs ok this w, of b1]
  obtain k0 q0 where k0: "ioq_putchar k q b1 = Inr (Returned (), k0, q0)" "ioq_ok q0" "contents q0 = [b1]"
    "consumer q0 = None" "producer q0 = None" "current_task k0 = current_task k" "sched_inv k0 ?Q"
    using e p by auto
  have bs: "contents q0 @ bs1 = bs" using k0(3) Cons by simp
  have m: "length (contents q0 @ bs1) \<le> 63" using bs n by simp
  obtain k1 q1 k2 q2 where t: "putchars k0 q0 bs1 = Inr (Returned (), k1, q1)" "contents q1 = bs" "ioq_ok q1"
    "getchars k1 q1 (length bs) = Inr (Returned bs, k2, q2)" "contents q2 = []" "ioq_ok q2" "sched_inv k2 ?Q"
    "current_task k2 = current_task k0"
    by (rule chars_transfer [OF k0(7) fun_upd_same k0(2,4,5) m]) (unfold bs, rule that)
  have "length bs = 63 \<longrightarrow> ioq_putchar k1 q1 b = ioq_wait_round k1 q1 Producer"
    using ioq_full_iff [OF t(3)] length_contents [of q1] t(2) by (auto simp: ioq_putchar_def)
  moreover have "ioq_getchar k2 q2 = ioq_wait_round k2 q2 Consumer"
    using ioq_empty_iff [OF t(6)] t(5) by (simp add: ioq_getchar_def)
  moreover have "putchars k q bs = Inr (Returned (), k1, q1)" using k0(1) t(1) Cons by simp
  moreover have "?rs = (if bs = [] then [] else case consumer q of None \<Rightarrow> [] | Some t \<Rightarrow> [t]) @ rs"
    using Cons by (simp split: option.split)
  ultimately show ?thesis
    using t(2,4-7) t(8) k0(6) by (intro exI [of _ k1] exI [of _ q1] exI [of _ k2] exI [of _ q2]) simp
qed

definition demo_ioq :: ioqueue where
  "demo_ioq = \<lparr>ioq_lock = User_lock 0, producer = None, consumer = None, buf = replicate 64 0,
     head = 0, tail = 0\<rparr>"

lemma demo_ioq_simps [simp]:
  "ioq_ok demo_ioq" "contents demo_ioq = []" "producer demo_ioq = None" "consumer demo_ioq = None"
  "ioq_lock demo_ioq = User_lock 0"
  by (simp_all add: demo_ioq_def ioq_ok_def contents_def ioq_count_def)

theorem ioq_transfer_witness:
  "\<exists>k1 q1 k2 q2. putchars demo3 demo_ioq [1, 2, 3] = Inr (Returned (), k1, q1)
    \<and> getchars k1 q1 3 = Inr (Returned [1, 2, 3 :: 8 word], k2, q2)"
proof -
  have "waiting_ok demo3 demo3_queues (consumer demo_ioq)" by (simp add: waiting_ok_def)
  from ioq_transfer [OF demo3_inv _ _ _ _ this, of "[1, 2]" "[1, 2, 3]"]
  show ?thesis by (simp add: numeral_3_eq_3 del: putchars.simps getchars.simps) blast
qed

text \<open>What happens once the consumer goes on to wait although the queue has become full.\<close>

lemma stale_wait_blocks:
  assumes inv: "sched_inv k Q" and c: "current_task k = Some c" and rs: "Q Ready_list = Some (p # i # rs)"
    and free: "lock_free (locks k (ioq_lock q))" and w: "Q (Waiters (ioq_lock q)) = Some []"
    and ok: "ioq_ok q" and full: "length (contents q) = 63" and cons: "consumer q = None"
  shows "\<exists>k1 q1 k2. ioq_wait_round k q Consumer = Inr (Switched :: 8 word flow, k1, q1)
    \<and> current_task k1 = Some p \<and> ioq_putchar k1 q1 b = Inr (Switched, k2, q1)
    \<and> current_task k2 = Some i \<and> holder (locks k2 (ioq_lock q)) = Some c
    \<and> consumer q1 = Some c \<and> contents q1 = contents q
    \<and> sched_inv k2 (Q(Waiters (ioq_lock q) \<mapsto> [p], Ready_list \<mapsto> rs))
    \<and> unqueued (Q(Waiters (ioq_lock q) \<mapsto> [p], Ready_list \<mapsto> rs)) General_tag c"
proof -
  let ?l = "ioq_lock q" and ?q = "set_waiter Consumer (Some c) q"
  obtain k0 where k0: "lock_acquire k ?l = Inr (Returned (), k0)" "sched_inv k0 Q"
    "lock_held (locks k0 ?l) c" "current_task k0 = Some c"
    using lock_acquire_free [OF inv c free] inv c by (auto simp: lock_held_def)
  obtain k1 where k1: "task_block k0 TASK_BLOCKED = Inr k1" "sched_inv k1 (Q(Ready_list \<mapsto> i # rs))"
    "current_task k1 = Some p" "locks k1 = locks k0" "unqueued (Q(Ready_list \<mapsto> i # rs)) General_tag c"
    by (rule task_block_inv [OF k0(2,4) rs, of TASK_BLOCKED]) (simp_all add: blocking_status_def)
  have r1: "ioq_wait_round k q Consumer = Inr (Switched :: 8 word flow, k1, ?q)"
    using k0(1,4) k1(1) cons by (simp add: ioq_wait_round_def ioq_wait_def waiter_def)
  have pc: "p \<noteq> c" using inv c rs unqueuedD [of Q General_tag c Ready_list "p # i # rs"]
    by (auto elim!: sched_invE)
  let ?k = "interrupt_disable k1"
  have v: "sema_val ?k ?l = 0" using k0(3) k1(4) by (simp add: lock_held_def sema_val_def)
  obtain k2 where k2: "sema_down_loop ?k ?l = Inr (Switched, k2)"
    "sched_inv k2 (Q(Ready_list \<mapsto> i # rs, Waiters ?l \<mapsto> [] @ [p], Ready_list \<mapsto> rs))"
    "current_task k2 = Some i" "locks k2 = locks ?k"
    by (rule sema_down_loop_wait [of ?k "Q(Ready_list \<mapsto> i # rs)" p ?l "[]" i rs])
      (use k1 v w in simp_all)
  have ql: "ioq_full ?q" using full ioq_full_iff [of ?q] ok by (metis contents_waiter(1,2) length_contents)
  have r2: "ioq_putchar k1 ?q b = Inr (Switched, k2, ?q)"
    using ql k2(1) k0(3) k1(3,4) pc
    by (simp add: ioq_putchar_def ioq_wait_round_def lock_acquire_def sema_down_def lock_held_def)
  have Q: "Q(Ready_list \<mapsto> i # rs, Waiters ?l \<mapsto> [] @ [p], Ready_list \<mapsto> rs) = Q(Waiters ?l \<mapsto> [p], Ready_list \<mapsto> rs)"
    by auto
  have "c \<notin> set (i # rs)" using unqueuedD [OF k1(5), of Ready_list "i # rs"] by simp
  then have "unqueued (Q(Ready_list \<mapsto> i # rs, Waiters ?l \<mapsto> [p], Ready_list \<mapsto> rs)) General_tag c"
    by (intro unqueued_updI [OF unqueued_updI [OF k1(5)]]) (use pc in simp_all)
  then have "unqueued (Q(Waiters ?l \<mapsto> [p], Ready_list \<mapsto> rs)) General_tag c"
    by (simp add: fun_upd_twist [of Ready_list "Waiters ?l"])
  moreover have "consumer ?q = Some c" by (simp add: set_waiter_def)
  moreover have "holder (locks k2 ?l) = Some c" using k2(4) k1(4) k0(3) by (simp add: lock_held_def)
  ultimately show ?thesis using r1 r2 k1(3) k2(2,3) Q by auto
qed

text \<open>
  C32. Deadlock: the consumer tests the queue before it takes the lock and does not test again. It
  finds the queue empty and is preempted before it acquires the lock; the producer fills the queue,
  waking nobody because no consumer is recorded yet, and is preempted in turn; the consumer, running
  again, blocks on a queue that is full, holding the lock; the producer, with one more byte to
  store, waits for that lock. Both are blocked and each waits for the other, while the remaining
  task runs.
\<close>

theorem ioq_deadlock:
  assumes inv: "sched_inv k Q" and c: "current_task k = Some c" and rs: "Q Ready_list = Some [p, i]"
    and free: "lock_free (locks k (ioq_lock q))" and w: "Q (Waiters (ioq_lock q)) = Some []"
    and ok: "ioq_ok q" and e: "contents q = []" and nobody: "consumer q = None" "producer q = None" and n: "length bs = 63"
  shows "\<exists>k1 k2 q1 k3 k4 k5 q2 k6. ioq_getchar k q = ioq_wait_round k q Consumer
    \<and> schedule k = Inr k1 \<and> current_task k1 = Some p
    \<and> putchars k1 q bs = Inr (Returned (), k2, q1) \<and> contents q1 = bs
    \<and> schedule k2 = Inr k3 \<and> current_task k3 = Some i \<and> schedule k3 = Inr k4 \<and> current_task k4 = Some c
    \<and> ioq_wait_round k4 q1 Consumer = Inr (Switched :: 8 word flow, k5, q2) \<and> current_task k5 = Some p
    \<and> ioq_putchar k5 q2 b = Inr (Switched, k6, q2) \<and> current_task k6 = Some i
    \<and> contents q2 = bs \<and> consumer q2 = Some c \<and> holder (locks k6 (ioq_lock q)) = Some c
    \<and> sched_inv k6 (Q(Waiters (ioq_lock q) \<mapsto> [p], Ready_list \<mapsto> []))
    \<and> unqueued (Q(Waiters (ioq_lock q) \<mapsto> [p], Ready_list \<mapsto> [])) General_tag c"
proof -
  obtain k1 where k1: "schedule k = Inr k1" "sched_inv k1 (Q(Ready_list \<mapsto> [i, c]))" "current_task k1 = Some p" "locks k1 = locks k"
    by (rule schedule_inv [OF inv c rs]) (auto simp: rr_step_def)
  obtain k2 q1 where k2: "putchars k1 q bs = Inr (Returned (), k2, q1)" "contents q1 = bs" "ioq_ok q1" "consumer q1 = None"
    "sched_inv k2 (Q(Ready_list \<mapsto> [i, c]))" "current_task k2 = Some p" "locks k2 = locks k" "ioq_lock q1 = ioq_lock q"
  proof -
    note s = k1(2) fun_upd_same [of Q Ready_list "Some [i, c]"] ok nobody(1)
    have m: "length (contents q @ bs) \<le> 63" using e n by simp
    obtain k2 q1 k2' q2 where t: "putchars k1 q bs = Inr (Returned (), k2, q1)" "contents q1 = contents q @ bs" "ioq_ok q1"
      "sched_inv k2 (Q(Ready_list \<mapsto> [i, c]))" "current_task k2 = current_task k1" "consumer q1 = None"
      by (rule chars_transfer [OF s nobody(2) m]) blast
    with putchars_same [OF s m t(1)] k1(3,4) e that show ?thesis by simp
  qed
  obtain k3 where k3: "schedule k2 = Inr k3" "sched_inv k3 (Q(Ready_list \<mapsto> [c, p]))" "current_task k3 = Some i" "locks k3 = locks k"
    by (rule schedule_inv [OF k2(5,6), of "[i, c]"]) (use k2(7) in \<open>auto simp: rr_step_def\<close>)
  obtain k4 where k4: "schedule k3 = Inr k4" "sched_inv k4 (Q(Ready_list \<mapsto> [p, i]))" "current_task k4 = Some c" "locks k4 = locks k"
    by (rule schedule_inv [OF k3(2,3), of "[c, p]"]) (use k3(4) in \<open>auto simp: rr_step_def\<close>)
  have Q4: "sched_inv k4 Q" using k4(2) rs by (metis fun_upd_triv)
  obtain k5 q2 k6 where "ioq_wait_round k4 q1 Consumer = Inr (Switched :: 8 word flow, k5, q2)" "current_task k5 = Some p"
    "ioq_putchar k5 q2 b = Inr (Switched, k6, q2)" "current_task k6 = Some i" "holder (locks k6 (ioq_lock q)) = Some c"
    "consumer q2 = Some c" "contents q2 = bs" "sched_inv k6 (Q(Waiters (ioq_lock q) \<mapsto> [p], Ready_list \<mapsto> []))"
    "unqueued (Q(Waiters (ioq_lock q) \<mapsto> [p], Ready_list \<mapsto> [])) General_tag c"
    using stale_wait_blocks [OF Q4 k4(3) rs, of q1 b] k2 k4(4) free w n by auto
  moreover have "ioq_getchar k q = ioq_wait_round k q Consumer" using ioq_empty_iff [OF ok] e by (simp add: ioq_getchar_def)
  ultimately show ?thesis using k1(1,3) k2(1,2) k3(1,3) k4(1,3) by blast
qed

theorem ioq_deadlock_witness:
  "\<exists>k1 k2 q1 k3 k4 k5 q2 k6. schedule demo3 = Inr k1 \<and> putchars k1 demo_ioq (replicate 63 65) = Inr (Returned (), k2, q1)
    \<and> schedule k2 = Inr k3 \<and> schedule k3 = Inr k4 \<and> ioq_wait_round k4 q1 Consumer = Inr (Switched :: 8 word flow, k5, q2)
    \<and> ioq_putchar k5 q2 66 = Inr (Switched, k6, q2) \<and> current_task k6 = Some 2"
  using ioq_deadlock [OF demo3_inv _ _ _ _ _ _ _ _, of 0 1 2 demo_ioq "replicate 63 65" 66]
  by (auto simp: lock_free_def demo_lock_def)

end
