(* ===== verification/TimerList.thy ===== *)
theory TimerList
  imports Prelude
begin

text \<open>
  The circular doubly linked lists of interrupt/timer.c: a head node and timer nodes linked both
  ways. \<open>ring h a xs\<close> says that the heap holds the list with head \<open>a\<close> and the nodes \<open>xs\<close>; each
  operation is specified on it.
\<close>

section \<open>Nodes and operations\<close>

record 'p list_timer =
  pPrev :: 'p
  pNext :: 'p

type_synonym 'p theap = "'p \<rightharpoonup> 'p list_timer"

definition t_get :: "'p theap \<Rightarrow> 'p \<Rightarrow> 'p list_timer res" where
  "t_get h p = (case h p of None \<Rightarrow> Inl Wild_deref | Some n \<Rightarrow> Inr n)"

definition t_set_prev :: "'p theap \<Rightarrow> 'p \<Rightarrow> 'p \<Rightarrow> 'p theap res" where
  "t_set_prev h p v = bnd (t_get h p) (\<lambda>n. Inr (h(p \<mapsto> n\<lparr>pPrev := v\<rparr>)))"

definition t_set_next :: "'p theap \<Rightarrow> 'p \<Rightarrow> 'p \<Rightarrow> 'p theap res" where
  "t_set_next h p v = bnd (t_get h p) (\<lambda>n. Inr (h(p \<mapsto> n\<lparr>pNext := v\<rparr>)))"

definition list_timer_insert :: "'p theap \<Rightarrow> 'p \<Rightarrow> 'p \<Rightarrow> 'p \<Rightarrow> 'p theap res" where
  "list_timer_insert h pNew pPrv pNxt =
     bnd (t_set_prev h pNxt pNew) (\<lambda>h.
     bnd (t_set_next h pNew pNxt) (\<lambda>h.
     bnd (t_set_prev h pNew pPrv) (\<lambda>h.
     t_set_next h pPrv pNew)))"

definition list_timer_insert_head :: "'p theap \<Rightarrow> 'p \<Rightarrow> 'p \<Rightarrow> 'p theap res" where
  "list_timer_insert_head h pNew pHead =
     bnd (t_get h pHead) (\<lambda>n. list_timer_insert h pNew pHead (pNext n))"

definition list_timer_insert_tail :: "'p theap \<Rightarrow> 'p \<Rightarrow> 'p \<Rightarrow> 'p theap res" where
  "list_timer_insert_tail h pNew pHead =
     bnd (t_get h pHead) (\<lambda>n. list_timer_insert h pNew (pPrev n) pHead)"

definition list_timer_replace :: "'p theap \<Rightarrow> 'p \<Rightarrow> 'p \<Rightarrow> 'p theap res" where
  "list_timer_replace h pOld pNew =
     bnd (t_get h pOld) (\<lambda>old.
     bnd (t_set_next h pNew (pNext old)) (\<lambda>h.
     bnd (t_get h pNew) (\<lambda>new.
     bnd (t_set_prev h (pNext new) pNew) (\<lambda>h.
     bnd (t_get h pOld) (\<lambda>old.
     bnd (t_set_prev h pNew (pPrev old)) (\<lambda>h.
     bnd (t_get h pNew) (\<lambda>new.
     t_set_next h (pPrev new) pNew)))))))"

definition list_timer_replace_init :: "'p theap \<Rightarrow> 'p \<Rightarrow> 'p \<Rightarrow> 'p theap res" where
  "list_timer_replace_init h pOld pNew =
     bnd (list_timer_replace h pOld pNew) (\<lambda>h.
     bnd (t_set_next h pOld pOld) (\<lambda>h.
     t_set_prev h pOld pOld))"

text \<open>The unlinking part of \<open>delete_timer\<close>.\<close>

definition list_timer_unlink :: "'p theap \<Rightarrow> 'p \<Rightarrow> 'p theap res" where
  "list_timer_unlink h p =
     bnd (t_get h p) (\<lambda>n.
     bnd (t_set_next h (pPrev n) (pNext n)) (\<lambda>h.
     bnd (t_get h p) (\<lambda>n. t_set_prev h (pNext n) (pPrev n))))"

definition self_node :: "'p \<Rightarrow> 'p list_timer" where
  "self_node p = \<lparr>pPrev = p, pNext = p\<rparr>"

text \<open>\<open>init_array_list_timer\<close> on the array whose element \<open>i\<close> is at \<open>arr i\<close>.\<close>

fun init_array_list_timer :: "'p theap \<Rightarrow> (nat \<Rightarrow> 'p) \<Rightarrow> nat \<Rightarrow> 'p theap" where
  "init_array_list_timer h arr 0 = h"
| "init_array_list_timer h arr (Suc n) = (init_array_list_timer h arr n)(arr n \<mapsto> self_node (arr n))"

section \<open>Rings\<close>

text \<open>A chain of nodes between \<open>p\<close> and \<open>q\<close>, linked both ways, the end nodes not included.\<close>

fun seg :: "'p theap \<Rightarrow> 'p \<Rightarrow> 'p list \<Rightarrow> 'p \<Rightarrow> bool" where
  "seg h p [] q \<longleftrightarrow> True"
| "seg h p (x # xs) q \<longleftrightarrow> h x = Some \<lparr>pPrev = p, pNext = hd (xs @ [q])\<rparr> \<and> seg h x xs q"

definition ring :: "'p theap \<Rightarrow> 'p \<Rightarrow> 'p list \<Rightarrow> bool" where
  "ring h a xs \<longleftrightarrow> distinct (a # xs)
     \<and> h a = Some \<lparr>pPrev = last (a # xs), pNext = hd (xs @ [a])\<rparr> \<and> seg h a xs a"

lemma seg_append:
  "seg h p (xs @ ys) q \<longleftrightarrow> seg h p xs (hd (ys @ [q])) \<and> seg h (last (p # xs)) ys q"
  by (induction xs arbitrary: p) (auto simp: hd_append)

lemma seg_cong: "(\<And>x. x \<in> set xs \<Longrightarrow> h' x = h x) \<Longrightarrow> seg h' p xs q = seg h p xs q"
  by (induction xs arbitrary: p) auto

lemma seg_dom: "seg h p xs q \<Longrightarrow> set xs \<subseteq> dom h"
  by (induction xs arbitrary: p) auto

lemma ring_dom: "ring h a xs \<Longrightarrow> set (a # xs) \<subseteq> dom h"
  using seg_dom [of h a xs a] by (auto simp: ring_def)

lemma ring_cong: "(\<And>x. x \<in> set (a # xs) \<Longrightarrow> h' x = h x) \<Longrightarrow> ring h' a xs = ring h a xs"
  using seg_cong [of xs h' h] by (simp add: ring_def)

lemma ring_empty: "h a = Some (self_node a) \<Longrightarrow> ring h a []"
  by (simp add: ring_def self_node_def)

lemma node_upd [simp]:
  "(m :: 'p list_timer)\<lparr>pNext := a, pPrev := b\<rparr> = \<lparr>pPrev = b, pNext = a\<rparr>"
  "(m :: 'p list_timer)\<lparr>pPrev := b, pNext := a\<rparr> = \<lparr>pPrev = b, pNext = a\<rparr>"
  by (cases m; simp)+

lemma t_get_Some [simp]: "h p = Some n \<Longrightarrow> t_get h p = Inr n"
  by (simp add: t_get_def)

text \<open>Insertion at the tail.\<close>

lemma insert_tail_ring:
  assumes r: "ring h a xs" and n: "n \<notin> set (a # xs)" and d: "n \<in> dom h"
  obtains h' where "list_timer_insert_tail h n a = Inr h'" and "ring h' a (xs @ [n])"
    and "\<And>x. x \<notin> set (n # a # xs) \<Longrightarrow> h' x = h x" and "dom h' = dom h"
proof (cases xs rule: rev_cases)
  case Nil
  obtain m where m: "h n = Some m" using d by auto
  let ?h = "h(a \<mapsto> \<lparr>pPrev = n, pNext = n\<rparr>, n \<mapsto> \<lparr>pPrev = a, pNext = a\<rparr>)"
  have ha: "h a = Some \<lparr>pPrev = a, pNext = a\<rparr>" using r Nil by (simp add: ring_def)
  have ne: "n \<noteq> a" "a \<noteq> n" using n by auto
  have "list_timer_insert_tail h n a = Inr ?h"
    using ha m ne by (simp add: list_timer_insert_tail_def list_timer_insert_def t_set_prev_def t_set_next_def fun_upd_twist)
  moreover have "ring ?h a (xs @ [n])" using n Nil by (simp add: ring_def)
  moreover have "dom ?h = dom h" using ha m by auto
  ultimately show ?thesis using that by auto
next
  case (snoc ys y)
  obtain m where m: "h n = Some m" using d by auto
  have ha: "h a = Some \<lparr>pPrev = y, pNext = hd (ys @ [y])\<rparr>" and sg: "seg h a (ys @ [y]) a"
    and dist: "distinct (a # ys @ [y])"
    using r snoc by (auto simp: ring_def hd_append)
  have hy: "h y = Some \<lparr>pPrev = last (a # ys), pNext = a\<rparr>" and sy: "seg h a ys y"
    using sg by (auto simp: seg_append)
  let ?h = "h(a \<mapsto> \<lparr>pPrev = n, pNext = hd (ys @ [y])\<rparr>, n \<mapsto> \<lparr>pPrev = y, pNext = a\<rparr>,
      y \<mapsto> \<lparr>pPrev = last (a # ys), pNext = n\<rparr>)"
  have ne: "y \<noteq> a" "n \<noteq> a" "n \<noteq> y" "y \<notin> set ys" "n \<notin> set ys" "a \<notin> set ys"
    using dist n snoc by auto
  have "list_timer_insert_tail h n a = Inr ?h"
    using ha hy m ne by (simp add: list_timer_insert_tail_def list_timer_insert_def t_set_prev_def t_set_next_def)
  moreover have "seg ?h a ys y"
    using sy ne by (subst seg_cong [of ys ?h h]) auto
  then have "ring ?h a (xs @ [n])"
    using ne dist snoc by (auto simp: ring_def seg_append hd_append)
  moreover have "\<And>x. x \<notin> set (n # a # xs) \<Longrightarrow> ?h x = h x" using snoc by simp
  moreover have "dom ?h = dom h" using ha m hy by auto
  ultimately show ?thesis by (rule that)
qed

text \<open>Replacing the head: the list moves to the new head and the old one becomes an empty list.\<close>

lemmas replace_defs = list_timer_replace_init_def list_timer_replace_def t_set_prev_def t_set_next_def fun_upd_twist

lemma replace_init_long:
  assumes r: "ring h a (z # zs @ [y])" and n: "n \<notin> set (a # z # zs @ [y])" and m: "h n = Some m"
  obtains h' where "list_timer_replace_init h a n = Inr h'" and "ring h' n (z # zs @ [y])" and "ring h' a []"
    and "\<And>x. x \<notin> set (n # a # z # zs @ [y]) \<Longrightarrow> h' x = h x" and "dom h' = dom h"
proof -
  have ha: "h a = Some \<lparr>pPrev = y, pNext = z\<rparr>" and sg: "seg h a (z # zs @ [y]) a"
    using r by (auto simp: ring_def)
  have hz: "h z = Some \<lparr>pPrev = a, pNext = hd (zs @ [y])\<rparr>" and sz: "seg h z zs y"
    and hy: "h y = Some \<lparr>pPrev = last (z # zs), pNext = a\<rparr>"
    using sg by (auto simp: seg_append hd_append)
  have ne: "y \<noteq> a" "n \<noteq> a" "n \<noteq> y" "z \<noteq> a" "z \<noteq> y" "z \<noteq> n"
    "z \<notin> set zs" "y \<notin> set zs" "n \<notin> set zs" "a \<notin> set zs" "distinct zs"
    using r n by (auto simp: ring_def)
  let ?h = "h(n \<mapsto> \<lparr>pPrev = y, pNext = z\<rparr>, z \<mapsto> \<lparr>pPrev = n, pNext = hd (zs @ [y])\<rparr>,
      y \<mapsto> \<lparr>pPrev = last (z # zs), pNext = n\<rparr>, a \<mapsto> \<lparr>pPrev = a, pNext = a\<rparr>)"
  have "list_timer_replace_init h a n = Inr ?h" using ha hy hz m ne by (simp add: replace_defs)
  moreover have "seg ?h z zs y" using sz ne by (subst seg_cong [of zs ?h h]) auto
  then have "ring ?h n (z # zs @ [y])" "ring ?h a []"
    using ne by (auto simp: ring_def seg_append hd_append)
  moreover have "\<And>x. x \<notin> set (n # a # z # zs @ [y]) \<Longrightarrow> ?h x = h x" by simp
  moreover have "dom ?h = dom h" using ha m hy hz by auto
  ultimately show ?thesis by (rule that)
qed

lemma replace_init_ring:
  assumes r: "ring h a xs" and n: "n \<notin> set (a # xs)" and d: "n \<in> dom h"
  obtains h' where "list_timer_replace_init h a n = Inr h'" and "ring h' n xs" and "ring h' a []"
    and "\<And>x. x \<notin> set (n # a # xs) \<Longrightarrow> h' x = h x" and "dom h' = dom h"
proof -
  obtain m where m: "h n = Some m" using d by auto
  consider "xs = []" | y where "xs = [y]" | z zs y where "xs = z # zs @ [y]"
    by (metis append_Cons append_self_conv2 list.exhaust rev_exhaust)
  then show ?thesis
  proof cases
    case 1
    have ha: "h a = Some \<lparr>pPrev = a, pNext = a\<rparr>" using r 1 by (simp add: ring_def)
    let ?h = "h(n \<mapsto> \<lparr>pPrev = n, pNext = n\<rparr>, a \<mapsto> \<lparr>pPrev = a, pNext = a\<rparr>)"
    have ne: "n \<noteq> a" "a \<noteq> n" using n by auto
    have "list_timer_replace_init h a n = Inr ?h" using ha m ne by (simp add: replace_defs)
    moreover have "ring ?h n xs" "ring ?h a []" using n 1 by (simp_all add: ring_def)
    moreover have "dom ?h = dom h" using ha m by auto
    ultimately show ?thesis using that by auto
  next
    case (2 y)
    have ha: "h a = Some \<lparr>pPrev = y, pNext = y\<rparr>" and hy: "h y = Some \<lparr>pPrev = a, pNext = a\<rparr>"
      using r 2 by (simp_all add: ring_def)
    let ?h = "h(n \<mapsto> \<lparr>pPrev = y, pNext = y\<rparr>, y \<mapsto> \<lparr>pPrev = n, pNext = n\<rparr>, a \<mapsto> \<lparr>pPrev = a, pNext = a\<rparr>)"
    have ne: "y \<noteq> a" "n \<noteq> a" "n \<noteq> y" using r n 2 by (auto simp: ring_def)
    have "list_timer_replace_init h a n = Inr ?h" using ha hy m ne by (simp add: replace_defs)
    moreover have "ring ?h n xs" "ring ?h a []" using ne 2 by (simp_all add: ring_def)
    moreover have "dom ?h = dom h" using ha m hy by auto
    ultimately show ?thesis using that 2 by auto
  next
    case (3 z zs y)
    show ?thesis by (rule replace_init_long [of h a z zs y n m]) (use r n m 3 that in auto)
  qed
qed

end
