(* ===== verification/TimerWheel.thy ===== *)
theory TimerWheel
  imports TaskLife TimerList
begin

text \<open>
  The timing wheel: interrupt/timer.c and include/timer.h. The state of the scheduler is extended
  by the timer manager. Its five arrays of list heads and the timer nodes are the addresses of
  one heap of list nodes; the rest of a timer node is kept by its address. What \<open>malloc\<close>, the clock
  and the user's callback functions return is a parameter.
\<close>

section \<open>State\<close>

definition TVN_BITS :: nat where "TVN_BITS = 6"
definition TVR_BITS :: nat where "TVR_BITS = 8"
definition TVN_SIZE :: nat where "TVN_SIZE = 2 ^ TVN_BITS"
definition TVR_SIZE :: nat where "TVR_SIZE = 2 ^ TVR_BITS"
definition TVN_MASK :: "32 word" where "TVN_MASK = of_nat TVN_SIZE - 1"
definition TVR_MASK :: "32 word" where "TVR_MASK = of_nat TVR_SIZE - 1"

text \<open>
  \<open>Slot l i\<close> is the head \<open>arrListTimer\<open>l\<close>[i]\<close>, \<open>Timer n\<close> the member \<open>ltTimer\<close> of the node at
  address \<open>n\<close>; the other two are the heads on the stack of \<open>cascade_timer\<close> (and of
  \<open>delete_array_list_timer\<close>) and of \<open>run_timer\<close>.
\<close>

datatype tptr = Slot nat nat | Timer nat | Loc_cascade | Loc_expire

text \<open>The callbacks the library itself uses, and those of user code.\<close>

datatype callback = Fn_clean_dead_task | Fn_collaborative_helper | Fn_user nat

datatype param = Task_param "task option" | Manager_param | Data_param "64 word"

record timer_node =
  uExpires :: "32 word"
  uPeriod :: "32 word"
  timerFn :: callback
  pParam :: param

datatype mgr_ptr = Mgr_null | Mgr_live | Mgr_freed

record tstate = kstate +
  timer_manager :: mgr_ptr
  uExitFlag :: "32 word"
  uJiffies :: "32 word"
  theap :: "tptr theap"
  timers :: "nat \<rightharpoonup> timer_node"
  clock_granularity :: "32 word"

text \<open>An access through \<open>timer_manager\<close>.\<close>

definition mgr :: "'a tstate_scheme \<Rightarrow> unit res" where
  "mgr s = (case timer_manager s of Mgr_null \<Rightarrow> Inl Null_deref | Mgr_freed \<Rightarrow> Inl Wild_deref | Mgr_live \<Rightarrow> Inr ())"

definition get_timer :: "'a tstate_scheme \<Rightarrow> nat \<Rightarrow> timer_node res" where
  "get_timer s n = (case timers s n of None \<Rightarrow> Inl Wild_deref | Some t \<Rightarrow> Inr t)"

text \<open>From the address of \<open>ltTimer\<close> to the node around it; a list head is not inside a node.\<close>

definition timer_of :: "tptr \<Rightarrow> nat res" where
  "timer_of p = (case p of Timer n \<Rightarrow> Inr n | _ \<Rightarrow> Inl Wild_deref)"

definition free_timer :: "'a tstate_scheme \<Rightarrow> nat \<Rightarrow> 'a tstate_scheme" where
  "free_timer s n = s\<lparr>timers := (timers s)(n := None), theap := (theap s)(Timer n := None)\<rparr>"

section \<open>The clock\<close>

text \<open>The seconds and nanoseconds are what \<open>clock_gettime\<close> returns; the sum is a \<open>long\<close>, cut to 32 bits.\<close>

definition get_jiffies :: "64 word \<Rightarrow> 64 word \<Rightarrow> 32 word" where
  "get_jiffies tv_sec tv_nsec = ucast (tv_sec * 1000 + word_of_int (c_div (sint tv_nsec) 1000000))"

text \<open>Both arguments are \<open>uint32_t\<close>, so the difference of the two \<open>long\<close>s does not overflow.\<close>

definition TIME_AFTER_EQ :: "32 word \<Rightarrow> 32 word \<Rightarrow> bool" where
  "TIME_AFTER_EQ a b \<longleftrightarrow> uint a - uint b \<ge> 0"

section \<open>Placing a timer\<close>

text \<open>
  The slot for a timer that expires at \<open>e\<close> when the manager's time is \<open>j\<close>, with the tests in the
  code's order. \<open>due\<close> is a \<open>uint32_t\<close>: the cast to \<open>signed long\<close> is never negative, and no value
  exceeds \<open>0xffffffff\<close>.
\<close>

definition timer_slot :: "32 word \<Rightarrow> 32 word \<Rightarrow> 32 word \<Rightarrow> tptr" where
  "timer_slot g e j =
     (let due = (e - j) div g in
      if due < of_nat TVR_SIZE then Slot 1 (unat (e AND TVR_MASK))
      else if due < 2 ^ (TVR_BITS + TVN_BITS) then Slot 2 (unat (drop_bit TVR_BITS e AND TVN_MASK))
      else if due < 2 ^ (TVR_BITS + 2 * TVN_BITS)
        then Slot 3 (unat (drop_bit (TVR_BITS + TVN_BITS) e AND TVN_MASK))
      else if due < 2 ^ (TVR_BITS + 3 * TVN_BITS)
        then Slot 4 (unat (drop_bit (TVR_BITS + 2 * TVN_BITS) e AND TVN_MASK))
      else if sint (ucast due :: 64 word) < 0 then Slot 1 (unat (j AND TVR_MASK))
      else
        (let e = (if uint due > 0xffffffff then 0xffffffff + j else e)
         in Slot 5 (unat (drop_bit (TVR_BITS + 3 * TVN_BITS) e AND TVN_MASK))))"

definition add_timer :: "'a tstate_scheme \<Rightarrow> nat \<Rightarrow> 'a tstate_scheme res" where
  "add_timer s n =
     bnd (get_timer s n) (\<lambda>t.
     bnd (mgr s) (\<lambda>_.
     bnd (list_timer_insert_tail (theap s) (Timer n)
       (timer_slot (clock_granularity s) (uExpires t) (uJiffies s))) (\<lambda>h.
     Inr (s\<lparr>theap := h\<rparr>))))"

text \<open>
  The loop of \<open>cascade_timer\<close>: the next pointer is read before the node is moved. The head on the
  stack exists while the function runs; both its fields are written before they are read.
\<close>

partial_function (option) cascade_from :: "'a tstate_scheme \<Rightarrow> tptr \<Rightarrow> 'a tstate_scheme res option" where
  "cascade_from s p =
     (if p = Loc_cascade then Some (Inr s)
      else case timer_of p of
        Inl e \<Rightarrow> Some (Inl e)
      | Inr n \<Rightarrow>
          (case t_get (theap s) p of
             Inl e \<Rightarrow> Some (Inl e)
           | Inr nd \<Rightarrow>
               (case add_timer s n of
                  Inl e \<Rightarrow> Some (Inl e)
                | Inr s \<Rightarrow> cascade_from s (pNext nd))))"

declare cascade_from.simps [code]

definition cascade_timer :: "'a tstate_scheme \<Rightarrow> nat \<Rightarrow> 32 word \<Rightarrow> (32 word \<times> 'a tstate_scheme) res" where
  "cascade_timer s lv idx =
     (let h = (theap s)(Loc_cascade \<mapsto> self_node Loc_cascade) in
      bnd (list_timer_replace_init h (Slot lv (unat idx)) Loc_cascade) (\<lambda>h.
      bnd (t_get h Loc_cascade) (\<lambda>nd.
      bnd (returns (cascade_from (s\<lparr>theap := h\<rparr>) (pNext nd))) (\<lambda>s.
      Inr (idx, s\<lparr>theap := (theap s)(Loc_cascade := None)\<rparr>)))))"

definition INDEX :: "'a tstate_scheme \<Rightarrow> nat \<Rightarrow> 32 word" where
  "INDEX s n = drop_bit (TVR_BITS + n * TVN_BITS) (uJiffies s) AND TVN_MASK"

text \<open>The chain of \<open>&&\<close> in \<open>run_timer\<close>: a level is unfolded only when the index below it was 0.\<close>

definition run_cascades :: "'a tstate_scheme \<Rightarrow> 'a tstate_scheme res" where
  "run_cascades s =
     (if uJiffies s AND TVR_MASK \<noteq> 0 then Inr s else
      bnd (cascade_timer s 2 (INDEX s 0)) (\<lambda>(i, s).
      if i \<noteq> 0 then Inr s else
      bnd (cascade_timer s 3 (INDEX s 1)) (\<lambda>(i, s).
      if i \<noteq> 0 then Inr s else
      bnd (cascade_timer s 4 (INDEX s 2)) (\<lambda>(i, s).
      if i \<noteq> 0 then Inr s else
      bnd (cascade_timer s 5 (INDEX s 3)) (\<lambda>(i, s). Inr s)))))"

section \<open>Callbacks\<close>

definition collaborative_schedule_helper :: "'a kstate_scheme \<Rightarrow> task option \<Rightarrow> 'a kstate_scheme res" where
  "collaborative_schedule_helper k p =
     bnd (get_task k p) (\<lambda>_.
     bnd (k_find k Ready_list (the p)) (\<lambda>queued.
     bnd (assert_c (\<not> queued)) (\<lambda>_.
     bnd (k_append k Ready_list (the p)) (\<lambda>k.
     upd_task k p (\<lambda>t. t\<lparr>ticks := priority t, status := TASK_READY,
       is_collaborative_schedule := False, sleep_millisecond := 0\<rparr>)))))"

text \<open>\<open>uc\<close> gives the effect of the user's callback functions.\<close>

type_synonym 'a user_code = "nat \<Rightarrow> param \<Rightarrow> 'a tstate_scheme \<Rightarrow> 'a tstate_scheme res"

definition param_task :: "param \<Rightarrow> task option res" where
  "param_task p = (case p of Task_param t \<Rightarrow> Inr t | Manager_param \<Rightarrow> Inl Wild_deref | Data_param w \<Rightarrow> Inr (Some (unat w)))"

definition call_timer_fn :: "'a user_code \<Rightarrow> 'a tstate_scheme \<Rightarrow> callback \<Rightarrow> param \<Rightarrow> 'a tstate_scheme res" where
  "call_timer_fn uc s f p =
     (case f of
        Fn_clean_dead_task \<Rightarrow> clean_dead_task s
      | Fn_collaborative_helper \<Rightarrow> bnd (param_task p) (\<lambda>t. collaborative_schedule_helper s t)
      | Fn_user i \<Rightarrow> uc i p s)"

section \<open>Running the timers\<close>

text \<open>The body of the inner loop of \<open>run_timer\<close> for the node at \<open>n\<close>.\<close>

definition fire_timer :: "'a user_code \<Rightarrow> 'a tstate_scheme \<Rightarrow> nat \<Rightarrow> 'a tstate_scheme res" where
  "fire_timer uc s n =
     bnd (get_timer s n) (\<lambda>t.
     bnd (call_timer_fn uc s (timerFn t) (pParam t)) (\<lambda>s.
     bnd (get_timer s n) (\<lambda>t.
     if uPeriod t \<noteq> 0 then
       bnd (mgr s) (\<lambda>_.
       add_timer (s\<lparr>timers := (timers s)(n \<mapsto> t\<lparr>uExpires := uJiffies s + uPeriod t\<rparr>)\<rparr>) n)
     else Inr (free_timer s n))))"

partial_function (option) expire_from ::
    "'a user_code \<Rightarrow> 'a tstate_scheme \<Rightarrow> tptr \<Rightarrow> 'a tstate_scheme res option" where
  "expire_from uc s p =
     (if p = Loc_expire then Some (Inr s)
      else case timer_of p of
        Inl e \<Rightarrow> Some (Inl e)
      | Inr n \<Rightarrow>
          (case t_get (theap s) p of
             Inl e \<Rightarrow> Some (Inl e)
           | Inr nd \<Rightarrow>
               (case fire_timer uc s n of
                  Inl e \<Rightarrow> Some (Inl e)
                | Inr s \<Rightarrow> expire_from uc s (pNext nd))))"

declare expire_from.simps [code]

text \<open>One turn of the outer loop of \<open>run_timer\<close>: one millisecond of the manager's time.\<close>

definition run_jiffy :: "'a user_code \<Rightarrow> 'a tstate_scheme \<Rightarrow> 'a tstate_scheme res" where
  "run_jiffy uc s =
     (let idx = uJiffies s AND TVR_MASK in
      bnd (run_cascades s) (\<lambda>s.
      (let h = (theap s)(Loc_expire \<mapsto> self_node Loc_expire) in
       bnd (list_timer_replace_init h (Slot 1 (unat idx)) Loc_expire) (\<lambda>h.
       bnd (t_get h Loc_expire) (\<lambda>nd.
       bnd (returns (expire_from uc (s\<lparr>theap := h\<rparr>) (pNext nd))) (\<lambda>s.
       bnd (mgr s) (\<lambda>_.
       Inr (s\<lparr>theap := (theap s)(Loc_expire := None), uJiffies := uJiffies s + 1\<rparr>))))))))"

partial_function (option) run_jiffies ::
    "'a user_code \<Rightarrow> 32 word \<Rightarrow> 'a tstate_scheme \<Rightarrow> 'a tstate_scheme res option" where
  "run_jiffies uc now s =
     (case mgr s of
        Inl e \<Rightarrow> Some (Inl e)
      | Inr _ \<Rightarrow>
          (if TIME_AFTER_EQ now (uJiffies s) then
             (case run_jiffy uc s of Inl e \<Rightarrow> Some (Inl e) | Inr s \<Rightarrow> run_jiffies uc now s)
           else Some (Inr s)))"

declare run_jiffies.simps [code]

definition run_timer :: "'a user_code \<Rightarrow> 32 word \<Rightarrow> 'a tstate_scheme \<Rightarrow> (unit flow \<times> 'a tstate_scheme) res" where
  "run_timer uc now s =
     (if timer_manager s = Mgr_null then Inr (Returned (), s) else
      bnd (mgr s) (\<lambda>_.
      bnd (lock_acquire s Timer_lock) (\<lambda>(fl, s).
      (case fl of Switched \<Rightarrow> Inr (Switched, s)
       | Returned _ \<Rightarrow>
           bnd (returns (run_jiffies uc now s)) (\<lambda>s.
           bnd (lock_release s Timer_lock) (\<lambda>s. Inr (Returned (), s)))))))"

section \<open>Creating and deleting\<close>

text \<open>\<open>m\<close> is the address \<open>malloc\<close> returns; the fields of the new node are all written before use.\<close>

definition malloc_timer :: "'a tstate_scheme \<Rightarrow> nat \<Rightarrow> timer_node \<Rightarrow> 'a tstate_scheme" where
  "malloc_timer s n t = s\<lparr>timers := (timers s)(n \<mapsto> t), theap := (theap s)(Timer n \<mapsto> self_node (Timer n))\<rparr>"

definition create_timer ::
    "'a tstate_scheme \<Rightarrow> callback option \<Rightarrow> param \<Rightarrow> 32 word \<Rightarrow> 32 word \<Rightarrow> nat option
     \<Rightarrow> (nat option flow \<times> 'a tstate_scheme) res" where
  "create_timer s fn p due period m =
     (if fn = None \<or> timer_manager s = Mgr_null then Inr (Returned None, s)
      else case m of
        None \<Rightarrow> Inr (Returned None, s)
      | Some n \<Rightarrow>
          (let s = malloc_timer s n \<lparr>uExpires = 0, uPeriod = period, timerFn = the fn, pParam = p\<rparr> in
           bnd (mgr s) (\<lambda>_.
           bnd (lock_acquire s Timer_lock) (\<lambda>(fl, s).
           (case fl of Switched \<Rightarrow> Inr (Switched, s)
            | Returned _ \<Rightarrow>
                bnd (mgr s) (\<lambda>_.
                bnd (get_timer s n) (\<lambda>t.
                bnd (add_timer (s\<lparr>timers := (timers s)(n \<mapsto> t\<lparr>uExpires := uJiffies s + due\<rparr>)\<rparr>) n) (\<lambda>s.
                bnd (lock_release s Timer_lock) (\<lambda>s.
                Inr (Returned (Some n), s)))))))))) "

definition delete_timer ::
    "'a tstate_scheme \<Rightarrow> nat option \<Rightarrow> (int flow \<times> 'a tstate_scheme) res" where
  "delete_timer s p =
     (if timer_manager s \<noteq> Mgr_null \<and> p \<noteq> None then
        bnd (mgr s) (\<lambda>_.
        bnd (lock_acquire s Timer_lock) (\<lambda>(fl, s).
        (case fl of Switched \<Rightarrow> Inr (Switched, s)
         | Returned _ \<Rightarrow>
             bnd (list_timer_unlink (theap s) (Timer (the p))) (\<lambda>h.
             bnd (mgr s) (\<lambda>_.
             bnd (lock_release (free_timer (s\<lparr>theap := h\<rparr>) (the p)) Timer_lock) (\<lambda>s.
             Inr (Returned 0, s)))))))
      else Inr (Returned (- 1), s))"

section \<open>The manager\<close>

definition init_wheel :: "tptr theap \<Rightarrow> tptr theap" where
  "init_wheel h =
     (let h = init_array_list_timer h (Slot 1) TVR_SIZE;
          h = init_array_list_timer h (Slot 2) TVN_SIZE;
          h = init_array_list_timer h (Slot 3) TVN_SIZE;
          h = init_array_list_timer h (Slot 4) TVN_SIZE
      in init_array_list_timer h (Slot 5) TVN_SIZE)"

text \<open>\<open>got\<close> says whether \<open>malloc\<close> found room for the manager, \<open>m\<close> is the address of its first timer.\<close>

definition timer_init ::
    "'a tstate_scheme \<Rightarrow> bool \<Rightarrow> 32 word \<Rightarrow> nat option \<Rightarrow> (unit flow \<times> 'a tstate_scheme) res" where
  "timer_init s got now m =
     (let s = s\<lparr>timer_manager := (if got then Mgr_live else Mgr_null)\<rparr>;
          s = (if timer_manager s \<noteq> Mgr_null
               then (lock_init (s\<lparr>uExitFlag := 0\<rparr>) Timer_lock)\<lparr>uJiffies := now, theap := init_wheel (theap s)\<rparr>
               else s)
      in bnd (create_timer s (Some Fn_clean_dead_task) Manager_param 150000 150000 m) (\<lambda>(fl, s).
         (case fl of Switched \<Rightarrow> Inr (Switched, s) | Returned _ \<Rightarrow> Inr (Returned (), s))))"

partial_function (option) delete_list_from :: "'a tstate_scheme \<Rightarrow> tptr \<Rightarrow> 'a tstate_scheme res option" where
  "delete_list_from s p =
     (if p = Loc_cascade then Some (Inr s)
      else case timer_of p of
        Inl e \<Rightarrow> Some (Inl e)
      | Inr n \<Rightarrow>
          (case t_get (theap s) p of
             Inl e \<Rightarrow> Some (Inl e)
           | Inr nd \<Rightarrow> delete_list_from (free_timer s n) (pNext nd)))"

declare delete_list_from.simps [code]

text \<open>One turn of the loop of \<open>delete_array_list_timer\<close>, and the loop over the first \<open>n\<close> elements.\<close>

definition delete_slot :: "'a tstate_scheme \<Rightarrow> tptr \<Rightarrow> 'a tstate_scheme res" where
  "delete_slot s a =
     (let h = (theap s)(Loc_cascade \<mapsto> self_node Loc_cascade) in
      bnd (list_timer_replace_init h a Loc_cascade) (\<lambda>h.
      bnd (t_get h Loc_cascade) (\<lambda>nd.
      bnd (returns (delete_list_from (s\<lparr>theap := h\<rparr>) (pNext nd))) (\<lambda>s.
      Inr (s\<lparr>theap := (theap s)(Loc_cascade := None)\<rparr>)))))"

fun delete_array_list_timer :: "'a tstate_scheme \<Rightarrow> (nat \<Rightarrow> tptr) \<Rightarrow> nat \<Rightarrow> 'a tstate_scheme res" where
  "delete_array_list_timer s arr 0 = Inr s"
| "delete_array_list_timer s arr (Suc n) =
     bnd (delete_array_list_timer s arr n) (\<lambda>s. delete_slot s (arr n))"

definition is_slot :: "tptr \<Rightarrow> bool" where
  "is_slot p = (case p of Slot _ _ \<Rightarrow> True | _ \<Rightarrow> False)"

text \<open>\<open>free(timer_manager)\<close> releases the arrays; the global pointer keeps its value.\<close>

definition destroy_timer_manager :: "'a tstate_scheme \<Rightarrow> 'a tstate_scheme res" where
  "destroy_timer_manager s =
     (if timer_manager s = Mgr_null then Inr s else
      bnd (mgr s) (\<lambda>_.
      bnd (delete_array_list_timer (s\<lparr>uExitFlag := 1\<rparr>) (Slot 1) TVR_SIZE) (\<lambda>s.
      bnd (delete_array_list_timer s (Slot 2) TVN_SIZE) (\<lambda>s.
      bnd (delete_array_list_timer s (Slot 3) TVN_SIZE) (\<lambda>s.
      bnd (delete_array_list_timer s (Slot 4) TVN_SIZE) (\<lambda>s.
      bnd (delete_array_list_timer s (Slot 5) TVN_SIZE) (\<lambda>s.
      Inr (s\<lparr>timer_manager := Mgr_freed, theap := (\<lambda>p. if is_slot p then None else theap s p)\<rparr>)))))))) "

section \<open>The clock interrupt\<close>

text \<open>
  \<open>interrupt_timer_handler\<close> of src/Thread: the timers are not run there (that code is commented
  out). \<open>m\<close> is the address \<open>create_timer\<close> gets from \<open>malloc\<close>.
\<close>

definition interrupt_timer_handler :: "'a tstate_scheme \<Rightarrow> nat option \<Rightarrow> (unit flow \<times> 'a tstate_scheme) res" where
  "interrupt_timer_handler s m =
     bnd (get_task s (current_task s)) (\<lambda>c.
     bnd (assert_c (stack_magic c = 0x19991120)) (\<lambda>_.
     if is_collaborative_schedule c = False then
       bnd (schedule s) (\<lambda>s. Inr (Returned (), s))
     else
       bnd (create_timer s (Some Fn_collaborative_helper) (Task_param (current_task s))
         (sleep_millisecond c) 0 m) (\<lambda>(fl, s).
       (case fl of Switched \<Rightarrow> Inr (Switched, s)
        | Returned _ \<Rightarrow> bnd (collaborative_schedule s) (\<lambda>s. Inr (Returned (), s))))))"

end
