(* ===== verification/Devices.thy ===== *)
theory Devices
  imports TimerWheel
begin

text \<open>
  The console (device/console.c), the panic routine (task/debug.c) and the start of the library
  (task/init.c). The process's terminal is a pair of the characters the kernel has received on the
  standard output and the characters still in the buffer of \<open>stdio\<close>, which is flushed line by line.
\<close>

section \<open>The terminal\<close>

record tty =
  tty_out :: string
  stdio_buf :: string
  tty_nonblock :: "nat set"

text \<open>\<open>write(2)\<close>; \<open>n\<close> is the number of characters a non-blocking terminal accepts.\<close>

definition tty_write :: "string \<Rightarrow> nat \<Rightarrow> tty \<Rightarrow> tty" where
  "tty_write s n t = t\<lparr>tty_out := tty_out t @ take n s\<rparr>"

text \<open>\<open>printf\<close> on a line buffered stream: complete lines go out, the rest stays in the buffer.\<close>

definition stdio_print :: "string \<Rightarrow> tty \<Rightarrow> tty" where
  "stdio_print s t =
     (let b = stdio_buf t @ s; rest = rev (takeWhile (\<lambda>c. c \<noteq> CHR 0x0A) (rev b))
      in t\<lparr>tty_out := tty_out t @ take (length b - length rest) b, stdio_buf := rest\<rparr>)"

text \<open>\<open>fflush(stdout)\<close>, which the end of \<open>main\<close> also does.\<close>

definition stdio_flush :: "tty \<Rightarrow> tty" where
  "stdio_flush t = t\<lparr>tty_out := tty_out t @ stdio_buf t, stdio_buf := []\<rparr>"

text \<open>Printing a text that ends with a newline leaves nothing in the buffer.\<close>

lemma stdio_print_line:
  assumes "s \<noteq> []" and "last s = CHR 0x0A"
  shows "stdio_print s t = t\<lparr>tty_out := tty_out t @ stdio_buf t @ s, stdio_buf := []\<rparr>"
proof -
  obtain s' where "s = s' @ [CHR 0x0A]" using assms by (metis append_butlast_last_id)
  then show ?thesis by (simp add: stdio_print_def)
qed

definition ioctl_fionbio :: "nat \<Rightarrow> tty \<Rightarrow> tty" where
  "ioctl_fionbio fd t = t\<lparr>tty_nonblock := insert fd (tty_nonblock t)\<rparr>"

section \<open>The console\<close>

definition console_init :: "'a kstate_scheme \<Rightarrow> tty \<Rightarrow> 'a kstate_scheme \<times> tty" where
  "console_init k t = (lock_init k Console_lock, ioctl_fionbio 1 (ioctl_fionbio 0 t))"

definition console_acquire :: "'a kstate_scheme \<Rightarrow> (unit flow \<times> 'a kstate_scheme) res" where
  "console_acquire k = lock_acquire k Console_lock"

definition console_release :: "'a kstate_scheme \<Rightarrow> 'a kstate_scheme res" where
  "console_release k = lock_release k Console_lock"

text \<open>The shape of the output functions: \<open>f\<close> is done between acquiring and releasing.\<close>

definition with_console ::
    "'a kstate_scheme \<Rightarrow> tty \<Rightarrow> (tty \<Rightarrow> tty res) \<Rightarrow> (unit flow \<times> 'a kstate_scheme \<times> tty) res" where
  "with_console k t f =
     bnd (console_acquire k) (\<lambda>(fl, k).
     (case fl of Switched \<Rightarrow> Inr (Switched, k, t)
      | Returned _ \<Rightarrow>
          bnd (f t) (\<lambda>t.
          bnd (console_release k) (\<lambda>k. Inr (Returned (), k, t)))))"

text \<open>\<open>strlen\<close> ends the string at its first NUL.\<close>

definition console_put_str ::
    "'a kstate_scheme \<Rightarrow> tty \<Rightarrow> string \<Rightarrow> nat \<Rightarrow> (unit flow \<times> 'a kstate_scheme \<times> tty) res" where
  "console_put_str k t str n = with_console k t (\<lambda>t. Inr (tty_write (takeWhile (\<lambda>c. c \<noteq> CHR 0x00) str) n t))"

definition console_put_int ::
    "'a kstate_scheme \<Rightarrow> tty \<Rightarrow> int \<Rightarrow> (unit flow \<times> 'a kstate_scheme \<times> tty) res" where
  "console_put_int k t i = with_console k t (\<lambda>t. Inr (stdio_print (print_int i) t))"

definition console_put_char ::
    "'a kstate_scheme \<Rightarrow> tty \<Rightarrow> char \<Rightarrow> nat \<Rightarrow> (unit flow \<times> 'a kstate_scheme \<times> tty) res" where
  "console_put_char k t ch n = with_console k t (\<lambda>t. Inr (tty_write [ch] n t))"

text \<open>
  \<open>read\<close> is asked for \<open>sizeof(io_buffer)\<close> characters whatever the size \<open>cap\<close> of the caller's
  buffer is; \<open>input\<close> is what the terminal delivers.
\<close>

definition io_buffer_size :: nat where "io_buffer_size = 1024"

definition console_get_str ::
    "'a kstate_scheme \<Rightarrow> tty \<Rightarrow> nat \<Rightarrow> string \<Rightarrow> (string flow \<times> 'a kstate_scheme \<times> tty) res" where
  "console_get_str k t cap input =
     bnd (console_acquire k) (\<lambda>(fl, k).
     (case fl of Switched \<Rightarrow> Inr (Switched, k, t)
      | Returned _ \<Rightarrow>
          (let str = take io_buffer_size input in
           bnd (check (length str \<le> cap) Wild_deref) (\<lambda>_.
           bnd (console_release k) (\<lambda>k. Inr (Returned str, k, t))))))"

section \<open>Panic\<close>

definition panic_message :: "string \<Rightarrow> nat \<Rightarrow> string \<Rightarrow> string \<Rightarrow> string" where
  "panic_message filename line func condition =
     (let nl = [CHR 0x0A] in
      nl @ nl @ nl @ ''!!!!!! error !!!!!!'' @ nl @ ''filename:'' @ filename @ nl
      @ ''line:0x'' @ digits_of 16 line @ nl @ ''function:'' @ func @ nl @ ''condition:'' @ condition @ nl)"

text \<open>What is left when \<open>panic_spin\<close> loops: the shielded state and the text on \<open>stderr\<close>.\<close>

definition panic_spin ::
    "'a kstate_scheme \<Rightarrow> string \<Rightarrow> nat \<Rightarrow> string \<Rightarrow> string \<Rightarrow> 'a kstate_scheme \<times> string \<times> unit res" where
  "panic_spin k filename line func condition =
     (interrupt_disable k, panic_message filename line func condition, Inl Panic_spin)"

section \<open>Initialisation\<close>

text \<open>
  What the initialisation gets from the system: the addresses of the main task, of its stack, of
  the timer manager and of the first timer, and the time.
\<close>

record start_env =
  env_main :: "task option"
  env_stack :: "64 word"
  env_mgr :: bool
  env_now :: "32 word"
  env_timer :: "nat option"

definition init :: "start_env \<Rightarrow> 'a tstate_scheme \<Rightarrow> tty \<Rightarrow> (unit flow \<times> 'a tstate_scheme \<times> tty) res" where
  "init e s t =
     (let (s, t) = console_init s t in
      bnd (task_init s (env_main e) (env_stack e)) (\<lambda>(fl, s).
      (case fl of Switched \<Rightarrow> Inr (Switched, s, t)
       | Returned _ \<Rightarrow>
           bnd (timer_init s (env_mgr e) (env_now e) (env_timer e)) (\<lambda>(fl, s).
           (case fl of Switched \<Rightarrow> Inr (Switched, s, t) | Returned _ \<Rightarrow> Inr (Returned (), s, t))))))"

end
