(* ===== verification/UtsInterrupts.thy ===== *)
theory UtsInterrupts
  imports Devices
begin

text \<open>
  The interrupt side of the copy under src/User_Schedule/ROS2, where it differs from src/Thread:
  the clock handler runs the timers and counts time slices, two signals have handlers, and \<open>init\<close>
  installs them.
\<close>

section \<open>Handlers\<close>

definition sig_handler :: "'a tstate_scheme \<Rightarrow> 'a tstate_scheme res" where
  "sig_handler s =
     bnd (get_task s (current_task s)) (\<lambda>c.
     if is_collaborative_schedule c = False \<and> ticks c = 0 then schedule s else Inr s)"

text \<open>
  Timers first (or the removal of the manager, when its exit flag is set), then a switch when the
  time slice is used up. A handler that had to wait for the timer lock has switched tasks.
\<close>

definition service_timers :: "'a user_code \<Rightarrow> 'a tstate_scheme \<Rightarrow> 32 word \<Rightarrow> (unit flow \<times> 'a tstate_scheme) res" where
  "service_timers uc s now =
     (if timer_manager s \<noteq> Mgr_null then
        bnd (mgr s) (\<lambda>_.
        if uExitFlag s = 0 then run_timer uc now s
        else bnd (destroy_timer_manager s) (\<lambda>s. Inr (Returned (), s)))
      else Inr (Returned (), s))"

definition uts_timer_handler ::
    "'a user_code \<Rightarrow> 'a tstate_scheme \<Rightarrow> 32 word \<Rightarrow> nat option \<Rightarrow> (unit flow \<times> 'a tstate_scheme) res" where
  "uts_timer_handler uc s now m =
     bnd (get_task s (current_task s)) (\<lambda>c.
     bnd (assert_c (stack_magic c = 0x19991120)) (\<lambda>_.
     bnd (service_timers uc s now) (\<lambda>(fl, s).
     (case fl of Switched \<Rightarrow> Inr (Switched, s)
      | Returned _ \<Rightarrow>
          bnd (get_task s (current_task s)) (\<lambda>c.
          if is_collaborative_schedule c = False \<and> ticks c = 0 then
            bnd (schedule s) (\<lambda>s. Inr (Returned (), s))
          else if is_collaborative_schedule c = False then
            bnd (upd_task s (current_task s) (\<lambda>t. t\<lparr>ticks := ticks t - 1\<rparr>)) (\<lambda>s. Inr (Returned (), s))
          else
            bnd (create_timer s (Some Fn_collaborative_helper) (Task_param (current_task s))
              (sleep_millisecond c) 0 m) (\<lambda>(fl, s).
            (case fl of Switched \<Rightarrow> Inr (Switched, s)
             | Returned _ \<Rightarrow> bnd (collaborative_schedule s) (\<lambda>s. Inr (Returned (), s)))))))))"

section \<open>Signals\<close>

datatype handler = Sig_default | Signal_headler | Sigusr1_headler

type_synonym dispositions = "nat \<Rightarrow> handler"

definition signal :: "nat \<Rightarrow> handler \<Rightarrow> dispositions \<Rightarrow> dispositions" where
  "signal n h d = d(n := h)"

definition sigusr1_headler :: "'a tstate_scheme \<Rightarrow> (unit flow \<times> 'a tstate_scheme) res" where
  "sigusr1_headler s = bnd (sig_handler s) (\<lambda>s. Inr (Returned (), s))"

definition signal_headler ::
    "'a user_code \<Rightarrow> 'a tstate_scheme \<Rightarrow> 32 word \<Rightarrow> nat option \<Rightarrow> (unit flow \<times> 'a tstate_scheme) res" where
  "signal_headler uc s now m = uts_timer_handler uc s now m"

text \<open>\<open>ret\<close> is what \<open>set_ticker\<close> returns; \<open>panic\<close> of include/assert.h does not come back.\<close>

definition interrupt_init ::
    "'a tstate_scheme \<Rightarrow> dispositions \<Rightarrow> int \<Rightarrow> ('a tstate_scheme \<times> dispositions \<times> itimerval) res" where
  "interrupt_init s d ret =
     (let d = signal SIGALRM Signal_headler d;
          d = signal SIGUSR1 Sigusr1_headler d;
          t = set_ticker 10
      in if ret = - 1 then bnd user_spin (\<lambda>_. Inr (s\<lparr>clock_granularity := 10\<rparr>, d, t))
         else Inr (s, d, t))"

text \<open>
  Delivery of a signal: one that is blocked stays pending, one without a handler ends the process
  (\<open>None\<close>), the others run their handler. When a handler returns the kernel restores the mask the signal
  found, whatever the handler did to it.
\<close>

definition sigreturn :: "nat set \<Rightarrow> (unit flow \<times> 'a tstate_scheme) res \<Rightarrow> (unit flow \<times> 'a tstate_scheme) res" where
  "sigreturn blocked r = bnd r (\<lambda>(fl, s). Inr (fl, case fl of Switched \<Rightarrow> s | Returned _ \<Rightarrow> s\<lparr>sigmask := blocked\<rparr>))"

definition deliver ::
    "'a user_code \<Rightarrow> 32 word \<Rightarrow> nat option \<Rightarrow> dispositions \<Rightarrow> nat \<Rightarrow> 'a tstate_scheme
     \<Rightarrow> (unit flow \<times> 'a tstate_scheme) res option" where
  "deliver uc now m d n s =
     (if n \<in> sigmask s then Some (Inr (Returned (), s))
      else case d n of
        Sig_default \<Rightarrow> None
      | Signal_headler \<Rightarrow> Some (sigreturn (sigmask s) (signal_headler uc s now m))
      | Sigusr1_headler \<Rightarrow> Some (sigreturn (sigmask s) (sigusr1_headler s)))"

definition uts_init ::
    "start_env \<Rightarrow> int \<Rightarrow> dispositions \<Rightarrow> 'a tstate_scheme \<Rightarrow> tty
     \<Rightarrow> (unit flow \<times> 'a tstate_scheme \<times> tty \<times> dispositions) res" where
  "uts_init e ret d s t =
     (let (s, t) = console_init s t in
      bnd (task_init s (env_main e) (env_stack e)) (\<lambda>(fl, s).
      (case fl of Switched \<Rightarrow> Inr (Switched, s, t, d)
       | Returned _ \<Rightarrow>
           bnd (timer_init s (env_mgr e) (env_now e) (env_timer e)) (\<lambda>(fl, s).
           (case fl of Switched \<Rightarrow> Inr (Switched, s, t, d)
            | Returned _ \<Rightarrow>
                bnd (interrupt_init s d ret) (\<lambda>(s, d, _). Inr (Returned (), s, t, d)))))))"

end
