(* ===== verification/NeuralNet.thy ===== *)
theory NeuralNet
  imports Prelude
begin

text \<open>
  The workload of the throughput and latency benchmarks: the small neural network of ttl/tt.c and
  its variant with Xavier initialisation, shuffling and batches in la.c. The arithmetic of \<open>double\<close>
  is a parameter: a record of operations on an arbitrary type, so that every result holds for
  IEEE arithmetic with its rounding. Arrays are lists; an access outside one is a wild access.
\<close>

section \<open>Arithmetic, arrays, random numbers\<close>

record 'f arith =
  f_int :: "int \<Rightarrow> 'f"
  f_add :: "'f \<Rightarrow> 'f \<Rightarrow> 'f"
  f_sub :: "'f \<Rightarrow> 'f \<Rightarrow> 'f"
  f_mul :: "'f \<Rightarrow> 'f \<Rightarrow> 'f"
  f_div :: "'f \<Rightarrow> 'f \<Rightarrow> 'f"
  f_neg :: "'f \<Rightarrow> 'f"
  f_exp :: "'f \<Rightarrow> 'f"
  f_tanh :: "'f \<Rightarrow> 'f"
  f_sqrt :: "'f \<Rightarrow> 'f"
  f_trunc :: "'f \<Rightarrow> int"
  f_tenth :: "'f"

definition rd :: "'f list \<Rightarrow> nat \<Rightarrow> 'f res" where
  "rd xs i = (if i < length xs then Inr (xs ! i) else Inl Wild_deref)"

definition wr :: "'f list \<Rightarrow> nat \<Rightarrow> 'f \<Rightarrow> 'f list res" where
  "wr xs i v = (if i < length xs then Inr (xs[i := v]) else Inl Wild_deref)"

text \<open>\<open>for (i = a; i < a + n; i++)\<close> with a body that acts on a state.\<close>

fun for_loop :: "nat \<Rightarrow> nat \<Rightarrow> (nat \<Rightarrow> 's \<Rightarrow> 's res) \<Rightarrow> 's \<Rightarrow> 's res" where
  "for_loop i 0 f s = Inr s"
| "for_loop i (Suc n) f s = bnd (f i s) (for_loop (Suc i) n f)"

text \<open>\<open>rand()\<close>: the generator is a stream; a call takes its head.\<close>

type_synonym rand_stream = "nat \<Rightarrow> int"

definition RAND_MAX :: int where "RAND_MAX = 2147483647"
definition RAND_MINS :: int where "RAND_MINS = 0"
definition RAND_MAXS :: int where "RAND_MAXS = 2"

section \<open>The network\<close>

record 'f net =
  input_size :: nat
  hidden_size :: nat
  output_size :: nat
  W1 :: "'f list"
  b1 :: "'f list"
  W2 :: "'f list"
  b2 :: "'f list"

definition sigmoid :: "'f arith \<Rightarrow> 'f \<Rightarrow> 'f" where
  "sigmoid A x = f_div A (f_int A 1) (f_add A (f_int A 1) (f_exp A (f_neg A x)))"

text \<open>\<open>init_net\<close> of tt.c takes its numbers in the order W1, W2, b1, b2; \<open>r\<close> is the stream, \<open>c\<close> the count so far.\<close>

definition rand_half :: "'f arith \<Rightarrow> rand_stream \<Rightarrow> nat \<Rightarrow> 'f" where
  "rand_half A r c = f_div A (f_int A (r c)) (f_int A RAND_MAXS)"

definition rand_array :: "(nat \<Rightarrow> 'f) \<Rightarrow> nat \<Rightarrow> nat \<Rightarrow> 'f list" where
  "rand_array g c n = map (\<lambda>i. g (c + i)) [0..<n]"

definition init_net :: "'f arith \<Rightarrow> rand_stream \<Rightarrow> nat \<Rightarrow> nat \<Rightarrow> nat \<Rightarrow> 'f net" where
  "init_net A r ni nh no =
     (let n1 = ni * nh; n2 = nh * no; g = rand_half A r
      in \<lparr>input_size = ni, hidden_size = nh, output_size = no,
          W1 = rand_array g 0 n1, b1 = rand_array g (n1 + n2) nh,
          W2 = rand_array g n1 n2, b2 = rand_array g (n1 + n2 + nh) no\<rparr>)"

text \<open>The accumulation \<open>h[i] += x[j] * w[j * stride + i]\<close> over \<open>j\<close>.\<close>

fun acc_loop :: "'f arith \<Rightarrow> 'f list \<Rightarrow> 'f list \<Rightarrow> nat \<Rightarrow> nat \<Rightarrow> nat \<Rightarrow> nat \<Rightarrow> 'f \<Rightarrow> 'f res" where
  "acc_loop A x w stride i j 0 acc = Inr acc"
| "acc_loop A x w stride i j (Suc n) acc =
     bnd (rd x j) (\<lambda>a.
     bnd (rd w (j * stride + i)) (\<lambda>b.
     acc_loop A x w stride i (Suc j) n (f_add A acc (f_mul A a b))))"

text \<open>A layer of \<open>n\<close> units from unit \<open>i\<close> on: weighted sums, bias, activation.\<close>

fun layer :: "'f arith \<Rightarrow> ('f \<Rightarrow> 'f) \<Rightarrow> 'f list \<Rightarrow> nat \<Rightarrow> 'f list \<Rightarrow> 'f list \<Rightarrow> nat \<Rightarrow> nat \<Rightarrow> nat \<Rightarrow> 'f list res" where
  "layer A act x nin w b stride i 0 = Inr []"
| "layer A act x nin w b stride i (Suc n) =
     bnd (acc_loop A x w stride i 0 nin (f_int A 0)) (\<lambda>s.
     bnd (rd b i) (\<lambda>bi.
     bnd (layer A act x nin w b stride (Suc i) n) (\<lambda>hs.
     Inr (act (f_add A s bi) # hs))))"

definition hidden_layer :: "'f arith \<Rightarrow> 'f net \<Rightarrow> 'f list \<Rightarrow> 'f list res" where
  "hidden_layer A net x =
     layer A (f_tanh A) x (input_size net) (W1 net) (b1 net) (hidden_size net) 0 (hidden_size net)"

definition output_layer :: "'f arith \<Rightarrow> 'f net \<Rightarrow> 'f list \<Rightarrow> 'f list res" where
  "output_layer A net h1 =
     layer A (\<lambda>v. v) h1 (hidden_size net) (W2 net) (b2 net) (output_size net) 0 (output_size net)"

text \<open>\<open>forward\<close> writes to the caller's array \<open>output\<close>.\<close>

definition forward :: "'f arith \<Rightarrow> 'f net \<Rightarrow> 'f list \<Rightarrow> 'f list \<Rightarrow> 'f list res" where
  "forward A net input output =
     bnd (hidden_layer A net input) (\<lambda>h1.
     bnd (output_layer A net h1) (\<lambda>h2.
     for_loop 0 (output_size net) (\<lambda>i out. bnd (rd h2 i) (\<lambda>v. wr out i (sigmoid A v))) output))"

text \<open>The loop computing \<open>delta2\<close> (and \<open>h2\<close> in place), unit by unit.\<close>

fun output_deltas :: "'f arith \<Rightarrow> 'f list \<Rightarrow> 'f list \<Rightarrow> nat \<Rightarrow> 'f list res" where
  "output_deltas A target [] i = Inr []"
| "output_deltas A target (v # h2) i =
     (let o' = sigmoid A v in
      bnd (rd target i) (\<lambda>t.
      bnd (output_deltas A target h2 (Suc i)) (\<lambda>ds.
      Inr (f_mul A (f_mul A o' (f_sub A (f_int A 1) o')) (f_sub A t o') # ds))))"

text \<open>\<open>delta1[i]\<close>: the sum over the outputs, times the derivative of \<open>tanh\<close>.\<close>

fun hidden_sum :: "'f arith \<Rightarrow> 'f list \<Rightarrow> 'f list \<Rightarrow> nat \<Rightarrow> nat \<Rightarrow> nat \<Rightarrow> nat \<Rightarrow> 'f \<Rightarrow> 'f res" where
  "hidden_sum A delta2 w stride i j 0 acc = Inr acc"
| "hidden_sum A delta2 w stride i j (Suc n) acc =
     bnd (rd delta2 j) (\<lambda>d.
     bnd (rd w (i * stride + j)) (\<lambda>b.
     hidden_sum A delta2 w stride i (Suc j) n (f_add A acc (f_mul A d b))))"

fun hidden_deltas :: "'f arith \<Rightarrow> 'f list \<Rightarrow> 'f list \<Rightarrow> nat \<Rightarrow> 'f list \<Rightarrow> nat \<Rightarrow> 'f list res" where
  "hidden_deltas A delta2 w no [] i = Inr []"
| "hidden_deltas A delta2 w no (h # h1) i =
     bnd (hidden_sum A delta2 w no i 0 no (f_int A 0)) (\<lambda>s.
     bnd (hidden_deltas A delta2 w no h1 (Suc i)) (\<lambda>ds.
     Inr (f_mul A s (f_mul A (f_sub A (f_int A 1) h) (f_add A (f_int A 1) h)) # ds)))"

text \<open>\<open>w[k] += v\<close>, and the weight updates of one layer: column \<open>i\<close> by the deltas and the layer's input.\<close>

definition add_at :: "'f arith \<Rightarrow> 'f list \<Rightarrow> nat \<Rightarrow> 'f \<Rightarrow> 'f list res" where
  "add_at A w k v = bnd (rd w k) (\<lambda>x. wr w k (f_add A x v))"

definition update_layer ::
    "'f arith \<Rightarrow> 'f \<Rightarrow> 'f list \<Rightarrow> 'f list \<Rightarrow> nat \<Rightarrow> nat \<Rightarrow> 'f list \<times> 'f list \<Rightarrow> ('f list \<times> 'f list) res" where
  "update_layer A lr delta x nin n wb =
     for_loop 0 n (\<lambda>i (w, b).
       bnd (rd delta i) (\<lambda>d.
       bnd (for_loop 0 nin (\<lambda>j w. bnd (rd x j) (\<lambda>xj. add_at A w (j * n + i) (f_mul A (f_mul A lr d) xj))) w) (\<lambda>w.
       bnd (add_at A b i (f_mul A lr d)) (\<lambda>b. Inr (w, b))))) wb"

definition backward :: "'f arith \<Rightarrow> 'f net \<Rightarrow> 'f list \<Rightarrow> 'f list \<Rightarrow> 'f \<Rightarrow> 'f net res" where
  "backward A net input target lr =
     bnd (hidden_layer A net input) (\<lambda>h1.
     bnd (output_layer A net h1) (\<lambda>h2.
     bnd (output_deltas A target h2 0) (\<lambda>delta2.
     bnd (hidden_deltas A delta2 (W2 net) (output_size net) h1 0) (\<lambda>delta1.
     bnd (update_layer A lr delta1 input (input_size net) (hidden_size net) (W1 net, b1 net)) (\<lambda>(w1, c1).
     bnd (update_layer A lr delta2 h1 (hidden_size net) (output_size net) (W2 net, b2 net)) (\<lambda>(w2, c2).
     Inr (net\<lparr>W1 := w1, b1 := c1, W2 := w2, b2 := c2\<rparr>)))))))"

text \<open>The pointers \<open>&inputs[j * input_size]\<close>, \<open>&targets[j * output_size]\<close>: what is left of the arrays from there.\<close>

definition train_one :: "'f arith \<Rightarrow> 'f list \<Rightarrow> 'f list \<Rightarrow> 'f \<Rightarrow> nat \<Rightarrow> 'f net \<Rightarrow> 'f net res" where
  "train_one A inputs targets lr j net =
     backward A net (drop (j * input_size net) inputs) (drop (j * output_size net) targets) lr"

definition train :: "'f arith \<Rightarrow> 'f net \<Rightarrow> 'f list \<Rightarrow> 'f list \<Rightarrow> nat \<Rightarrow> nat \<Rightarrow> 'f \<Rightarrow> 'f net res" where
  "train A net inputs targets num_epochs num_inputs lr =
     for_loop 0 num_epochs (\<lambda>_. for_loop 0 num_inputs (train_one A inputs targets lr)) net"

definition predict :: "'f arith \<Rightarrow> 'f net \<Rightarrow> 'f list \<Rightarrow> int res" where
  "predict A net input =
     bnd (forward A net input [f_int A 0]) (\<lambda>temp_output.
     bnd (rd temp_output 0) (\<lambda>v. Inr (f_trunc A (f_mul A v (f_int A 100000)))))"

section \<open>The variant of la.c\<close>

definition limit :: "'f arith \<Rightarrow> nat \<Rightarrow> nat \<Rightarrow> 'f" where
  "limit A m n = f_sqrt A (f_div A (f_int A 6) (f_int A (int (m + n))))"

definition xavier :: "'f arith \<Rightarrow> rand_stream \<Rightarrow> 'f \<Rightarrow> nat \<Rightarrow> 'f" where
  "xavier A r l c =
     f_mul A (f_sub A (f_div A (f_mul A (f_int A 2) (f_int A (r c))) (f_int A RAND_MAX)) (f_int A 1)) l"

text \<open>\<open>got\<close> tells whether all four allocations succeed; otherwise the program exits (\<open>None\<close>).\<close>

definition init_net_xavier :: "'f arith \<Rightarrow> rand_stream \<Rightarrow> bool \<Rightarrow> nat \<Rightarrow> nat \<Rightarrow> nat \<Rightarrow> 'f net option" where
  "init_net_xavier A r got ni nh no =
     (if \<not> got then None
      else Some (let n1 = ni * nh; n2 = nh * no
        in \<lparr>input_size = ni, hidden_size = nh, output_size = no,
          W1 = rand_array (xavier A r (limit A ni nh)) 0 n1, b1 = replicate nh (f_int A 0),
          W2 = rand_array (xavier A r (limit A nh no)) n1 n2, b2 = replicate no (f_int A 0)\<rparr>))"

text \<open>
  Sums of C's \<open>int\<close> as the compiled code computes them: 32 bits, two's complement. At the last sample the
  divisor \<open>RAND_MAX / 1 + 1\<close> does not fit, which the language leaves undefined; the sum wraps.
\<close>

definition c_int :: "int \<Rightarrow> int" where
  "c_int x = sint (word_of_int x :: 32 word)"

definition shuffle_divisor :: "nat \<Rightarrow> nat \<Rightarrow> int" where
  "shuffle_divisor n i = c_int (c_div RAND_MAX (int (n - i)) + 1)"

definition shuffle_index :: "int \<Rightarrow> nat \<Rightarrow> nat \<Rightarrow> nat" where
  "shuffle_index rnd n i = nat (int i + c_div rnd (shuffle_divisor n i))"

text \<open>Swapping row \<open>i\<close> with row \<open>j\<close> of an array with rows of \<open>m\<close> elements.\<close>

definition swap_rows :: "nat \<Rightarrow> nat \<Rightarrow> nat \<Rightarrow> 'f list \<Rightarrow> 'f list res" where
  "swap_rows m i j xs =
     for_loop 0 m (\<lambda>k xs.
       bnd (rd xs (i * m + k)) (\<lambda>temp.
       bnd (rd xs (j * m + k)) (\<lambda>v.
       bnd (wr xs (i * m + k) v) (\<lambda>xs.
       wr xs (j * m + k) temp)))) xs"

text \<open>One epoch's shuffle, drawing numbers from position \<open>c\<close> of the stream.\<close>

definition shuffle ::
    "rand_stream \<Rightarrow> nat \<Rightarrow> nat \<Rightarrow> nat \<Rightarrow> nat \<Rightarrow> 'f list \<times> 'f list \<Rightarrow> ('f list \<times> 'f list) res" where
  "shuffle r c n ni no d =
     for_loop 0 n (\<lambda>i (inputs, targets).
       (let j = shuffle_index (r (c + i)) n i in
        bnd (swap_rows ni i j inputs) (\<lambda>inputs.
        bnd (swap_rows no i j targets) (\<lambda>targets. Inr (inputs, targets))))) d"

text \<open>\<open>for (int i = a; i < b; i++)\<close>, and a training step on sample \<open>i\<close>; before the first one there is no memory.\<close>

definition int_loop :: "int \<Rightarrow> int \<Rightarrow> (int \<Rightarrow> 's \<Rightarrow> 's res) \<Rightarrow> 's \<Rightarrow> 's res" where
  "int_loop a b f s = for_loop 0 (nat (b - a)) (\<lambda>k. f (a + int k)) s"

definition train_at :: "'f arith \<Rightarrow> 'f list \<Rightarrow> 'f list \<Rightarrow> 'f \<Rightarrow> int \<Rightarrow> 'f net \<Rightarrow> 'f net res" where
  "train_at A inputs targets lr i net = (if i < 0 then Inl Wild_deref else train_one A inputs targets lr (nat i) net)"

text \<open>The batches: \<open>start\<close> goes up in steps of \<open>bs\<close>, which may be 0 or negative.\<close>

partial_function (option) batches_from ::
    "(int \<Rightarrow> 's \<Rightarrow> 's res) \<Rightarrow> int \<Rightarrow> int \<Rightarrow> int \<Rightarrow> 's \<Rightarrow> 's res option" where
  "batches_from f bs n start s =
     (if start < n then
        (let end' = c_int (start + bs);
             end' = (if end' > n then n else end')
         in case int_loop start end' f s of
              Inl e \<Rightarrow> Some (Inl e)
            | Inr s \<Rightarrow> batches_from f bs n (c_int (start + bs)) s)
      else Some (Inr s))"

declare batches_from.simps [code]

definition train_batches ::
    "'f arith \<Rightarrow> rand_stream \<Rightarrow> nat \<Rightarrow> 'f net \<Rightarrow> 'f list \<Rightarrow> 'f list \<Rightarrow> nat \<Rightarrow> nat \<Rightarrow> 'f \<Rightarrow> int
     \<Rightarrow> ('f net \<times> 'f list \<times> 'f list) res" where
  "train_batches A r c net inputs targets num_epochs num_inputs lr batch_size =
     for_loop 0 num_epochs (\<lambda>epoch (net, inputs, targets).
       bnd (shuffle r (c + epoch * num_inputs) num_inputs (input_size net) (output_size net) (inputs, targets))
         (\<lambda>(inputs, targets).
       bnd (returns (batches_from (train_at A inputs targets lr) batch_size (int num_inputs) 0 net)) (\<lambda>net.
       Inr (net, inputs, targets)))) (net, inputs, targets)"

text \<open>\<open>RAND_MINS + (RAND_MAXS - RAND_MINS) * ((double)rand() / RAND_MAXS)\<close>.\<close>

definition rand_input :: "'f arith \<Rightarrow> rand_stream \<Rightarrow> nat \<Rightarrow> 'f" where
  "rand_input A r c = f_add A (f_int A RAND_MINS) (f_mul A (f_int A (RAND_MAXS - RAND_MINS)) (rand_half A r c))"

section \<open>Loops\<close>

lemma for_loop_add: "for_loop i (m + n) f s = bnd (for_loop i m f s) (for_loop (i + m) n f)"
proof (induction m arbitrary: i s)
  case (Suc m)
  then show ?case by (cases "f i s") simp_all
qed simp

lemma for_loop_inv:
  assumes "P s" and "\<And>j s. i \<le> j \<Longrightarrow> j < i + n \<Longrightarrow> P s \<Longrightarrow> \<exists>s'. f j s = Inr s' \<and> P s'"
  shows "\<exists>s'. for_loop i n f s = Inr s' \<and> P s'"
  using assms
proof (induction n arbitrary: i s)
  case (Suc n)
  obtain s1 where s1: "f i s = Inr s1" "P s1" using Suc.prems by fastforce
  have "\<exists>s'. for_loop (Suc i) n f s1 = Inr s' \<and> P s'"
    by (rule Suc.IH [OF s1(2)]) (use Suc.prems(2) in force)
  with s1 show ?case by simp
qed simp

text \<open>A loop that fails in turn \<open>m\<close>, the turns before it succeeding.\<close>

lemma for_loop_fail:
  assumes "\<exists>s'. for_loop i m f s = Inr s' \<and> P s'" and "\<And>s. P s \<Longrightarrow> f (i + m) s = Inl e" and "m < n"
  shows "for_loop i n f s = Inl e"
proof -
  obtain s' where s': "for_loop i m f s = Inr s'" "P s'" using assms(1) by blast
  obtain k where "n = m + Suc k" using assms(3) less_imp_Suc_add by fastforce
  moreover have "for_loop i (m + Suc k) f s = Inl e"
    unfolding for_loop_add using s' assms(2) [OF s'(2)] by simp
  ultimately show ?thesis by simp
qed

lemma rd_ok [simp]: "i < length xs \<Longrightarrow> rd xs i = Inr (xs ! i)"
  by (simp add: rd_def)

lemma wr_ok [simp]: "i < length xs \<Longrightarrow> wr xs i v = Inr (xs[i := v])"
  by (simp add: wr_def)

lemma rd_wild [simp]: "length xs \<le> i \<Longrightarrow> rd xs i = Inl Wild_deref"
  by (simp add: rd_def)

lemma index_bound: "j < m \<Longrightarrow> i < n \<Longrightarrow> j * n + i < m * (n :: nat)"
proof -
  assume "j < m" "i < n"
  then have "j * n + i < Suc j * n" by simp
  also have "\<dots> \<le> m * n" using \<open>j < m\<close> by (intro mult_le_mono1) simp
  finally show ?thesis .
qed

section \<open>The layers\<close>

definition weighted :: "'f arith \<Rightarrow> 'f list \<Rightarrow> 'f list \<Rightarrow> nat \<Rightarrow> nat \<Rightarrow> nat \<Rightarrow> 'f" where
  "weighted A x w stride nin i =
     foldl (\<lambda>acc j. f_add A acc (f_mul A (x ! j) (w ! (j * stride + i)))) (f_int A 0) [0..<nin]"

lemma acc_loop_spec:
  assumes "\<And>k. k < j + n \<Longrightarrow> k < length x \<and> k * stride + i < length w"
  shows "acc_loop A x w stride i j n acc =
    Inr (foldl (\<lambda>acc j. f_add A acc (f_mul A (x ! j) (w ! (j * stride + i)))) acc [j..<j + n])"
  using assms
proof (induction n arbitrary: j acc)
  case (Suc n)
  have "acc_loop A x w stride i (Suc j) n a =
    Inr (foldl (\<lambda>acc j. f_add A acc (f_mul A (x ! j) (w ! (j * stride + i)))) a [Suc j..<Suc j + n])" for a
    by (rule Suc.IH) (use Suc.prems in simp)
  then show ?case using Suc.prems [of j] by (simp add: upt_rec [of j] del: upt_Suc)
qed simp

lemma layer_spec:
  assumes "nin \<le> length x" and "length w = nin * stride" and "i + n \<le> length b" and "i + n \<le> stride"
  shows "layer A act x nin w b stride i n =
    Inr (map (\<lambda>u. act (f_add A (weighted A x w stride nin u) (b ! u))) [i..<i + n])"
  using assms(3,4)
proof (induction n arbitrary: i)
  case (Suc n)
  have "acc_loop A x w stride i 0 nin (f_int A 0) = Inr (weighted A x w stride nin i)"
    using acc_loop_spec [of 0 nin x stride i w A "f_int A 0"] assms(1,2) Suc.prems
    by (simp add: weighted_def index_bound)
  moreover have "layer A act x nin w b stride (Suc i) n =
      Inr (map (\<lambda>u. act (f_add A (weighted A x w stride nin u) (b ! u))) [Suc i..<Suc i + n])"
    by (rule Suc.IH) (use Suc.prems in simp_all)
  ultimately show ?case using Suc.prems by (simp add: upt_rec [of i] del: upt_Suc)
qed simp

definition net_ok :: "'f net \<Rightarrow> bool" where
  "net_ok net \<longleftrightarrow> length (W1 net) = input_size net * hidden_size net \<and> length (b1 net) = hidden_size net
     \<and> length (W2 net) = hidden_size net * output_size net \<and> length (b2 net) = output_size net"

definition hidden_values :: "'f arith \<Rightarrow> 'f net \<Rightarrow> 'f list \<Rightarrow> 'f list" where
  "hidden_values A net x = map (\<lambda>u. f_tanh A (f_add A (weighted A x (W1 net) (hidden_size net) (input_size net) u)
     (b1 net ! u))) [0..<hidden_size net]"

definition output_values :: "'f arith \<Rightarrow> 'f net \<Rightarrow> 'f list \<Rightarrow> 'f list" where
  "output_values A net h = map (\<lambda>u. f_add A (weighted A h (W2 net) (output_size net) (hidden_size net) u)
     (b2 net ! u)) [0..<output_size net]"

lemma hidden_layer_ok:
  "net_ok net \<Longrightarrow> input_size net \<le> length x \<Longrightarrow> hidden_layer A net x = Inr (hidden_values A net x)"
  using layer_spec [of "input_size net" x "W1 net" "hidden_size net" 0 "hidden_size net" "b1 net"]
  by (simp add: hidden_layer_def hidden_values_def net_ok_def)

lemma output_layer_ok:
  "net_ok net \<Longrightarrow> length h = hidden_size net \<Longrightarrow> output_layer A net h = Inr (output_values A net h)"
  using layer_spec [of "hidden_size net" h "W2 net" "output_size net" 0 "output_size net" "b2 net" A "\<lambda>v. v"]
  by (simp add: output_layer_def output_values_def net_ok_def)

lemma length_values [simp]:
  "length (hidden_values A net x) = hidden_size net" "length (output_values A net h) = output_size net"
  by (simp_all add: hidden_values_def output_values_def)

lemma write_all:
  "n \<le> length out \<Longrightarrow> n \<le> length xs \<Longrightarrow>
   for_loop 0 n (\<lambda>i out. bnd (rd xs i) (\<lambda>v. wr out i (g v))) out = Inr (map g (take n xs) @ drop n out)"
proof (induction n)
  case (Suc n)
  then show ?case
    using for_loop_add [of 0 n 1 "\<lambda>i out. bnd (rd xs i) (\<lambda>v. wr out i (g v))" out]
    by (simp add: take_Suc_conv_app_nth list_update_append Cons_nth_drop_Suc [symmetric])
qed simp

section \<open>Training keeps the shape\<close>

lemma output_deltas_ok: "i + length h2 \<le> length t \<Longrightarrow> \<exists>ds. output_deltas A t h2 i = Inr ds \<and> length ds = length h2"
proof (induction h2 arbitrary: i)
  case (Cons v h2)
  obtain ds where "output_deltas A t h2 (Suc i) = Inr ds" "length ds = length h2"
    using Cons.IH [of "Suc i"] Cons.prems by auto
  then show ?case using Cons.prems by (simp add: Let_def)
qed simp

lemma hidden_sum_ok:
  "j + n \<le> length d \<Longrightarrow> (\<And>k. k < j + n \<Longrightarrow> i * stride + k < length w) \<Longrightarrow>
   \<exists>s. hidden_sum A d w stride i j n acc = Inr s"
proof (induction n arbitrary: j acc)
  case (Suc n)
  have "\<exists>s. hidden_sum A d w stride i (Suc j) n a = Inr s" for a
    by (rule Suc.IH) (use Suc.prems in simp_all)
  then show ?case using Suc.prems by simp
qed simp

lemma hidden_deltas_ok:
  "no \<le> length d \<Longrightarrow> (i + length h1) * no \<le> length w \<Longrightarrow>
   \<exists>ds. hidden_deltas A d w no h1 i = Inr ds \<and> length ds = length h1"
proof (induction h1 arbitrary: i)
  case (Cons h h1)
  have w: "i * no + k < length w" if "k < no" for k
  proof -
    have "i * no + k < Suc i * no" using that by simp
    also have "\<dots> \<le> (i + length (h # h1)) * no" by (intro mult_le_mono1) simp
    finally show ?thesis using Cons.prems by simp
  qed
  obtain s where "hidden_sum A d w no i 0 no (f_int A 0) = Inr s"
    using hidden_sum_ok [of 0 no d i no w A "f_int A 0"] Cons.prems w by auto
  moreover obtain ds where "hidden_deltas A d w no h1 (Suc i) = Inr ds" "length ds = length h1"
    using Cons.IH [of "Suc i"] Cons.prems by auto
  ultimately show ?case by simp
qed simp

lemma add_at_ok: "k < length w \<Longrightarrow> \<exists>w'. add_at A w k v = Inr w' \<and> length w' = length w"
  by (simp add: add_at_def)

lemma update_layer_ok:
  assumes "length delta = n" and "nin \<le> length x" and "length w = nin * n" and "length b = n"
  shows "\<exists>w' b'. update_layer A lr delta x nin n (w, b) = Inr (w', b') \<and> length w' = nin * n \<and> length b' = n"
proof -
  let ?P = "\<lambda>(w, b). length w = nin * n \<and> length b = n"
  let ?body = "\<lambda>i (w, b). bnd (rd delta i) (\<lambda>d.
       bnd (for_loop 0 nin (\<lambda>j w. bnd (rd x j) (\<lambda>xj. add_at A w (j * n + i) (f_mul A (f_mul A lr d) xj))) w) (\<lambda>w.
       bnd (add_at A b i (f_mul A lr d)) (\<lambda>b. Inr (w, b))))"
  have "\<exists>s'. for_loop 0 n ?body (w, b) = Inr s' \<and> ?P s'"
  proof (rule for_loop_inv)
    fix i and s :: "'a list \<times> 'a list" assume i: "i < 0 + n" and s: "?P s"
    obtain w b where wb: "s = (w, b)" "length w = nin * n" "length b = n" using s by (cases s) auto
    have "\<exists>w'. for_loop 0 nin (\<lambda>j w. bnd (rd x j) (\<lambda>xj. add_at A w (j * n + i) (f_mul A (f_mul A lr (delta ! i)) xj))) w
        = Inr w' \<and> length w' = nin * n"
      by (rule for_loop_inv)
        (use wb i assms(2) in \<open>simp_all add: add_at_def index_bound\<close>)
    then obtain w' where w': "for_loop 0 nin (\<lambda>j w. bnd (rd x j) (\<lambda>xj. add_at A w (j * n + i) (f_mul A (f_mul A lr (delta ! i)) xj))) w
        = Inr w'" "length w' = nin * n" by blast
    obtain b' where "add_at A b i (f_mul A lr (delta ! i)) = Inr b'" "length b' = n"
      using add_at_ok [of i b] wb i by auto
    then show "\<exists>s'. ?body i s = Inr s' \<and> ?P s'" using w' wb(1) i assms(1) by simp
  qed (use assms in simp)
  then show ?thesis by (auto simp: update_layer_def)
qed

lemma backward_ok:
  assumes ok: "net_ok net" and x: "input_size net \<le> length x" and t: "output_size net \<le> length t"
  shows "\<exists>net'. backward A net x t lr = Inr net' \<and> net_ok net' \<and> input_size net' = input_size net
    \<and> hidden_size net' = hidden_size net \<and> output_size net' = output_size net"
proof -
  let ?h1 = "hidden_values A net x" and ?no = "output_size net" and ?nh = "hidden_size net"
  let ?h2 = "output_values A net ?h1"
  obtain d2 where d2: "output_deltas A t ?h2 0 = Inr d2" "length d2 = ?no"
    using output_deltas_ok [of 0 ?h2 t A] t by auto
  obtain d1 where d1: "hidden_deltas A d2 (W2 net) ?no ?h1 0 = Inr d1" "length d1 = ?nh"
    using hidden_deltas_ok [of ?no d2 0 ?h1 "W2 net" A] d2 ok by (auto simp: net_ok_def)
  obtain w1 c1 where u1: "update_layer A lr d1 x (input_size net) ?nh (W1 net, b1 net) = Inr (w1, c1)"
    "length w1 = input_size net * ?nh" "length c1 = ?nh"
    using update_layer_ok [of d1 ?nh "input_size net" x "W1 net" "b1 net" A lr] d1 x ok by (auto simp: net_ok_def)
  obtain w2 c2 where u2: "update_layer A lr d2 ?h1 ?nh ?no (W2 net, b2 net) = Inr (w2, c2)"
    "length w2 = ?nh * ?no" "length c2 = ?no"
    using update_layer_ok [of d2 ?no ?nh ?h1 "W2 net" "b2 net" A lr] d2 ok by (auto simp: net_ok_def)
  show ?thesis
    using d1 d2 u1 u2 hidden_layer_ok [OF ok x] output_layer_ok [OF ok, of ?h1]
    by (simp add: backward_def net_ok_def)
qed

definition same_shape :: "'f net \<Rightarrow> 'f net \<Rightarrow> bool" where
  "same_shape net net' \<longleftrightarrow> net_ok net' \<and> input_size net' = input_size net
     \<and> hidden_size net' = hidden_size net \<and> output_size net' = output_size net"

lemma same_shape_refl [simp]: "same_shape net net = net_ok net"
  by (simp add: same_shape_def)

lemma train_one_ok:
  assumes "same_shape net0 net" and "Suc j * input_size net0 \<le> length inputs"
    and "Suc j * output_size net0 \<le> length targets"
  shows "\<exists>net'. train_one A inputs targets lr j net = Inr net' \<and> same_shape net0 net'"
  using assms backward_ok [of net "drop (j * input_size net) inputs" "drop (j * output_size net) targets" A lr]
  by (auto simp: train_one_def same_shape_def)

lemma samples_ok:
  assumes "same_shape net0 net" and "n * input_size net0 \<le> length inputs"
    and "n * output_size net0 \<le> length targets"
  shows "\<exists>net'. for_loop 0 n (train_one A inputs targets lr) net = Inr net' \<and> same_shape net0 net'"
proof (rule for_loop_inv [where P = "same_shape net0", OF assms(1)])
  fix j net assume "j < 0 + n" and s: "same_shape net0 net"
  then have "Suc j * m \<le> n * m" for m by (intro mult_le_mono1) simp
  then show "\<exists>net'. train_one A inputs targets lr j net = Inr net' \<and> same_shape net0 net'"
    using assms(2,3) by (intro train_one_ok [OF s]) (meson le_trans)+
qed

section \<open>Shuffling\<close>

lemma index_inj: "c < m \<Longrightarrow> d < m \<Longrightarrow> r * m + c = q * m + d \<longleftrightarrow> r = q \<and> c = (d :: nat)"
proof
  assume "c < m" "d < m" and e: "r * m + c = q * m + d"
  have "r = (r * m + c) div m" using \<open>c < m\<close> by simp
  also have "\<dots> = (q * m + d) div m" by (simp only: e)
  also have "\<dots> = q" using \<open>d < m\<close> by simp
  finally show "r = q \<and> c = d" using e by simp
qed simp

definition swapped :: "nat \<Rightarrow> nat \<Rightarrow> nat \<Rightarrow> nat" where
  "swapped i j k = (if k = i then j else if k = j then i else k)"

definition rows_eq :: "nat \<Rightarrow> nat \<Rightarrow> (nat \<Rightarrow> nat) \<Rightarrow> 'f list \<Rightarrow> 'f list \<Rightarrow> bool" where
  "rows_eq m n p ys xs \<longleftrightarrow> length ys = length xs \<and> (\<forall>k<n. \<forall>c<m. ys ! (k * m + c) = xs ! (p k * m + c))"

lemma swap_rows_spec:
  assumes i: "i < n" and j: "j < n" and len: "n * m \<le> length xs"
  shows "\<exists>ys. swap_rows m i j xs = Inr ys \<and> rows_eq m n (swapped i j) ys xs"
proof -
  let ?f = "\<lambda>k xs. bnd (rd xs (i * m + k)) (\<lambda>temp. bnd (rd xs (j * m + k)) (\<lambda>v.
       bnd (wr xs (i * m + k) v) (\<lambda>xs. wr xs (j * m + k) temp)))"
  have b: "k * m + c < length xs" if "k < n" "c < m" for k c
    using index_bound [OF that] len by simp
  have "\<exists>ys. for_loop 0 l ?f xs = Inr ys \<and> length ys = length xs \<and>
      (\<forall>k<n. \<forall>c<m. ys ! (k * m + c) = xs ! ((if c < l then swapped i j k else k) * m + c))" if "l \<le> m" for l
    using that
  proof (induction l)
    case (Suc l)
    then obtain ys where ys: "for_loop 0 l ?f xs = Inr ys" "length ys = length xs"
      "\<And>k c. k < n \<Longrightarrow> c < m \<Longrightarrow> ys ! (k * m + c) = xs ! ((if c < l then swapped i j k else k) * m + c)"
      by auto
    let ?zs = "ys[i * m + l := ys ! (j * m + l), j * m + l := ys ! (i * m + l)]"
    have "?f l ys = Inr ?zs" using b [of i l] b [of j l] i j Suc.prems ys(2) by simp
    then have "for_loop 0 (Suc l) ?f xs = Inr ?zs"
      using for_loop_add [of 0 l 1 ?f xs] ys(1) by simp
    moreover have "?zs ! (k * m + c) = xs ! ((if c < Suc l then swapped i j k else k) * m + c)"
      if "k < n" "c < m" for k c
    proof (cases "c = l")
      case True
      then show ?thesis
        using that i j b [of i l] b [of j l] ys(2) ys(3) [of i l] ys(3) [of j l] ys(3) [of k l] Suc.prems
        by (simp add: nth_list_update index_inj swapped_def)
    next
      case False
      then have "c < Suc l \<longleftrightarrow> c < l" by (simp add: less_Suc_eq)
      with False show ?thesis
        using that ys(3) [of k c] Suc.prems by (simp add: nth_list_update index_inj)
    qed
    ultimately show ?case using ys(2) by simp
  qed simp
  from this [of m] show ?thesis by (auto simp: swap_rows_def rows_eq_def)
qed

lemma rows_eq_trans:
  assumes "rows_eq m n p ys xs" and "rows_eq m n q zs ys" and "\<And>k. k < n \<Longrightarrow> q k < n"
  shows "rows_eq m n (p \<circ> q) zs xs"
  using assms by (simp add: rows_eq_def)

lemma swapped_bij: "i < n \<Longrightarrow> j < n \<Longrightarrow> bij_betw (swapped i j) {..<n} {..<n}"
  by (rule bij_betw_byWitness [of _ "swapped i j"]) (auto simp: swapped_def)

lemma c_int_id: "- (2 ^ 31) \<le> x \<Longrightarrow> x < 2 ^ 31 \<Longrightarrow> c_int x = x"
  by (simp add: c_int_def signed_of_int signed_take_bit_int_eq_self)

lemma c_int_wrap: "c_int (x + 2 ^ 32) = c_int x"
proof -
  have "(word_of_int (x + 2 ^ 32) :: 32 word) = word_of_int x"
    by (simp only: word_of_int_eq_iff take_bit_eq_mod) simp
  then show ?thesis by (simp only: c_int_def)
qed

lemma last_divisor: "shuffle_divisor (Suc i) i = - 2147483648"
  by (simp add: shuffle_divisor_def c_int_def c_div_nonneg RAND_MAX_def)

lemma shuffle_divisor_fits:
  assumes "Suc i < n"
  shows "shuffle_divisor n i = RAND_MAX div int (n - i) + 1"
proof -
  have "RAND_MAX div int (n - i) \<le> RAND_MAX div 2"
    using assms by (intro zdiv_mono2) (simp_all add: RAND_MAX_def)
  moreover have "0 \<le> RAND_MAX div int (n - i)" using assms by (simp add: RAND_MAX_def pos_imp_zdiv_nonneg_iff)
  ultimately show ?thesis
    using assms by (simp add: shuffle_divisor_def c_div_nonneg RAND_MAX_def c_int_id)
qed

lemma shuffle_index_range:
  assumes r: "0 \<le> rnd" "rnd \<le> RAND_MAX" and i: "i < n"
  shows "i \<le> shuffle_index rnd n i" and "shuffle_index rnd n i < n"
proof -
  have "0 \<le> c_div rnd (shuffle_divisor n i) \<and> c_div rnd (shuffle_divisor n i) < int (n - i)"
  proof (cases "Suc i = n")
    case True
    then show ?thesis using r last_divisor [of i] by (auto simp: c_div_def RAND_MAX_def div_pos_pos_trivial)
  next
    case False
    let ?m = "int (n - i)" and ?q = "RAND_MAX div int (n - i)"
    have m: "0 < ?m" using i by simp
    have q: "0 \<le> ?q" using m by (simp add: RAND_MAX_def pos_imp_zdiv_nonneg_iff)
    have "RAND_MAX = ?q * ?m + RAND_MAX mod ?m" by simp
    moreover have "RAND_MAX mod ?m < ?m" using m by simp
    ultimately have rnd: "rnd < (?q + 1) * ?m" using r(2) unfolding distrib_right by linarith
    have "rnd div (?q + 1) < ?m"
    proof (rule ccontr)
      assume "\<not> rnd div (?q + 1) < ?m"
      then have "(?q + 1) * ?m \<le> (?q + 1) * (rnd div (?q + 1))" using q by (intro mult_left_mono) auto
      also have "\<dots> \<le> rnd"
        using mult_div_mod_eq [of "?q + 1" rnd] pos_mod_sign [of "?q + 1" rnd] q by linarith
      finally show False using rnd by simp
    qed
    moreover have "0 \<le> rnd div (?q + 1)" using r(1) q by (simp add: pos_imp_zdiv_nonneg_iff)
    ultimately show ?thesis using shuffle_divisor_fits [of i n] False i r(1) q by (simp add: c_div_nonneg)
  qed
  then show "i \<le> shuffle_index rnd n i" "shuffle_index rnd n i < n"
    using i by (simp_all add: shuffle_index_def nat_less_iff le_nat_iff of_nat_diff)
qed

lemma shuffle_result:
  assumes r: "\<And>i. 0 \<le> r i \<and> r i \<le> RAND_MAX" and x: "n * ni \<le> length inputs" and t: "n * no \<le> length targets"
  shows "\<exists>xs ts p. shuffle r c n ni no (inputs, targets) = Inr (xs, ts) \<and> bij_betw p {..<n} {..<n}
    \<and> rows_eq ni n p xs inputs \<and> rows_eq no n p ts targets"
proof -
  let ?P = "\<lambda>(xs, ts). \<exists>p. bij_betw p {..<n} {..<n} \<and> rows_eq ni n p xs inputs \<and> rows_eq no n p ts targets"
  let ?f = "\<lambda>i (inputs, targets). (let j = shuffle_index (r (c + i)) n i in
        bnd (swap_rows ni i j inputs) (\<lambda>inputs. bnd (swap_rows no i j targets) (\<lambda>targets. Inr (inputs, targets))))"
  have "\<exists>s'. for_loop 0 n ?f (inputs, targets) = Inr s' \<and> ?P s'"
  proof (rule for_loop_inv [where P = ?P])
    have "bij_betw id {..<n} {..<n} \<and> rows_eq ni n id inputs inputs \<and> rows_eq no n id targets targets"
      by (simp add: rows_eq_def)
    then show "?P (inputs, targets)" by blast
  next
    fix i s assume i: "i < 0 + n" and s: "?P s"
    obtain xs ts p where s': "s = (xs, ts)" and p: "bij_betw p {..<n} {..<n}" "rows_eq ni n p xs inputs" "rows_eq no n p ts targets"
      using s by (cases s) auto
    let ?j = "shuffle_index (r (c + i)) n i"
    have j: "?j < n" using shuffle_index_range [of "r (c + i)" i n] r i by simp
    have len: "n * ni \<le> length xs" "n * no \<le> length ts" using p x t by (simp_all add: rows_eq_def)
    obtain ys where ys: "swap_rows ni i ?j xs = Inr ys" "rows_eq ni n (swapped i ?j) ys xs"
      using swap_rows_spec [of i n ?j ni xs] i j len by auto
    obtain us where us: "swap_rows no i ?j ts = Inr us" "rows_eq no n (swapped i ?j) us ts"
      using swap_rows_spec [of i n ?j no ts] i j len by auto
    have sw: "swapped i ?j k < n" if "k < n" for k using i j that by (simp add: swapped_def)
    have "bij_betw (p \<circ> swapped i ?j) {..<n} {..<n}"
      using bij_betw_trans [OF swapped_bij p(1)] i j by simp
    then have "?P (ys, us)"
      using rows_eq_trans [OF p(2) ys(2) sw] rows_eq_trans [OF p(3) us(2) sw] by blast
    then show "\<exists>s'. ?f i s = Inr s' \<and> ?P s'" using ys(1) us(1) s' by (simp add: Let_def)
  qed
  then show ?thesis by (auto simp: shuffle_def)
qed

section \<open>Properties\<close>

text \<open>
  C36. An epoch's shuffle only permutes the samples: with the arrays large enough it returns, and
  row \<open>k\<close> of both the inputs and the targets is row \<open>p k\<close> of the old ones for one permutation
  \<open>p\<close>, so every input keeps its target. In its last round the divisor overflows and is the
  smallest \<open>int\<close>, so that the quotient is 0 and the last row stays.
\<close>

theorem shuffle_permutes:
  assumes r: "\<And>i. 0 \<le> r i \<and> r i \<le> RAND_MAX" and x: "n * ni \<le> length inputs" and t: "n * no \<le> length targets"
  shows "\<exists>xs ts p. shuffle r c n ni no (inputs, targets) = Inr (xs, ts) \<and> bij_betw p {..<n} {..<n}
    \<and> rows_eq ni n p xs inputs \<and> rows_eq no n p ts targets
    \<and> (\<forall>m. n = Suc m \<longrightarrow> shuffle_divisor n m = - 2147483648 \<and> shuffle_index (r (c + m)) n m = m)"
proof -
  have "shuffle_divisor n m = - 2147483648 \<and> shuffle_index (r (c + m)) n m = m" if n: "n = Suc m" for m
    using shuffle_index_range [of "r (c + m)" m n] r last_divisor [of m] unfolding n by (simp add: le_antisym less_Suc_eq_le)
  with shuffle_result [where r = r and c = c, OF r x t] show ?thesis by metis
qed

theorem shuffle_permutes_witness:
  "\<exists>xs ts p. shuffle (\<lambda>i. 5) 0 2 2 1 ([1, 2, 3, 4 :: nat], [7, 8]) = Inr (xs, ts) \<and> bij_betw p {..<2 :: nat} {..<2}
    \<and> rows_eq 1 2 p ts [7, 8]"
  using shuffle_permutes [of "\<lambda>i. 5" 2 2 "[1, 2, 3, 4 :: nat]" 1 "[7, 8]" 0] by (auto simp: RAND_MAX_def)

text \<open>
  \<open>forward\<close> on a network whose arrays have the sizes of its layers stays inside all of them and
  writes to \<open>output\<close> the sigmoid of the weighted sums of the hidden units' values, each of these
  the hyperbolic tangent of its own weighted sum; the rest of the array is unchanged.
\<close>

lemma forward_spec:
  assumes ok: "net_ok net" and x: "input_size net \<le> length x" and out: "output_size net \<le> length out"
  shows "forward A net x out =
    Inr (map (sigmoid A) (output_values A net (hidden_values A net x)) @ drop (output_size net) out)"
  using hidden_layer_ok [OF ok x] output_layer_ok [OF ok, of "hidden_values A net x"]
    write_all [OF out, of "output_values A net (hidden_values A net x)" "sigmoid A"]
  by (simp add: forward_def)

text \<open>The integers as a toy arithmetic, for examples.\<close>

definition int_arith :: "int arith" where
  "int_arith = \<lparr>f_int = id, f_add = (+), f_sub = (-), f_mul = (*), f_div = (div), f_neg = uminus,
     f_exp = id, f_tanh = id, f_sqrt = id, f_trunc = id, f_tenth = 0\<rparr>"

definition demo_net :: "int net" where
  "demo_net = \<lparr>input_size = 2, hidden_size = 1, output_size = 1, W1 = [2, 3], b1 = [1], W2 = [-1], b2 = [5]\<rparr>"

lemma demo_net_ok: "net_ok demo_net" "input_size demo_net = 2" "output_size demo_net = 1"
  by (simp_all add: demo_net_def net_ok_def)

section \<open>Batches\<close>

lemma bnd_right: "bnd m Inr = m"
  by (cases m) simp_all

lemma int_loop_simps:
  "b \<le> a \<Longrightarrow> int_loop a b f s = Inr s"
  "a < b \<Longrightarrow> f a s = Inl e \<Longrightarrow> int_loop a b f s = Inl e"
proof -
  assume "a < b" "f a s = Inl e"
  moreover from this obtain k where "nat (b - a) = Suc k" using not0_implies_Suc [of "nat (b - a)"] by auto
  ultimately show "int_loop a b f s = Inl e" by (simp add: int_loop_def)
qed (simp add: int_loop_def)

lemma for_loop_shift: "for_loop (i + m) n f s = for_loop i n (\<lambda>k. f (k + m)) s"
proof (induction n arbitrary: i s)
  case (Suc n)
  have "for_loop (Suc (i + m)) n f = for_loop (Suc i) n (\<lambda>k. f (k + m))" using Suc.IH [of "Suc i"] by (simp add: fun_eq_iff)
  then show ?case by simp
qed simp

lemma int_loop_add:
  assumes "a \<le> b" and "b \<le> c"
  shows "int_loop a c f s = bnd (int_loop a b f s) (int_loop b c f)"
proof -
  have "nat (c - a) = nat (b - a) + nat (c - b)" using assms by (simp add: nat_add_distrib [symmetric])
  moreover have "for_loop (nat (b - a)) (nat (c - b)) (\<lambda>k. f (a + int k)) = int_loop b c f"
    using for_loop_shift [of 0 "nat (b - a)" "nat (c - b)" "\<lambda>k. f (a + int k)"] assms(1)
    by (simp add: int_loop_def fun_eq_iff ac_simps)
  ultimately show ?thesis by (simp add: int_loop_def [of a] for_loop_add)
qed

lemma batches_from_eq:
  assumes bs: "0 < bs" and n: "n + bs \<le> 2 ^ 31"
  shows "0 \<le> start \<Longrightarrow> batches_from f bs n start s = Some (int_loop start n f s)"
proof (induction "nat (n - start)" arbitrary: start s rule: less_induct)
  case less
  show ?case
  proof (cases "start < n")
    case True
    have c: "c_int (start + bs) = start + bs" using less.prems True bs n by (intro c_int_id) linarith+
    let ?e = "if start + bs > n then n else start + bs"
    have e: "start \<le> ?e" "?e \<le> n" using True bs by simp_all
    have tail: "batches_from f bs n (start + bs) s' = Some (int_loop ?e n f s')" for s'
      using less.hyps [of "start + bs" s'] True bs less.prems int_loop_simps(1) [of n _ f s'] by auto
    note split = int_loop_add [OF e, of f s]
    show ?thesis
    proof (cases "int_loop start ?e f s")
      case (Inl err)
      then show ?thesis using True split by (subst batches_from.simps) (simp add: Let_def c)
    next
      case (Inr s')
      then show ?thesis using True split tail [of s'] by (subst batches_from.simps) (simp add: Let_def c)
    qed
  qed (subst batches_from.simps, simp add: int_loop_simps)
qed

lemma batches_are_samples:
  assumes "0 < bs" and "int n + bs \<le> 2 ^ 31"
  shows "returns (batches_from (train_at A inputs targets lr) bs (int n) 0 net) = train A net inputs targets 1 n lr"
proof -
  have "for_loop 0 n (\<lambda>k. train_at A inputs targets lr (int k)) net = for_loop 0 n (train_one A inputs targets lr) net"
    by (rule arg_cong [where f = "\<lambda>f. for_loop 0 n f net"]) (simp add: train_at_def fun_eq_iff)
  moreover have "for_loop i 0 g = Inr" for i and g :: "nat \<Rightarrow> 'a net \<Rightarrow> 'a net res" by (simp add: fun_eq_iff)
  ultimately show ?thesis using batches_from_eq [OF assms, of 0 "train_at A inputs targets lr" net] by (simp add: int_loop_def train_def bnd_right)
qed

text \<open>A batch size of 0 makes the loop run forever; a negative one makes it leave the arrays at their low end.\<close>

lemma batches_of_zero:
  fixes f :: "int \<Rightarrow> 's \<Rightarrow> 's res"
  assumes a: "start < n" "- (2 ^ 31) \<le> start" "n < 2 ^ 31"
  shows "batches_from f 0 n start s = None"
proof -
  have c: "c_int start = start" using a by (intro c_int_id) linarith+
  have "False" if y: "batches_from f 0 n start s = Some y" for y
  proof -
    have "\<not> (0 = (0 :: int) \<and> c_int start = start \<and> start < n)"
    proof (rule batches_from.raw_induct
        [where P = "\<lambda>(f :: int \<Rightarrow> 's \<Rightarrow> 's res) bs n start (s :: 's) (y :: 's res). \<not> (bs = 0 \<and> c_int start = start \<and> start < n)", OF _ y])
      fix bf :: "(int \<Rightarrow> 's \<Rightarrow> 's res) \<Rightarrow> int \<Rightarrow> int \<Rightarrow> int \<Rightarrow> 's \<Rightarrow> 's res option" and f bs n start s y
      assume ih: "\<And>f bs n start s y. bf f bs n start s = Some y \<Longrightarrow> \<not> (bs = 0 \<and> c_int start = start \<and> start < n)"
        and res: "(if start < n then let end' = c_int (start + bs); end' = if n < end' then n else end'
             in case int_loop start end' f s of Inl e \<Rightarrow> Some (Inl e) | Inr s \<Rightarrow> bf f bs n (c_int (start + bs)) s
           else Some (Inr s)) = Some y"
      show "\<not> (bs = 0 \<and> c_int start = start \<and> start < n)"
        using res ih [of f 0 n start s y] by (auto simp: Let_def int_loop_simps split: if_split_asm)
    qed
    then show False using a c by simp
  qed
  then show ?thesis by (cases "batches_from f 0 n start s") auto
qed

lemma batches_negative:
  assumes bs: "bs < 0" "- (2 ^ 31) \<le> bs" and n: "0 < n" "n < 2 ^ 31" and low: "\<And>i s. i < 0 \<Longrightarrow> f i s = Inl Wild_deref"
  shows "start \<le> 0 \<Longrightarrow> - (2 ^ 31) \<le> start \<Longrightarrow> batches_from f bs n start s = Some (Inl Wild_deref)"
proof (induction "nat (start + 2 ^ 31)" arbitrary: start rule: less_induct)
  case less
  show ?case
  proof (cases "- (2 ^ 31) \<le> start + bs")
    case True
    then have c: "c_int (start + bs) = start + bs" using less.prems bs by (intro c_int_id) linarith+
    have "batches_from f bs n (start + bs) s = Some (Inl Wild_deref)"
      using True less.prems bs by (intro less.hyps) linarith+
    then show ?thesis
      using less.prems bs n by (subst batches_from.simps) (simp add: Let_def c int_loop_simps)
  next
    case False
    have "c_int (start + bs) = c_int (start + bs + 2 ^ 32)" by (simp only: c_int_wrap)
    also have "\<dots> = start + bs + 2 ^ 32" using False less.prems bs by (intro c_int_id) simp_all
    finally have c: "c_int (start + bs) = start + bs + 2 ^ 32" .
    have neg: "start < 0" using False bs by linarith
    have "int_loop start (if c_int (start + bs) > n then n else c_int (start + bs)) f s = Inl Wild_deref"
      by (rule int_loop_simps) (use low neg c n less.prems bs in auto)
    then show ?thesis using neg n by (subst batches_from.simps) (simp add: Let_def)
  qed
qed

text \<open>
  C39. Batches make no difference: for every positive batch size, as long as the sum of the number of
  samples and the batch size is an \<open>int\<close>, an epoch of la.c's \<open>train\<close> is a shuffle of the samples and
  then one epoch of the \<open>train\<close> of tt.c, which goes sample by sample; faults included.
\<close>

theorem batches_irrelevant:
  assumes "0 < bs" and "int n + bs \<le> 2 ^ 31"
  shows "train_batches A r c net inputs targets epochs n lr bs =
    for_loop 0 epochs (\<lambda>epoch (net, inputs, targets).
      bnd (shuffle r (c + epoch * n) n (input_size net) (output_size net) (inputs, targets)) (\<lambda>(inputs, targets).
      bnd (train A net inputs targets 1 n lr) (\<lambda>net. Inr (net, inputs, targets)))) (net, inputs, targets)"
  by (simp only: train_batches_def batches_are_samples [OF assms])

theorem batches_irrelevant_witness:
  "train_batches int_arith (\<lambda>_. 0) 0 demo_net [1, 1, 0, 1] [0, 1] 1000 2 1 2 =
    for_loop 0 1000 (\<lambda>epoch (net, inputs, targets).
      bnd (shuffle (\<lambda>_. 0) (0 + epoch * 2) 2 (input_size net) (output_size net) (inputs, targets)) (\<lambda>(inputs, targets).
      bnd (train int_arith net inputs targets 1 2 1) (\<lambda>net. Inr (net, inputs, targets)))) (demo_net, [1, 1, 0, 1], [0, 1])"
  by (rule batches_irrelevant) simp_all

text \<open>The other sizes, for arrays that hold the samples.\<close>

lemma batch_size_not_positive:
  assumes r: "\<And>i. 0 \<le> r i \<and> r i \<le> RAND_MAX" and x: "n * input_size net \<le> length inputs" and t: "n * output_size net \<le> length targets"
    and bs: "bs \<le> 0" "- (2 ^ 31) \<le> bs" and n: "0 < n" "int n < 2 ^ 31" and e: "0 < epochs"
  shows "train_batches A r c net inputs targets epochs n lr bs = Inl (if bs = 0 then No_return else Wild_deref)"
proof -
  obtain m where m: "epochs = Suc m" using e by (cases epochs) auto
  obtain xs ts where "shuffle r c n (input_size net) (output_size net) (inputs, targets) = Inr (xs, ts)"
    using shuffle_result [where r = r and c = c, OF r x t] by blast
  moreover have "returns (batches_from (train_at A xs ts lr) bs (int n) 0 net) = Inl (if bs = 0 then No_return else Wild_deref)"
    using batches_of_zero [of 0 "int n" "train_at A xs ts lr" net] batches_negative [of bs "int n" "train_at A xs ts lr" 0 net] bs n
    by (auto simp: train_at_def)
  ultimately show ?thesis by (simp add: train_batches_def m)
qed

text \<open>
  C40. Training on samples that are there: with at least \<open>n\<close> rows in both arrays, every access of
  every epoch is inside the arrays, training ends, and the network keeps its sizes.
\<close>

theorem train_in_bounds:
  assumes "net_ok net" and "n * input_size net \<le> length inputs" and "n * output_size net \<le> length targets"
  shows "\<exists>net'. train A net inputs targets epochs n lr = Inr net' \<and> same_shape net net'"
  unfolding train_def
proof (rule for_loop_inv [where P = "same_shape net"])
  fix j net' assume "same_shape net net'"
  then show "\<exists>s'. for_loop 0 n (train_one A inputs targets lr) net' = Inr s' \<and> same_shape net s'"
    by (rule samples_ok) (use assms in auto)
qed (use assms in simp)

theorem train_in_bounds_witness:
  "\<exists>net'. train int_arith demo_net [1, 1, 0, 1] [0, 1] 1000 2 1 = Inr net' \<and> net_ok net'"
  using train_in_bounds [of demo_net 2 "[1, 1, 0, 1]" "[0, 1]" int_arith 1000 1]
  by (auto simp: demo_net_ok same_shape_def)

end
