(* ===== verification/Hook.thy ===== *)
theory Hook
  imports TimerWheel
begin

text \<open>
  The library calls hook.c replaces: \<open>fcntl\<close> and \<open>socket\<close>, with a table of attributes per file
  descriptor, and the sleeping functions, which mark the running task and spin until it has been
  switched away and woken. The functions found with \<open>dlsym\<close> belong to the C library: they are
  parameters of the model, acting on a state of the operating system of arbitrary type.
\<close>

section \<open>File descriptor attributes\<close>

record fd_attributes =
  fa_domain :: int
  fd_flag :: int
  read_timeout :: int
  wirte_timeout :: int

type_synonym fd_table = "int \<rightharpoonup> fd_attributes"

definition attributes_length :: int where "attributes_length = 125100 * 8"

definition O_NONBLOCK :: int where "O_NONBLOCK = 0x800"

text \<open>
  The guard is the conjunction the code has. An index outside the array is a wild access;
  \<open>got\<close> says whether \<open>malloc\<close> succeeds (its result is written to unchecked).
\<close>

definition create_fd_attributes :: "fd_table \<Rightarrow> bool \<Rightarrow> int \<Rightarrow> (bool \<times> fd_table) res" where
  "create_fd_attributes A got fd =
     (if fd < 0 \<and> fd \<ge> attributes_length then Inr (False, A) else
      bnd (check (0 \<le> fd \<and> fd < attributes_length) Wild_deref) (\<lambda>_.
      if A fd \<noteq> None then Inr (True, A)
      else bnd (check got Null_deref) (\<lambda>_.
        Inr (True, A(fd \<mapsto> \<lparr>fa_domain = 0, fd_flag = 0, read_timeout = 1000, wirte_timeout = 1000\<rparr>)))))"

section \<open>fcntl\<close>

datatype fcntl_cmd = F_GETFD | F_SETFD | F_GETFL | F_SETFL | F_GETLK | F_SETLK | F_SETLKW | F_DUPFD | F_other int

text \<open>The C library's \<open>fcntl\<close>: descriptor, command and third argument (a number or an address).\<close>

type_synonym 'o real_fcntl = "int \<Rightarrow> fcntl_cmd \<Rightarrow> int option \<Rightarrow> 'o \<Rightarrow> int \<times> 'o"

definition set_fd_flag :: "fd_table \<Rightarrow> int \<Rightarrow> int \<Rightarrow> fd_table" where
  "set_fd_flag A fd v = A(fd := map_option (\<lambda>a. a\<lparr>fd_flag := v\<rparr>) (A fd))"

definition hook_fcntl ::
    "'o real_fcntl \<Rightarrow> 'a kstate_scheme \<Rightarrow> bool \<Rightarrow> fd_table \<Rightarrow> int \<Rightarrow> fcntl_cmd \<Rightarrow> int \<Rightarrow> 'o
     \<Rightarrow> (int \<times> fd_table \<times> 'o) res" where
  "hook_fcntl real k got A fd cmd arg os =
     (if fd < 0 then Inr (123, A, os) else
      bnd (create_fd_attributes A got fd) (\<lambda>(attributes, A).
      (case cmd of
         F_GETFD \<Rightarrow>
           (let (ret, os) = real fd cmd None os;
                ret = (if attributes \<and> fd_flag (the (A fd)) AND O_NONBLOCK = 0 then ret AND NOT O_NONBLOCK else ret)
            in Inr (ret, A, os))
       | F_SETFD \<Rightarrow> (let (_, os) = real fd cmd (Some arg) os in Inr (0, A, os))
       | F_GETFL \<Rightarrow> (let (ret, os) = real fd cmd None os in Inr (ret, A, os))
       | F_SETFL \<Rightarrow>
           bnd (current_is_hook k) (\<lambda>hooked.
           (let flag = (if hooked \<and> attributes then arg OR O_NONBLOCK else arg);
                (ret, os) = real fd cmd (Some flag) os;
                A = (if ret = 0 \<and> attributes then set_fd_flag A fd arg else A)
            in Inr (ret, A, os)))
       | F_GETLK \<Rightarrow> (let (ret, os) = real fd cmd (Some arg) os in Inr (ret, A, os))
       | F_SETLK \<Rightarrow> (let (ret, os) = real fd cmd (Some arg) os in Inr (ret, A, os))
       | F_SETLKW \<Rightarrow> (let (ret, os) = real fd cmd (Some arg) os in Inr (ret, A, os))
       | F_DUPFD \<Rightarrow> (let (ret, os) = real fd cmd (Some arg) os in Inr (ret, A, os))
       | F_other _ \<Rightarrow> Inr (0, A, os))))"

text \<open>\<open>socket\<close>; the last component of the result is what it prints.\<close>

definition hook_socket ::
    "(int \<Rightarrow> int \<Rightarrow> int \<Rightarrow> 'o \<Rightarrow> int \<times> 'o) \<Rightarrow> 'o real_fcntl \<Rightarrow> 'a kstate_scheme \<Rightarrow> bool \<Rightarrow> fd_table
     \<Rightarrow> int \<Rightarrow> int \<Rightarrow> int \<Rightarrow> 'o \<Rightarrow> (int \<times> fd_table \<times> 'o \<times> string) res" where
  "hook_socket real_socket real k got A domain typ protocol os =
     bnd (current_is_hook k) (\<lambda>hooked.
     if \<not> hooked then (let (ret, os) = real_socket domain typ protocol os in Inr (ret, A, os, []))
     else
       (let (fd, os) = real_socket domain typ protocol os in
        if fd < 0 then Inr (fd, A, os, ''ERROR: error in create a socket in socket().'' @ newline) else
        bnd (create_fd_attributes A got fd) (\<lambda>(attributes, A).
        bnd (check attributes Null_deref) (\<lambda>_.
        (let A = A(fd := map_option (\<lambda>a. a\<lparr>fa_domain := domain\<rparr>) (A fd));
             (flags, os) = real fd F_GETFL (Some 0) os
         in bnd (hook_fcntl real k got A fd F_SETFL flags os) (\<lambda>(_, A, os).
            Inr (fd, A, os, [])))))))"

section \<open>Sleeping\<close>

text \<open>
  Marking the running task. The spin loop after it reads the task's flag again and again;
  \<open>polled i\<close> is the state its \<open>i\<close>-th reading sees.
\<close>

definition mark_sleeper :: "'a kstate_scheme \<Rightarrow> 32 word \<Rightarrow> 'a kstate_scheme res" where
  "mark_sleeper k ms =
     bnd (upd_task k (current_task k) (\<lambda>t. t\<lparr>is_collaborative_schedule := True\<rparr>)) (\<lambda>k.
     upd_task k (current_task k) (\<lambda>t. t\<lparr>sleep_millisecond := ms\<rparr>))"

partial_function (option) spin_from :: "(nat \<Rightarrow> 'a kstate_scheme) \<Rightarrow> nat \<Rightarrow> unit res option" where
  "spin_from polled i =
     (case get_task (polled i) (current_task (polled i)) of
        Inl e \<Rightarrow> Some (Inl e)
      | Inr t \<Rightarrow> (if is_collaborative_schedule t then spin_from polled (Suc i) else Some (Inr ())))"

declare spin_from.simps [code]

text \<open>
  \<open>sleep\<close>: the test \<open>!current_is_hook\<close> is on the address of the function, which is not NULL, so
  it never fails. \<open>found\<close> tells whether \<open>dlsym\<close> finds the C library's \<open>sleep\<close>.
\<close>

definition hook_sleep :: "'a kstate_scheme \<Rightarrow> bool \<Rightarrow> bool \<Rightarrow> 32 word \<Rightarrow> (32 word option \<times> 'a kstate_scheme) res" where
  "hook_sleep k have_ptr found seconds =
     (if \<not> have_ptr \<and> \<not> found then Inr (Some (- 1), k)
      else bnd (mark_sleeper k (seconds * 1000)) (\<lambda>k. Inr (None, k)))"

definition hook_nanosleep ::
    "'a kstate_scheme \<Rightarrow> int \<Rightarrow> 64 word \<Rightarrow> 64 word \<Rightarrow> (int option \<times> 'a kstate_scheme) res" where
  "hook_nanosleep k real_ret tv_sec tv_nsec =
     bnd (current_is_hook k) (\<lambda>hooked.
     if \<not> hooked then Inr (Some real_ret, k)
     else
       bnd (mark_sleeper k (ucast (tv_sec * 1000))) (\<lambda>k.
       bnd (upd_task k (current_task k) (\<lambda>t. t\<lparr>sleep_millisecond :=
         ucast (ucast (sleep_millisecond t) + word_of_int (c_div (sint tv_nsec) 1000000) :: 64 word)\<rparr>)) (\<lambda>k.
       Inr (None, k))))"

definition hook_usleep :: "'a kstate_scheme \<Rightarrow> int \<Rightarrow> 32 word \<Rightarrow> (int option \<times> 'a kstate_scheme) res" where
  "hook_usleep k real_ret usec =
     bnd (current_is_hook k) (\<lambda>hooked.
     if \<not> hooked then Inr (Some real_ret, k)
     else bnd (mark_sleeper k (usec div 1000)) (\<lambda>k. Inr (None, k)))"

definition co_enable_hook_sys :: "'a kstate_scheme \<Rightarrow> 'a kstate_scheme res" where
  "co_enable_hook_sys k = upd_task k (current_task k) (\<lambda>t. t\<lparr>is_hook := True\<rparr>)"

end
