(* ===== verification/Bpf.thy ===== *)
theory Bpf
  imports Devices Hook
begin

text \<open>
  The preemption source of src/Thread: the BPF program kernel/signalkill.bpf.c, which runs at each
  switch of the operating system's scheduler, counts down a time slice for the traced process
  and sends it a signal, and the loader kernel/signalkill.c, which sets up the maps, installs
  the signal handler and starts the tasks. BPF helpers and libbpf are parameters.
\<close>

section \<open>The BPF program\<close>

definition TASK_COMM_LEN :: nat where "TASK_COMM_LEN = 16"

record event =
  ev_pid :: "32 word"
  ev_comm :: string
  ev_success :: bool

text \<open>The three maps, and the signals sent so far (newest last).\<close>

record bpf =
  pid_map :: "32 word \<rightharpoonup> 32 word"
  time_slice_map :: "32 word \<rightharpoonup> 32 word"
  rb :: "event list"
  signals :: "(32 word \<times> nat) list"

text \<open>
  What the helpers give at one event: the pair of ids of the running thread, its command name, the
  result of sending a signal and whether the ring buffer has room.
\<close>

record bpf_ctx =
  pid_tgid :: "64 word"
  comm :: string
  send_ret :: int
  rb_room :: bool

definition ctx_pid :: "bpf_ctx \<Rightarrow> 32 word" where
  "ctx_pid c = ucast (drop_bit 32 (pid_tgid c))"

text \<open>\<open>bpf_send_signal\<close> signals the running process, which is the traced one here.\<close>

definition bpf_send_signal :: "nat \<Rightarrow> bpf_ctx \<Rightarrow> bpf \<Rightarrow> bpf" where
  "bpf_send_signal n c b = (if send_ret c = 0 then b\<lparr>signals := signals b @ [(ctx_pid c, n)]\<rparr> else b)"

definition bpf_dos :: "bpf_ctx \<Rightarrow> bpf \<Rightarrow> bpf" where
  "bpf_dos c b =
     (let pid = ctx_pid c in
      case pid_map b 0 of
        None \<Rightarrow> b
      | Some target_pid \<Rightarrow>
          if target_pid \<noteq> pid then b
          else case time_slice_map b pid of
            None \<Rightarrow> b
          | Some old \<Rightarrow>
              (let ticks = old - 1;
                   b = b\<lparr>time_slice_map := (time_slice_map b)(pid \<mapsto> ticks)\<rparr>
               in if sint ticks \<le> 0 then
                    (let b = b\<lparr>time_slice_map := (time_slice_map b)(pid \<mapsto> 31)\<rparr>;
                         b = bpf_send_signal 10 c b
                     in if rb_room c
                        then b\<lparr>rb := rb b @ [\<lparr>ev_pid = pid, ev_comm = take (TASK_COMM_LEN - 1) (comm c),
                               ev_success = (send_ret c = 0)\<rparr>]\<rparr>
                        else b)
                  else b))"

definition bpf_run :: "bpf_ctx list \<Rightarrow> bpf \<Rightarrow> bpf" where
  "bpf_run xs b = fold bpf_dos xs b"

section \<open>The tasks of the loader\<close>

text \<open>One turn of the loop of \<open>test1\<close> and \<open>test3\<close>: mark the task as sleeping; after the wakeup, print.\<close>

definition test_task :: "'a kstate_scheme \<Rightarrow> tty \<Rightarrow> string \<Rightarrow> nat \<Rightarrow> (unit flow \<times> 'a kstate_scheme \<times> tty) res" where
  "test_task k t str n = console_put_str k t str n"

definition test1_sleep :: "'a kstate_scheme \<Rightarrow> bool \<Rightarrow> bool \<Rightarrow> (32 word option \<times> 'a kstate_scheme) res" where
  "test1_sleep k have_ptr found = hook_sleep k have_ptr found 1"

definition test1_print :: "'a kstate_scheme \<Rightarrow> tty \<Rightarrow> string \<Rightarrow> nat \<Rightarrow> (unit flow \<times> 'a kstate_scheme \<times> tty) res" where
  "test1_print k t str n = console_put_str k t str n"

definition test2_task :: "'a kstate_scheme \<Rightarrow> 'a kstate_scheme res" where
  "test2_task k = Inl No_return"

definition test3_print :: "'a kstate_scheme \<Rightarrow> tty \<Rightarrow> nat \<Rightarrow> (unit flow \<times> 'a kstate_scheme \<times> tty) res" where
  "test3_print k t n = console_put_str k t (''rrr'' @ [CHR 0x0A]) n"

section \<open>The loader\<close>

datatype arg_result = Arg_ok bool | Arg_err_unknown

definition parse_arg :: "char \<Rightarrow> bool \<Rightarrow> arg_result" where
  "parse_arg key verbose = (if key = CHR ''v'' then Arg_ok True else Arg_err_unknown)"

definition kill_sig_handler ::
    "'a tstate_scheme \<Rightarrow> tty \<Rightarrow> nat \<Rightarrow> nat option \<Rightarrow> (unit flow \<times> 'a tstate_scheme \<times> tty) res" where
  "kill_sig_handler s t sig m =
     (let t = stdio_print (''Signal received: '' @ print_int (int sig) @ [CHR 0x0A]) t in
      if sig = SIGUSR1 then
        bnd (interrupt_timer_handler s m) (\<lambda>(fl, s). Inr (fl, s, t))
      else Inr (Returned (), s, t))"

datatype libbpf_print_level = LIBBPF_WARN | LIBBPF_INFO | LIBBPF_DEBUG

text \<open>\<open>printed\<close> is what \<open>vfprintf\<close> would return.\<close>

definition libbpf_print_fn :: "bool \<Rightarrow> libbpf_print_level \<Rightarrow> int \<Rightarrow> int" where
  "libbpf_print_fn verbose level printed = (if level = LIBBPF_DEBUG \<and> \<not> verbose then 0 else printed)"

definition handle_event :: "event \<Rightarrow> int" where
  "handle_event e = 0"

text \<open>What libbpf answers; \<open>polls i\<close> is the result of the \<open>i\<close>-th \<open>ring_buffer__poll\<close>.\<close>

record loader_env =
  skel_ok :: bool
  load_err :: int
  pid_err :: int
  slice_err :: int
  attach_err :: int
  rb_ok :: bool
  polls :: "nat \<Rightarrow> int"
  my_pid :: "32 word"

definition EINTR :: int where "EINTR = 4"

text \<open>\<open>exiting\<close> is never set in the program, so the loop ends only with a negative result.\<close>

partial_function (option) poll_loop :: "(nat \<Rightarrow> int) \<Rightarrow> nat \<Rightarrow> int res option" where
  "poll_loop ps i =
     (let err = ps i in
      if err = - EINTR then Some (Inr 0)
      else if err < 0 then Some (Inr err)
      else poll_loop ps (Suc i))"

declare poll_loop.simps [code]

text \<open>The statements after the label \<open>cleanup\<close>: which of the two objects were given back, the exit code.\<close>

record loader_end =
  exit_code :: int
  rb_freed :: bool
  skel_destroyed :: bool

definition cleanup :: "int \<Rightarrow> bool \<Rightarrow> loader_end" where
  "cleanup err have_rb = \<lparr>exit_code = (if err < 0 then - err else 0), rb_freed = have_rb, skel_destroyed = True\<rparr>"

text \<open>The set-up of \<open>main\<close>: \<open>Inl\<close> the way it ended, or \<open>Inr\<close> the maps with the program attached.\<close>

definition loader_setup :: "loader_env \<Rightarrow> bpf \<Rightarrow> loader_end + bpf" where
  "loader_setup e b =
     (if \<not> skel_ok e then Inl \<lparr>exit_code = 1, rb_freed = False, skel_destroyed = False\<rparr>
      else if load_err e \<noteq> 0 then Inl (cleanup (load_err e) False)
      else if pid_err e \<noteq> 0 then Inl (cleanup (pid_err e) False)
      else
        (let b = b\<lparr>pid_map := (pid_map b)(0 \<mapsto> my_pid e)\<rparr> in
         if slice_err e \<noteq> 0 then Inl (cleanup (slice_err e) False)
         else
           (let b = b\<lparr>time_slice_map := (time_slice_map b)(my_pid e \<mapsto> 31)\<rparr> in
            if attach_err e \<noteq> 0 then Inl (cleanup (attach_err e) False)
            else if \<not> rb_ok e then Inl (cleanup 0 False)
            else Inr b)))"

text \<open>What \<open>malloc\<close> gives to the \<open>i\<close>-th task started: its structure and its stack.\<close>

type_synonym task_mem = "nat \<Rightarrow> task option \<times> 64 word"

fun start_tasks ::
    "'a kstate_scheme \<Rightarrow> abi \<Rightarrow> task_mem \<Rightarrow> nat \<Rightarrow> nat \<Rightarrow> string \<Rightarrow> 32 word \<Rightarrow> 64 word \<Rightarrow> 64 word
     \<Rightarrow> (unit flow \<times> 'a kstate_scheme) res" where
  "start_tasks k a mm i 0 nm prio func arg = Inr (Returned (), k)"
| "start_tasks k a mm i (Suc n) nm prio func arg =
     bnd (task_start k a (fst (mm i)) (snd (mm i)) nm prio func arg) (\<lambda>(fl, k).
     (case fl of Switched \<Rightarrow> Inr (Switched, k)
      | Returned _ \<Rightarrow> start_tasks k a mm (Suc i) n nm prio func arg))"

text \<open>\<open>main\<close>: \<open>f0\<close>, \<open>f1\<close> are the addresses of \<open>test\<close> and \<open>test1\<close>, \<open>d0\<close>, \<open>d1\<close> those of the two strings.\<close>

definition loader_main ::
    "loader_env \<Rightarrow> start_env \<Rightarrow> abi \<Rightarrow> task_mem \<Rightarrow> 64 word \<Rightarrow> 64 word \<Rightarrow> 64 word \<Rightarrow> 64 word
     \<Rightarrow> bpf \<Rightarrow> 'a tstate_scheme \<Rightarrow> tty \<Rightarrow> (loader_end flow \<times> 'a tstate_scheme \<times> tty \<times> bpf) res" where
  "loader_main e se a mm f0 d0 f1 d1 b s t =
     (case loader_setup e b of
        Inl r \<Rightarrow> Inr (Returned r, s, t, b)
      | Inr b \<Rightarrow>
          bnd (init se s t) (\<lambda>(fl, s, t).
          (case fl of Switched \<Rightarrow> Inr (Switched, s, t, b)
           | Returned _ \<Rightarrow>
               bnd (start_tasks s a mm 0 1 ''task1'' 31 f0 d0) (\<lambda>(fl, s).
               (case fl of Switched \<Rightarrow> Inr (Switched, s, t, b)
                | Returned _ \<Rightarrow>
                    bnd (start_tasks s a mm 1 25 ''abc'' 31 f1 d1) (\<lambda>(fl, s).
                    (case fl of Switched \<Rightarrow> Inr (Switched, s, t, b)
                     | Returned _ \<Rightarrow>
                         bnd (returns (poll_loop (polls e) 0)) (\<lambda>err.
                         Inr (Returned (cleanup err True), s, t, b)))))))))"

section \<open>Properties\<close>

lemma of_nat_slice: "r < 31 \<Longrightarrow> sint (of_nat (31 - r) - 1 :: 32 word) = 30 - int r"
proof -
  assume r: "r < 31"
  have "of_nat (31 - r) - 1 = (word_of_int (30 - int r) :: 32 word)" using r by (simp add: of_nat_diff)
  moreover have "sint (word_of_int (30 - int r) :: 32 word) = 30 - int r"
    using r by (simp only: signed_of_int) (simp add: signed_take_bit_int_eq_self)
  ultimately show ?thesis by (simp only:)
qed

text \<open>One event of the traced process, with \<open>r\<close> slices of the 31 used.\<close>

lemma bpf_dos_own:
  assumes "pid_map b 0 = Some (ctx_pid c)" and "time_slice_map b (ctx_pid c) = Some (of_nat (31 - r))"
    and r: "r < 31" and "send_ret c = 0"
  shows "pid_map (bpf_dos c b) 0 = Some (ctx_pid c)"
    and "time_slice_map (bpf_dos c b) (ctx_pid c) = Some (of_nat (31 - Suc r mod 31))"
    and "signals (bpf_dos c b) = signals b @ (if r = 30 then [(ctx_pid c, 10)] else [])"
proof -
  have *: "sint (of_nat (31 - r) - 1 :: 32 word) \<le> 0 \<longleftrightarrow> r = 30" using of_nat_slice [OF r] r by auto
  have "of_nat (31 - r) - 1 = (of_nat (31 - Suc r) :: 32 word)" using r by (simp add: of_nat_diff)
  then show "pid_map (bpf_dos c b) 0 = Some (ctx_pid c)"
    "time_slice_map (bpf_dos c b) (ctx_pid c) = Some (of_nat (31 - Suc r mod 31))"
    "signals (bpf_dos c b) = signals b @ (if r = 30 then [(ctx_pid c, 10)] else [])"
    using assms * by (auto simp: bpf_dos_def Let_def bpf_send_signal_def)
qed

lemma bpf_dos_other: "pid_map b 0 = Some p \<Longrightarrow> ctx_pid c \<noteq> p \<Longrightarrow> bpf_dos c b = b"
  by (simp add: bpf_dos_def Let_def)

lemma bpf_run_rate:
  assumes "pid_map b 0 = Some p" and "time_slice_map b p = Some (of_nat (31 - r))" and "r < 31"
    and "\<forall>c\<in>set xs. send_ret c = 0"
  shows "signals (bpf_run xs b) =
    signals b @ replicate ((r + length (filter (\<lambda>c. ctx_pid c = p) xs)) div 31) (p, 10)"
  using assms
proof (induction xs arbitrary: b r)
  case Nil
  then show ?case by (simp add: bpf_run_def)
next
  case (Cons c xs)
  have run: "bpf_run (c # xs) b = bpf_run xs (bpf_dos c b)" by (simp add: bpf_run_def)
  let ?n = "length (filter (\<lambda>c. ctx_pid c = p) xs)"
  show ?case
  proof (cases "ctx_pid c = p")
    case True
    note d = bpf_dos_own [of b c r] Cons.prems(1,2)
    have IH: "signals (bpf_run xs (bpf_dos c b)) =
        signals (bpf_dos c b) @ replicate ((Suc r mod 31 + ?n) div 31) (p, 10)"
      using Cons.prems d True by (intro Cons.IH) simp_all
    have "signals (bpf_dos c b) = signals b @ (if r = 30 then [(p, 10)] else [])"
      using Cons.prems d True by simp
    moreover have "(if r = 30 then 1 else 0) + (Suc r mod 31 + ?n) div 31 = (r + Suc ?n) div 31"
      using Cons.prems(3) by (cases "r = 30") (simp_all add: div_eq_dividend_iff)
    ultimately show ?thesis
      using run IH True by (auto simp flip: replicate_Suc split: if_splits)
  next
    case False
    then show ?thesis
      using Cons.IH [of b r] Cons.prems run bpf_dos_other [of b p c] by simp
  qed
qed

text \<open>
  C33. The preemption clock: after the loader's set-up, and as long as sending works, the traced
  process gets one SIGUSR1 for every 31 switches away from it, and switches of other processes
  do not count.
\<close>

theorem one_signal_per_slice:
  assumes "loader_setup e b = Inr b'" and "\<forall>c\<in>set xs. send_ret c = 0"
  shows "signals (bpf_run xs b') =
    signals b @ replicate (length (filter (\<lambda>c. ctx_pid c = my_pid e) xs) div 31) (my_pid e, SIGUSR1)"
proof -
  have b': "b' = b\<lparr>pid_map := (pid_map b)(0 \<mapsto> my_pid e), time_slice_map := (time_slice_map b)(my_pid e \<mapsto> 31)\<rparr>"
    using assms(1) by (auto simp: loader_setup_def Let_def split: if_splits)
  show ?thesis
    using bpf_run_rate [of b' "my_pid e" 0 xs] assms(2) by (simp add: b' SIGUSR1_def)
qed

definition demo_loader :: loader_env where
  "demo_loader = \<lparr>skel_ok = True, load_err = 0, pid_err = 0, slice_err = 0, attach_err = 0, rb_ok = True,
     polls = (\<lambda>i. if i < 3 then 0 else - 4), my_pid = 7\<rparr>"

definition empty_bpf :: bpf where
  "empty_bpf = \<lparr>pid_map = Map.empty, time_slice_map = Map.empty, rb = [], signals = []\<rparr>"

definition demo_ctx :: bpf_ctx where
  "demo_ctx = \<lparr>pid_tgid = push_bit 32 7, comm = ''task'', send_ret = 0, rb_room = True\<rparr>"

theorem one_signal_per_slice_witness:
  "\<exists>b. loader_setup demo_loader empty_bpf = Inr b
    \<and> signals (bpf_run (replicate 62 demo_ctx) b) = [(7, 10), (7, 10)]"
proof -
  obtain b where b: "loader_setup demo_loader empty_bpf = Inr b"
    by (simp add: loader_setup_def demo_loader_def)
  have "ctx_pid demo_ctx = 7" by (simp add: ctx_pid_def demo_ctx_def)
  moreover have "send_ret demo_ctx = 0" by (simp add: demo_ctx_def)
  ultimately have "signals (bpf_run (replicate n demo_ctx) b) = replicate (n div 31) (7, 10)" for n
    using one_signal_per_slice [OF b, of "replicate n demo_ctx"]
    by (simp add: demo_loader_def empty_bpf_def SIGUSR1_def)
  from this [of 62] have "signals (bpf_run (replicate 62 demo_ctx) b) = replicate 2 (7, 10)" by (simp only: arith_simps) simp
  moreover have "replicate 2 (7, 10) = [(7, 10), (7 :: 32 word, 10 :: nat)]" by (simp add: numeral_eq_Suc)
  ultimately show ?thesis using b by metis
qed

lemma loader_setup_ok: "loader_setup e b = Inr b' \<Longrightarrow> skel_ok e \<and> rb_ok e"
  by (simp add: loader_setup_def Let_def split: if_split_asm)

lemma loader_setup_end:
  assumes "loader_setup e b = Inl r"
  shows "skel_destroyed r = skel_ok e \<and> \<not> rb_freed r \<and> 0 \<le> exit_code r
    \<and> (exit_code r = 0 \<longleftrightarrow> skel_ok e \<and> 0 \<le> (if load_err e \<noteq> 0 then load_err e else if pid_err e \<noteq> 0 then pid_err e
         else if slice_err e \<noteq> 0 then slice_err e else attach_err e))"
proof -
  define err where "err = (if load_err e \<noteq> 0 then load_err e else if pid_err e \<noteq> 0 then pid_err e
      else if slice_err e \<noteq> 0 then slice_err e else attach_err e)"
  have "r = (if skel_ok e then cleanup err False else \<lparr>exit_code = 1, rb_freed = False, skel_destroyed = False\<rparr>)"
    using assms by (simp add: loader_setup_def err_def Let_def split: if_split_asm)
  then show ?thesis by (simp add: cleanup_def flip: err_def)
qed

text \<open>
  The ways out of the loader before it starts any task: once the skeleton is open it is destroyed
  on all of them, but the exit code reports only negative errors. A ring buffer that cannot be
  created ends the program with code 0 and nothing started.
\<close>

lemma loader_failures:
  "case loader_setup e b of
     Inr _ \<Rightarrow> skel_ok e \<and> rb_ok e
   | Inl r \<Rightarrow> loader_main e se a mm f0 d0 f1 d1 b s t = Inr (Returned r, s, t, b)
       \<and> skel_destroyed r = skel_ok e \<and> \<not> rb_freed r \<and> 0 \<le> exit_code r
       \<and> (exit_code r = 0 \<longleftrightarrow> skel_ok e \<and> 0 \<le> (if load_err e \<noteq> 0 then load_err e else if pid_err e \<noteq> 0 then pid_err e
            else if slice_err e \<noteq> 0 then slice_err e else attach_err e))"
proof (cases "loader_setup e b")
  case (Inl r)
  then have "loader_main e se a mm f0 d0 f1 d1 b s t = Inr (Returned r, s, t, b)"
    by (simp add: loader_main_def)
  then show ?thesis using loader_setup_end [OF Inl] Inl by simp
next
  case (Inr b')
  then show ?thesis using loader_setup_ok [OF Inr] by simp
qed

end
