(* ===== verification/UserPrograms.thy ===== *)
theory UserPrograms
  imports UtsInterrupts NeuralNet Bpf
begin

text \<open>
  The programs of src/User_Schedule/ROS2: each opens a netlink socket to the kernel module, tells it
  the process and a random number of slices, starts the library and some tasks. The answers of the
  system are an environment; the process's own resources are a record, so that what is given back
  on each way out can be read off.
\<close>

section \<open>Random priorities\<close>

text \<open>What opening and reading /dev/urandom gives.\<close>

datatype urandom = Open_failed | Read_short | Read_value "32 word"

text \<open>\<open>abs\<close> on an \<open>int\<close>; the most negative value has no opposite and stays.\<close>

definition c_abs :: "32 word \<Rightarrow> 32 word" where
  "c_abs v = (if sint v < 0 then - v else v)"

definition generate_random_priority :: "urandom \<Rightarrow> int" where
  "generate_random_priority u = (case u of
       Open_failed \<Rightarrow> - 1
     | Read_short \<Rightarrow> - 1
     | Read_value v \<Rightarrow> c_mod (sint (c_abs v)) 32)"

section \<open>The process\<close>

text \<open>A netlink message: sender in the header, destination, and the two numbers.\<close>

record nlmsg =
  nlmsg_pid :: int
  nl_dest :: int
  nl_data0 :: int
  nl_data1 :: int

record thread_args =
  arg_priority :: int
  arg_message :: string

record uproc =
  open_socks :: "int set"
  nlh :: "nlmsg option"
  args_blocks :: "thread_args list"
  sent :: "nlmsg list"

definition uproc_start :: uproc where
  "uproc_start = \<lparr>open_socks = {}, nlh = None, args_blocks = [], sent = []\<rparr>"

record uenv =
  u_pid :: int
  u_sock :: int
  u_bind :: int
  u_nlh :: bool
  u_args :: "nat \<Rightarrow> bool"
  u_rnd :: "nat \<Rightarrow> urandom"

text \<open>
  How a program ends: \<open>main\<close> returns, which flushes the standard output, or it reaches its last loop,
  or it loses the processor to one of its tasks.
\<close>

datatype ending = Exited int | Looping | Away

definition leave :: "ending \<Rightarrow> tty \<Rightarrow> tty" where
  "leave x t = (case x of Exited _ \<Rightarrow> stdio_flush t | _ \<Rightarrow> t)"

section \<open>What the programs print\<close>

definition sent_text :: "int \<Rightarrow> int \<Rightarrow> string" where
  "sent_text pid prio = ''Sent PID '' @ print_int pid @ '' and priority '' @ print_int prio
     @ '' to kernel module'' @ newline"

definition starting_text :: string where
  "starting_text = ''Starting main...'' @ newline"

definition task_line :: string where
  "task_line = ''=================TASK==============='' @ newline"

definition started_text :: string where
  "started_text = ''Task started'' @ newline"

definition completed_text :: string where
  "completed_text = ''Task completed'' @ newline"

definition time_text :: "int \<Rightarrow> string" where
  "time_text elapsed = ''Execution time: '' @ print_int elapsed @ '' seconds'' @ newline"

definition io_text :: "int \<Rightarrow> int \<Rightarrow> string" where
  "io_text bytes elapsed = ''Bytes sent: '' @ print_int bytes @ newline @ ''elapsed_time=='' @ print_int elapsed"

section \<open>Messages and tasks\<close>

text \<open>The socket, its binding and the message: the part the programs share, up to \<open>sendmsg\<close>.\<close>

definition netlink_setup :: "uenv \<Rightarrow> int \<Rightarrow> uproc \<Rightarrow> int option \<times> uproc" where
  "netlink_setup e prio p =
     (let sock_fd = u_sock e in
      if sock_fd < 0 then (Some (- 1), p) else
      (let p = p\<lparr>open_socks := insert sock_fd (open_socks p)\<rparr> in
       if u_bind e < 0 then (Some (- 1), p\<lparr>open_socks := open_socks p - {sock_fd}\<rparr>)
       else if \<not> u_nlh e then (Some (- 1), p\<lparr>open_socks := open_socks p - {sock_fd}\<rparr>)
       else (None, p\<lparr>nlh := Some \<lparr>nlmsg_pid = u_pid e, nl_dest = 0, nl_data0 = u_pid e, nl_data1 = prio\<rparr>\<rparr>)))"

definition send_nlh :: "uproc \<Rightarrow> uproc" where
  "send_nlh p = (case nlh p of None \<Rightarrow> p | Some m \<Rightarrow> p\<lparr>sent := sent p @ [m]\<rparr>)"

text \<open>
  Starting task number \<open>i\<close>: its argument block, its random priority, \<open>task_start\<close>. \<open>fp\<close>
  is the address of the task's function; the blocks are at addresses \<open>ap i\<close>.
\<close>

definition start_one ::
    "uenv \<Rightarrow> abi \<Rightarrow> task_mem \<Rightarrow> (nat \<Rightarrow> 64 word) \<Rightarrow> 64 word \<Rightarrow> string \<Rightarrow> string \<Rightarrow> nat
     \<Rightarrow> 'a kstate_scheme \<Rightarrow> uproc \<Rightarrow> (ending option \<times> 'a kstate_scheme \<times> uproc) res" where
  "start_one e a mm ap fp nm msg i k p =
     (if \<not> u_args e i then Inr (Some (Exited (- 1)), k, p)
      else
        (let prio = generate_random_priority (u_rnd e i);
             p = p\<lparr>args_blocks := args_blocks p @ [\<lparr>arg_priority = prio, arg_message = msg\<rparr>]\<rparr>
         in bnd (task_start k a (fst (mm i)) (snd (mm i)) nm (word_of_int prio) fp (ap i)) (\<lambda>(fl, k).
            Inr ((case fl of Switched \<Rightarrow> Some Away | Returned _ \<Rightarrow> None), k, p))))"

fun start_loop ::
    "uenv \<Rightarrow> abi \<Rightarrow> task_mem \<Rightarrow> (nat \<Rightarrow> 64 word) \<Rightarrow> 64 word \<Rightarrow> string \<Rightarrow> string \<Rightarrow> nat \<Rightarrow> nat
     \<Rightarrow> 'a kstate_scheme \<Rightarrow> uproc \<Rightarrow> (ending option \<times> 'a kstate_scheme \<times> uproc) res" where
  "start_loop e a mm ap fp nm msg i 0 k p = Inr (None, k, p)"
| "start_loop e a mm ap fp nm msg i (Suc n) k p =
     bnd (start_one e a mm ap fp nm msg i k p) (\<lambda>(r, k, p).
     (case r of Some x \<Rightarrow> Inr (Some x, k, p)
      | None \<Rightarrow> start_loop e a mm ap fp nm msg (Suc i) n k p))"

section \<open>main.c\<close>

text \<open>
  The library is started first. \<open>u_rnd 0\<close> is the process's own number, task \<open>i\<close> uses
  \<open>u_rnd i\<close>. The program ends in a loop of sleeping and printing.
\<close>

definition uts_main ::
    "uenv \<Rightarrow> start_env \<Rightarrow> int \<Rightarrow> abi \<Rightarrow> task_mem \<Rightarrow> (nat \<Rightarrow> 64 word) \<Rightarrow> 64 word \<Rightarrow> 64 word \<Rightarrow> dispositions
     \<Rightarrow> 'a tstate_scheme \<Rightarrow> tty \<Rightarrow> uproc \<Rightarrow> (ending \<times> 'a tstate_scheme \<times> uproc \<times> tty) res" where
  "uts_main e se ret a mm ap f0 f1 d s t p =
     bnd (uts_init se ret d s t) (\<lambda>(fl, s, t, d).
     (case fl of Switched \<Rightarrow> Inr (Away, s, p, t)
      | Returned _ \<Rightarrow>
          (let priority = generate_random_priority (u_rnd e 0);
               (r, p) = netlink_setup e priority p
           in case r of Some c \<Rightarrow> Inr (Exited c, s, p, stdio_flush t)
              | None \<Rightarrow>
                  (let p = send_nlh p; t = stdio_print (sent_text (u_pid e) priority) t in
                   bnd (start_one e a mm ap f0 ''test1'' ''argA '' 1 s p) (\<lambda>(r, s, p).
                   (case r of Some x \<Rightarrow> Inr (x, s, p, leave x t)
                    | None \<Rightarrow>
                        bnd (start_loop e a mm ap f1 ''abc'' ''thread '' 2 1000 s p) (\<lambda>(r, s, p).
                        (case r of Some x \<Rightarrow> Inr (x, s, p, leave x t) | None \<Rightarrow> Inr (Looping, s, p, t)))))))))"

text \<open>One turn of the last loop of main.c, and of most benchmarks, after its \<open>sleep\<close>.\<close>

definition uts_main_turn :: "'a kstate_scheme \<Rightarrow> tty \<Rightarrow> nat \<Rightarrow> (unit flow \<times> 'a kstate_scheme \<times> tty) res" where
  "uts_main_turn k t n = console_put_str k t task_line n"

text \<open>The task functions of main.c: what \<open>test\<close>, and one turn of \<open>test1\<close> and \<open>test3\<close>, print; \<open>test2\<close> spins.\<close>

definition uts_test :: "'a kstate_scheme \<Rightarrow> tty \<Rightarrow> thread_args \<Rightarrow> nat \<Rightarrow> (unit flow \<times> 'a kstate_scheme \<times> tty) res" where
  "uts_test k t targs n = console_put_str k t (arg_message targs) n"

definition uts_test1_print :: "'a kstate_scheme \<Rightarrow> tty \<Rightarrow> thread_args \<Rightarrow> nat \<Rightarrow> (unit flow \<times> 'a kstate_scheme \<times> tty) res" where
  "uts_test1_print k t targs n =
     bnd (console_put_str k t (arg_message targs) n) (\<lambda>(fl, k, t).
     (case fl of Switched \<Rightarrow> Inr (Switched, k, t)
      | Returned _ \<Rightarrow> Inr (Returned (), k, stdio_print (''Thread  completed!'' @ newline) t)))"

definition uts_test2 :: "'a kstate_scheme \<Rightarrow> 'a kstate_scheme res" where
  "uts_test2 k = Inl No_return"

definition uts_test3_print :: "'a kstate_scheme \<Rightarrow> tty \<Rightarrow> nat \<Rightarrow> (unit flow \<times> 'a kstate_scheme \<times> tty) res" where
  "uts_test3_print k t n = console_put_str k t (''rrr'' @ newline) n"

section \<open>The benchmarks on the library\<close>

text \<open>
  The common course of the benchmark programs: message, library, \<open>n\<close> tasks and one more, waiting for
  all of them. \<open>sends\<close> tells whether \<open>main\<close> itself sends the message; \<open>polled i\<close> is what the
  \<open>i\<close>-th round of \<open>task_wait_all\<close> sees.
\<close>

definition bench_start ::
    "bool \<Rightarrow> nat \<Rightarrow> uenv \<Rightarrow> start_env \<Rightarrow> int \<Rightarrow> abi \<Rightarrow> task_mem \<Rightarrow> (nat \<Rightarrow> 64 word) \<Rightarrow> 64 word \<Rightarrow> dispositions
     \<Rightarrow> 'a tstate_scheme \<Rightarrow> tty \<Rightarrow> uproc \<Rightarrow> (ending option \<times> 'a tstate_scheme \<times> uproc \<times> tty) res" where
  "bench_start sends n e se ret a mm ap fp d s t p =
     (let t = stdio_print starting_text t;
          priority = generate_random_priority (u_rnd e 0);
          (r, p) = netlink_setup e priority p
      in case r of Some c \<Rightarrow> Inr (Some (Exited c), s, p, stdio_flush t)
         | None \<Rightarrow>
             (let (p, t) = (if sends then (send_nlh p, stdio_flush (stdio_print (sent_text (u_pid e) priority) t)) else (p, t)) in
              bnd (uts_init se ret d s t) (\<lambda>(fl, s, t, d).
              (case fl of Switched \<Rightarrow> Inr (Some Away, s, p, t)
               | Returned _ \<Rightarrow>
                   bnd (start_loop e a mm ap fp ''interfering_task'' ''thread '' 1 n s p) (\<lambda>(r, s, p).
                   (case r of Some x \<Rightarrow> Inr (Some x, s, p, leave x t)
                    | None \<Rightarrow>
                        (let t = stdio_print newline t in
                         bnd (start_one e a mm ap fp ''main_task'' ''argA '' (Suc n) s p) (\<lambda>(r, s, p).
                         (case r of Some x \<Rightarrow> Inr (Some x, s, p, leave x t)
                          | None \<Rightarrow> Inr (None, s, p, stdio_print newline t))))))))))"

text \<open>\<open>fin\<close> is what a program does after the wait and before its last loop.\<close>

definition bench_wait ::
    "(nat \<Rightarrow> 'a tstate_scheme) \<Rightarrow> (uproc \<times> tty \<Rightarrow> uproc \<times> tty) \<Rightarrow> (ending option \<times> 'a tstate_scheme \<times> uproc \<times> tty)
     \<Rightarrow> (ending \<times> 'a tstate_scheme \<times> uproc \<times> tty) res" where
  "bench_wait polled fin = (\<lambda>(r, s, p, t).
     (case r of Some x \<Rightarrow> Inr (x, s, p, t)
      | None \<Rightarrow> bnd (task_wait_all polled) (\<lambda>_. let (p, t) = fin (p, t) in Inr (Looping, s, p, t))))"

text \<open>la.c gives its resources back before its final loop, the others have that code after it.\<close>

definition give_back :: "uenv \<Rightarrow> uproc \<times> tty \<Rightarrow> uproc \<times> tty" where
  "give_back e = (\<lambda>(p, t). (p\<lparr>nlh := None, open_socks := open_socks p - {u_sock e}\<rparr>, stdio_flush t))"

definition latency_main where
  "latency_main e se ret a mm ap fp d polled s t p =
     bnd (bench_start True 100 e se ret a mm ap fp d s t p) (bench_wait polled (\<lambda>x. x))"

definition la_main where
  "la_main e se ret a mm ap fp d polled s t p =
     bnd (bench_start True 50 e se ret a mm ap fp d s t p) (bench_wait polled (give_back e))"

text \<open>One turn of the last loop of la.c, of pth.c and of open.c.\<close>

definition la_main_turn :: "int \<Rightarrow> tty \<Rightarrow> tty" where
  "la_main_turn pid t = stdio_print (print_int pid @ newline) t"

definition time_latency_main where
  "time_latency_main e se ret a mm ap fp d polled s t p =
     bnd (bench_start True 50 e se ret a mm ap fp d s t p) (bench_wait polled (\<lambda>x. x))"

text \<open>time/test.c measures the whole run; \<open>elapsed\<close> is the difference of its clock readings.\<close>

definition time_test_main where
  "time_test_main e se ret a mm ap fp d polled elapsed s t p =
     bnd (bench_start True 50 e se ret a mm ap fp d s t p)
       (bench_wait polled (\<lambda>(p, t). (p, stdio_print (time_text elapsed) t)))"

definition time_time_main where
  "time_time_main e se ret a mm ap fp d polled s t p =
     bnd (bench_start True 25 e se ret a mm ap fp d s t p) (bench_wait polled (\<lambda>x. x))"

definition tt_main where
  "tt_main e se ret a mm ap fp d polled s t p =
     bnd (bench_start False 50 e se ret a mm ap fp d s t p) (bench_wait polled (\<lambda>x. x))"

section \<open>The tasks of the benchmarks\<close>

text \<open>
  A task trains a network with 2, 3 and 1 units and appends a line to a file. \<open>elapsed\<close> is the
  difference of the two clock readings, \<open>opened\<close> tells whether \<open>fopen\<close> succeeds. The report of a task
  that ends is its prediction, the text added to the file and the text it printed.
\<close>

type_synonym report = "int \<times> (string \<times> string) option \<times> string"

definition plain_task :: "'f arith \<Rightarrow> rand_stream \<Rightarrow> int res" where
  "plain_task A r =
     (let net = init_net A r 2 3 1;
          inputs = rand_array (rand_input A r) 13 8;
          targets = rand_array (rand_input A r) 21 4
      in bnd (train A net inputs targets 1000 8 (f_tenth A)) (\<lambda>net. predict A net inputs))"

definition xavier_task :: "'f arith \<Rightarrow> rand_stream \<Rightarrow> bool \<Rightarrow> int option res" where
  "xavier_task A r got =
     (case init_net_xavier A r got 2 3 1 of
        None \<Rightarrow> Inr None
      | Some net \<Rightarrow>
          (let inputs = rand_array (rand_input A r) 9 8;
               targets = rand_array (rand_input A r) 17 4
           in bnd (train_batches A r 21 net inputs targets 1000 8 (f_tenth A) 2) (\<lambda>(net, inputs, targets).
              bnd (predict A net inputs) (\<lambda>v. Inr (Some v)))))"

text \<open>time/time.c has the Xavier initialisation but trains sample by sample.\<close>

definition xavier_plain_task :: "'f arith \<Rightarrow> rand_stream \<Rightarrow> bool \<Rightarrow> int option res" where
  "xavier_plain_task A r got =
     (case init_net_xavier A r got 2 3 1 of
        None \<Rightarrow> Inr None
      | Some net \<Rightarrow>
          (let inputs = rand_array (rand_input A r) 9 8;
               targets = rand_array (rand_input A r) 17 4
           in bnd (train A net inputs targets 1000 8 (f_tenth A)) (\<lambda>net.
              bnd (predict A net inputs) (\<lambda>v. Inr (Some v)))))"

definition log_line :: "string \<Rightarrow> bool \<Rightarrow> string \<Rightarrow> (string \<times> string) option" where
  "log_line fname opened line = (if opened then Some (fname, line) else None)"

text \<open>The report of a timed task, and of one that also logs how many bytes its message had.\<close>

definition timed_report :: "string \<Rightarrow> bool \<Rightarrow> int \<Rightarrow> string \<Rightarrow> int \<Rightarrow> report" where
  "timed_report fname opened elapsed before v =
     (v, log_line fname opened (print_int elapsed @ newline), before @ time_text elapsed @ completed_text)"

definition io_report :: "string \<Rightarrow> bool \<Rightarrow> int \<Rightarrow> int \<Rightarrow> int \<Rightarrow> report" where
  "io_report fname opened bytes elapsed v =
     (v, log_line fname opened (print_int bytes @ '' '' @ print_int elapsed @ newline),
      started_text @ io_text bytes elapsed @ completed_text)"

definition latency_task :: "'f arith \<Rightarrow> rand_stream \<Rightarrow> int \<Rightarrow> bool \<Rightarrow> report res" where
  "latency_task A r elapsed opened =
     bnd (plain_task A r) (\<lambda>v. Inr (timed_report ''time_u.txt'' opened elapsed started_text v))"

text \<open>tt.c sends a message from each task and logs how many bytes went out.\<close>

definition tt_task :: "'f arith \<Rightarrow> rand_stream \<Rightarrow> uproc \<Rightarrow> int \<Rightarrow> int \<Rightarrow> bool \<Rightarrow> (report \<times> uproc) res" where
  "tt_task A r p bytes elapsed opened =
     (let p = send_nlh p in
      bnd (plain_task A r) (\<lambda>v. Inr (io_report ''time11.txt'' opened bytes elapsed v, p)))"

definition pth_task :: "'f arith \<Rightarrow> rand_stream \<Rightarrow> uproc \<Rightarrow> int \<Rightarrow> int \<Rightarrow> bool \<Rightarrow> (report \<times> uproc) res" where
  "pth_task A r p bytes elapsed opened =
     (let p = send_nlh p in
      bnd (plain_task A r) (\<lambda>v. Inr (io_report ''data1.txt'' opened bytes elapsed v, p)))"

definition open_task :: "'f arith \<Rightarrow> rand_stream \<Rightarrow> uproc \<Rightarrow> int \<Rightarrow> int \<Rightarrow> bool \<Rightarrow> (report \<times> uproc) res" where
  "open_task A r p bytes elapsed opened =
     (let p = send_nlh p in
      bnd (plain_task A r) (\<lambda>v. Inr (io_report ''data0.txt'' opened bytes elapsed v, p)))"

definition time_latency_task :: "'f arith \<Rightarrow> rand_stream \<Rightarrow> int \<Rightarrow> bool \<Rightarrow> report res" where
  "time_latency_task A r elapsed opened =
     bnd (plain_task A r) (\<lambda>v. Inr (timed_report ''time.txt'' opened elapsed started_text v))"

text \<open>time/test.c opens and closes its file without writing a line.\<close>

definition time_test_task :: "'f arith \<Rightarrow> rand_stream \<Rightarrow> bool \<Rightarrow> report res" where
  "time_test_task A r opened =
     bnd (plain_task A r) (\<lambda>v. Inr (v, log_line ''time.txt'' opened [], started_text @ completed_text))"

definition time_time_task :: "'f arith \<Rightarrow> rand_stream \<Rightarrow> bool \<Rightarrow> int \<Rightarrow> bool \<Rightarrow> report option res" where
  "time_time_task A r got elapsed opened =
     bnd (xavier_plain_task A r got) (\<lambda>v. Inr (map_option (timed_report ''time.txt'' opened elapsed started_text) v))"

definition la_task :: "'f arith \<Rightarrow> rand_stream \<Rightarrow> bool \<Rightarrow> int \<Rightarrow> bool \<Rightarrow> report option res" where
  "la_task A r got elapsed opened =
     bnd (xavier_task A r got) (\<lambda>v. Inr (map_option (timed_report ''time.txt'' opened elapsed started_text) v))"

definition pthread_task :: "'f arith \<Rightarrow> rand_stream \<Rightarrow> bool \<Rightarrow> int \<Rightarrow> bool \<Rightarrow> report option res" where
  "pthread_task A r got elapsed opened =
     bnd (xavier_task A r got) (\<lambda>v. Inr (map_option (timed_report ''time_p.txt'' opened elapsed []) v))"

definition openmp_task :: "'f arith \<Rightarrow> rand_stream \<Rightarrow> bool \<Rightarrow> int \<Rightarrow> bool \<Rightarrow> report option res" where
  "openmp_task A r got elapsed opened =
     bnd (xavier_task A r got) (\<lambda>v. Inr (map_option (timed_report ''time_o.txt'' opened elapsed []) v))"

section \<open>The benchmarks on POSIX threads and OpenMP\<close>

text \<open>
  The array of thread handles: a created thread has a fresh number, kept at an index; joining
  waits for the thread whose number is there. \<open>tcreated\<close> counts the threads.
\<close>

record threads =
  handle :: "nat \<rightharpoonup> nat"
  tcreated :: nat
  tjoined :: "nat set"

definition no_threads :: threads where
  "no_threads = \<lparr>handle = Map.empty, tcreated = 0, tjoined = {}\<rparr>"

definition pthread_create :: "nat \<Rightarrow> threads \<Rightarrow> threads" where
  "pthread_create i x = x\<lparr>handle := (handle x)(i \<mapsto> tcreated x), tcreated := Suc (tcreated x)\<rparr>"

definition pthread_join :: "nat \<Rightarrow> threads \<Rightarrow> threads res" where
  "pthread_join i x = (case handle x i of None \<Rightarrow> Inl Uninit_read
     | Some n \<Rightarrow> Inr (x\<lparr>tjoined := insert n (tjoined x)\<rparr>))"

definition join_all :: "nat \<Rightarrow> threads \<Rightarrow> threads res" where
  "join_all n = for_loop 0 (Suc n) pthread_join"

definition create_range :: "nat \<Rightarrow> nat \<Rightarrow> threads \<Rightarrow> threads" where
  "create_range i n x = fold pthread_create [i..<i + n] x"

text \<open>\<open>t\<close> is the terminal; the text the threads print is in their reports.\<close>

definition pth_main :: "tty \<Rightarrow> (ending \<times> threads \<times> tty) res" where
  "pth_main t =
     (let num_threads = 50; t = stdio_print starting_text t;
          x = pthread_create 0 no_threads; x = pthread_create 0 x;
          x = create_range 1 num_threads x
      in bnd (join_all num_threads x) (\<lambda>x. Inr (Looping, x, t)))"

definition pthread_main :: "tty \<Rightarrow> (ending \<times> threads \<times> tty) res" where
  "pthread_main t =
     (let num_threads = 50; t = stdio_print starting_text t;
          x = pthread_create 0 no_threads; x = create_range 1 num_threads x
      in bnd (join_all num_threads x) (\<lambda>x. Inr (Exited 0, x, stdio_flush t)))"

text \<open>The parallel region: a team of 51 threads, each running the task, all joined at its end.\<close>

definition omp_region :: "nat \<Rightarrow> threads res" where
  "omp_region n = join_all (n - 1) (create_range 0 n no_threads)"

definition openmp_main :: "tty \<Rightarrow> (ending \<times> threads \<times> tty) res" where
  "openmp_main t =
     (let num_threads = 50; t = stdio_print starting_text t
      in bnd (omp_region (num_threads + 1)) (\<lambda>x. Inr (Exited 0, x, stdio_flush t)))"

definition open_main :: "tty \<Rightarrow> (ending \<times> threads \<times> tty) res" where
  "open_main t =
     (let num_threads = 50; t = stdio_print starting_text t
      in bnd (omp_region (num_threads + 1)) (\<lambda>x. Inr (Looping, x, t)))"

section \<open>The demonstration on POSIX threads\<close>

text \<open>
  test\_dir/test\_code/pthread.c: one thread and 25 more, each created and joined with its result
  checked. \<open>create_err i\<close> and \<open>join_err i\<close> are the results for the thread with handle \<open>i\<close>, the
  single thread being number 25. The threads never end, so a join that succeeds is one of a thread
  that was cancelled from outside. The result is the exit code and how many threads were created.
\<close>

fun checked_loop :: "(nat \<Rightarrow> bool) \<Rightarrow> nat \<Rightarrow> nat \<Rightarrow> nat \<times> bool" where
  "checked_loop err i 0 = (0, True)"
| "checked_loop err i (Suc n) =
     (if err i then (0, False) else (let (k, ok) = checked_loop err (Suc i) n in (Suc k, ok)))"

definition demo_pthread_main :: "(nat \<Rightarrow> bool) \<Rightarrow> (nat \<Rightarrow> bool) \<Rightarrow> int \<times> nat" where
  "demo_pthread_main create_err join_err =
     (if create_err 25 then (1, 0)
      else (let (k, ok) = checked_loop create_err 0 25 in
        if \<not> ok then (1, Suc k)
        else if \<not> snd (checked_loop join_err 0 25) then (1, Suc k)
        else if join_err 25 then (1, Suc k)
        else (0, Suc k)))"

text \<open>One turn of the loops of the threads of pthread.c; \<open>cpu_intensive_task\<close> and \<open>io_intensive_task\<close> are not used there.\<close>

definition thread_message :: "int \<Rightarrow> string \<Rightarrow> string" where
  "thread_message i message = ''Thread ID: '' @ print_int i @ '' - '' @ message @ newline"

definition cpu_intensive :: "'s \<Rightarrow> 's res" where
  "cpu_intensive s = Inl No_return"

definition io_intensive :: "int \<Rightarrow> string" where
  "io_intensive i = ''IO Intensive Thread ID: '' @ print_int i @ '' - IO intensive task'' @ newline"

section \<open>The demonstration on OpenMP\<close>

text \<open>
  test\_dir/test\_code/openMP.c: the thread that executes the outer \<open>single\<close> creates one task, then
  opens a team of which one thread creates 25 more. \<open>omp_task_text\<close> is what a task with the label
  \<open>label\<close> has printed after \<open>n\<close> turns of its loop in the thread \<open>i\<close>.
\<close>

definition demo_openmp_tasks :: "string list" where
  "demo_openmp_tasks = ''IO Intensive Single thread running...'' # replicate 25 ''IO Intensive Thread running...''"

definition omp_task_text :: "string \<Rightarrow> int \<Rightarrow> nat \<Rightarrow> string" where
  "omp_task_text label i n =
     ''Task ID: '' @ print_int i @ '' - '' @ label @ newline @ concat (replicate n (io_intensive i))"

section \<open>schedule\_main.c\<close>

text \<open>
  The small demonstration program: two tasks, found again by their numbers, and what is printed of
  them. The result is the state and the terminal with which the program pauses for ever.
\<close>

definition schedule_main ::
    "start_env \<Rightarrow> int \<Rightarrow> abi \<Rightarrow> task_mem \<Rightarrow> 64 word \<Rightarrow> 64 word \<Rightarrow> dispositions \<Rightarrow> 'a tstate_scheme \<Rightarrow> tty
     \<Rightarrow> (unit flow \<times> 'a tstate_scheme \<times> tty) res" where
  "schedule_main se ret a mm f0 f1 d s t =
     bnd (uts_init se ret d s t) (\<lambda>(fl, s, t, d).
     (case fl of Switched \<Rightarrow> Inr (Switched, s, t)
      | Returned _ \<Rightarrow>
          bnd (print_task_info s (current_task s)) (\<lambda>i0.
          (let t = stdio_print i0 t in
           bnd (task_start s a (fst (mm 0)) (snd (mm 0)) ''test'' 31 f0 0) (\<lambda>(fl, s).
           (case fl of Switched \<Rightarrow> Inr (Switched, s, t)
            | Returned _ \<Rightarrow>
                bnd (task_start s a (fst (mm 1)) (snd (mm 1)) ''test1'' 31 f1 0) (\<lambda>(fl, s).
                (case fl of Switched \<Rightarrow> Inr (Switched, s, t)
                 | Returned _ \<Rightarrow>
                     bnd (tid2task s 2) (\<lambda>ptask.
                     bnd (print_task_info s ptask) (\<lambda>i1.
                     (let t = stdio_print i1 t in
                      bnd (tid2task s 3) (\<lambda>ptask.
                      bnd (print_task_info s ptask) (\<lambda>i2.
                      Inr (Returned (), interrupt_enable s, stdio_print i2 t))))))))))))))"

text \<open>The tasks of the program print a line and end themselves.\<close>

definition schedule_main_task :: "string \<Rightarrow> 'a kstate_scheme \<Rightarrow> tty \<Rightarrow> (unit flow \<times> 'a kstate_scheme \<times> tty) res" where
  "schedule_main_task line k t =
     (let t = stdio_print (line @ newline) t in
      bnd (task_exit k (current_task k)) (\<lambda>(fl, k). Inr (fl, k, t)))"

definition schedule_main_test :: "'a kstate_scheme \<Rightarrow> tty \<Rightarrow> (unit flow \<times> 'a kstate_scheme \<times> tty) res" where
  "schedule_main_test k t = schedule_main_task ''task1 start:----------'' k t"

definition schedule_main_test1 :: "'a kstate_scheme \<Rightarrow> tty \<Rightarrow> (unit flow \<times> 'a kstate_scheme \<times> tty) res" where
  "schedule_main_test1 k t = schedule_main_task ''task2 start:----------'' k t"

end
