(* ===== verification/BenchProps.thy ===== *)
theory BenchProps
  imports UserPrograms
begin

text \<open>
  What the benchmark programs do: the samples their tasks train on, and the threads they wait for.
\<close>

section \<open>Loops that leave their arrays\<close>

lemma for_loop_wild:
  assumes "P s" and step: "\<And>j s. P s \<Longrightarrow> f j s = Inl Wild_deref \<or> (\<exists>s'. f j s = Inr s' \<and> P s')"
  shows "for_loop i n f s = Inl Wild_deref \<or> (\<exists>s'. for_loop i n f s = Inr s' \<and> P s')"
  using assms(1)
proof (induction n arbitrary: i s)
  case (Suc n)
  show ?case
  proof (cases "f i s")
    case (Inl e)
    then show ?thesis using step [OF Suc.prems, of i] by auto
  next
    case (Inr s1)
    then show ?thesis using step [OF Suc.prems, of i] Suc.IH [of s1 "Suc i"] by auto
  qed
qed simp

lemma for_loop_overrun:
  assumes "P s" and step: "\<And>j s. P s \<Longrightarrow> f j s = Inl Wild_deref \<or> (\<exists>s'. f j s = Inr s' \<and> P s')"
    and bad: "\<And>s. P s \<Longrightarrow> f (i + m) s = Inl Wild_deref" and "m < n"
  shows "for_loop i n f s = Inl Wild_deref"
proof -
  obtain k where n: "n = m + Suc k" using assms(4) less_imp_Suc_add by fastforce
  consider "for_loop i m f s = Inl Wild_deref" | s' where "for_loop i m f s = Inr s'" "P s'"
    using for_loop_wild [where P = P and f = f and i = i and n = m, OF assms(1) step] by blast
  then show ?thesis unfolding n for_loop_add by cases (simp_all add: bad)
qed

lemma swap_rows_wild:
  "swap_rows m i j xs = Inl Wild_deref \<or> (\<exists>ys. swap_rows m i j xs = Inr ys \<and> length ys = length xs)"
  unfolding swap_rows_def
  by (rule for_loop_wild [where P = "\<lambda>ys. length ys = length xs"]) (auto simp: rd_def wr_def)

lemma swap_rows_outside: "0 < m \<Longrightarrow> length xs \<le> i * m \<Longrightarrow> swap_rows m i j xs = Inl Wild_deref"
  by (cases m) (simp_all add: swap_rows_def)

lemma shuffle_overrun:
  assumes "length inputs = rows * ni" and "0 < ni" and "rows < n"
  shows "shuffle r c n ni no (inputs, targets) = Inl Wild_deref"
  unfolding shuffle_def
proof (rule for_loop_overrun [where P = "\<lambda>(xs, ts). length xs = rows * ni" and m = rows])
  fix j and s :: "'a list \<times> 'a list"
  assume s: "case s of (xs, ts) \<Rightarrow> length xs = rows * ni"
  obtain xs ts where st: "s = (xs, ts)" by (cases s)
  let ?t = "shuffle_index (r (c + j)) n j"
  show "(case s of (inputs, targets) \<Rightarrow> let k = ?t in bnd (swap_rows ni j k inputs) (\<lambda>inputs.
        bnd (swap_rows no j k targets) (\<lambda>targets. Inr (inputs, targets)))) = Inl Wild_deref
      \<or> (\<exists>s'. (case s of (inputs, targets) \<Rightarrow> let k = ?t in bnd (swap_rows ni j k inputs) (\<lambda>inputs.
        bnd (swap_rows no j k targets) (\<lambda>targets. Inr (inputs, targets)))) = Inr s'
        \<and> (case s' of (xs, ts) \<Rightarrow> length xs = rows * ni))"
    using swap_rows_wild [of ni j ?t xs] swap_rows_wild [of no j ?t ts] s by (auto simp: st Let_def)
next
  fix s :: "'a list \<times> 'a list"
  assume s: "case s of (xs, ts) \<Rightarrow> length xs = rows * ni"
  then show "(case s of (inputs, targets) \<Rightarrow> let k = shuffle_index (r (c + (0 + rows))) n (0 + rows) in
      bnd (swap_rows ni (0 + rows) k inputs) (\<lambda>inputs. bnd (swap_rows no (0 + rows) k targets) (\<lambda>targets.
      Inr (inputs, targets)))) = Inl Wild_deref"
    using assms(2) swap_rows_outside [of ni "fst s" rows] by (cases s) (simp add: Let_def)
qed (use assms in simp_all)

lemma train_one_outside:
  assumes "length inputs \<le> j * input_size net" and "0 < input_size net" and "0 < hidden_size net"
  shows "train_one A inputs targets lr j net = Inl Wild_deref"
  using assms by (cases "hidden_size net"; cases "input_size net")
    (simp_all add: train_one_def backward_def hidden_layer_def)

lemma train_overrun:
  assumes net: "net_ok net" and rows: "length inputs = rows * input_size net" "length targets = rows * output_size net"
    and pos: "0 < input_size net" "0 < hidden_size net" and "rows < n" and "0 < epochs"
  shows "train A net inputs targets epochs n lr = Inl Wild_deref"
proof -
  have "for_loop 0 n (train_one A inputs targets lr) net = Inl Wild_deref"
  proof (rule for_loop_fail [where P = "same_shape net" and m = rows])
    show "\<exists>net'. for_loop 0 rows (train_one A inputs targets lr) net = Inr net' \<and> same_shape net net'"
      using samples_ok [of net net rows inputs targets A lr] net rows by simp
    show "train_one A inputs targets lr (0 + rows) net' = Inl Wild_deref" if "same_shape net net'" for net'
      using that train_one_outside [of inputs rows net' A targets lr] rows pos by (simp add: same_shape_def)
  qed (rule assms)
  then show ?thesis using assms(7) by (cases epochs) (simp_all add: train_def)
qed

lemma train_batches_overrun:
  assumes "length inputs = rows * input_size net" and "0 < input_size net" and "rows < n" and "0 < epochs"
  shows "train_batches A r c net inputs targets epochs n lr bs = Inl Wild_deref"
  using assms shuffle_overrun [of inputs rows "input_size net" n r c "output_size net" targets]
  by (cases epochs) (simp_all add: train_batches_def)

lemma rand_array_length [simp]: "length (rand_array g c n) = n"
  by (simp add: rand_array_def)

lemma plain_task_overruns: "plain_task A r = Inl Wild_deref"
proof -
  have "train A (init_net A r 2 3 1) (rand_array (rand_input A r) 13 8) (rand_array (rand_input A r) 21 4) 1000 8 (f_tenth A)
      = Inl Wild_deref"
    by (rule train_overrun [where rows = 4]) (simp_all add: init_net_def Let_def net_ok_def)
  then show ?thesis by (simp add: plain_task_def Let_def)
qed

lemma xavier_tasks_overrun:
  "xavier_plain_task A r True = Inl Wild_deref" "xavier_task A r True = Inl Wild_deref"
proof -
  obtain net where net: "init_net_xavier A r True 2 3 1 = Some net" "net_ok net"
    "input_size net = 2" "hidden_size net = 3" "output_size net = 1"
    by (simp add: init_net_xavier_def Let_def net_ok_def)
  have "train A net (rand_array (rand_input A r) 9 8) (rand_array (rand_input A r) 17 4) 1000 8 (f_tenth A) = Inl Wild_deref"
    by (rule train_overrun [OF net(2), where rows = 4]) (simp_all add: net)
  then show "xavier_plain_task A r True = Inl Wild_deref" 
    unfolding xavier_plain_task_def net(1) option.case Let_def by simp
  have "train_batches A r 21 net (rand_array (rand_input A r) 9 8) (rand_array (rand_input A r) 17 4) 1000 8 (f_tenth A) 2
      = Inl Wild_deref"
    by (rule train_batches_overrun [where rows = 4]) (simp_all add: net)
  then show "xavier_task A r True = Inl Wild_deref" 
    unfolding xavier_task_def net(1) option.case Let_def by simp
qed

section \<open>Creating and joining threads\<close>

lemma create_range_result:
  "create_range i n x = x\<lparr>handle := (\<lambda>j. if i \<le> j \<and> j < i + n then Some (tcreated x + (j - i)) else handle x j),
     tcreated := tcreated x + n\<rparr>"
proof (induction n)
  case (Suc n)
  have "create_range i (Suc n) x = pthread_create (i + n) (create_range i n x)" by (simp add: create_range_def)
  then show ?case by (auto simp: Suc.IH pthread_create_def fun_eq_iff)
qed (cases x, auto simp: create_range_def fun_eq_iff)

lemma join_range_result:
  "(\<And>j. i \<le> j \<Longrightarrow> j < i + n \<Longrightarrow> handle x j = Some (m + j)) \<Longrightarrow>
   for_loop i n pthread_join x = Inr (x\<lparr>tjoined := tjoined x \<union> {m + i..<m + i + n}\<rparr>)"
proof (induction n arbitrary: i x)
  case (Suc n)
  have "pthread_join i x = Inr (x\<lparr>tjoined := insert (m + i) (tjoined x)\<rparr>)"
    using Suc.prems by (simp add: pthread_join_def)
  moreover have "for_loop (Suc i) n pthread_join (x\<lparr>tjoined := insert (m + i) (tjoined x)\<rparr>)
      = Inr (x\<lparr>tjoined := insert (m + i) (tjoined x) \<union> {m + Suc i..<m + Suc i + n}\<rparr>)"
    using Suc.IH [of "Suc i" "x\<lparr>tjoined := insert (m + i) (tjoined x)\<rparr>"] Suc.prems by simp
  moreover have "insert (m + i) (tjoined x) \<union> {m + Suc i..<m + Suc i + n} = tjoined x \<union> {m + i..<m + i + Suc n}"
    by auto
  ultimately show ?case by simp
qed simp

text \<open>
  Every benchmark joins all the threads it created, but for ttl/pth.c: it keeps the handle of its
  first thread, number 0, where the handle of the second goes, and never joins it.
\<close>

lemma benchmark_threads:
  "\<exists>x. pthread_main t = Inr (Exited 0, x, stdio_flush (stdio_print starting_text t)) \<and> tcreated x = 51 \<and> tjoined x = {0..<51}"
  "\<exists>x. openmp_main t = Inr (Exited 0, x, stdio_flush (stdio_print starting_text t)) \<and> tcreated x = 51 \<and> tjoined x = {0..<51}"
  "\<exists>x. open_main t = Inr (Looping, x, stdio_print starting_text t) \<and> tcreated x = 51 \<and> tjoined x = {0..<51}"
  "\<exists>x. pth_main t = Inr (Looping, x, stdio_print starting_text t) \<and> tcreated x = 52 \<and> tjoined x = {1..<52}"
proof -
  let ?ends = "\<lambda>x m. join_all 50 x = Inr (x\<lparr>tjoined := {m..<m + 51}\<rparr>)"
  let ?a = "create_range 1 50 (pthread_create 0 no_threads)" and ?b = "create_range 0 51 no_threads"
    and ?c = "create_range 1 50 (pthread_create 0 (pthread_create 0 no_threads))"
  have join: "join_all 50 x = for_loop 0 51 pthread_join x" for x by (simp add: join_all_def del: for_loop.simps)
  have none: "tjoined ?a = {}" "tjoined ?b = {}" "tjoined ?c = {}" "tcreated ?a = 51" "tcreated ?b = 51" "tcreated ?c = 52"
    by (simp_all add: create_range_result pthread_create_def no_threads_def)
  have "?ends ?a 0" using join_range_result [of 0 51 ?a 0] none(1)
    by (simp add: join create_range_result pthread_create_def no_threads_def)
  moreover have "?ends ?b 0" using join_range_result [of 0 51 ?b 0] none(2)
    by (simp add: join create_range_result no_threads_def)
  moreover have "?ends ?c 1" using join_range_result [of 0 51 ?c 1] none(3)
    by (simp add: join create_range_result pthread_create_def no_threads_def)
  ultimately show
    "\<exists>x. pthread_main t = Inr (Exited 0, x, stdio_flush (stdio_print starting_text t)) \<and> tcreated x = 51 \<and> tjoined x = {0..<51}"
    "\<exists>x. openmp_main t = Inr (Exited 0, x, stdio_flush (stdio_print starting_text t)) \<and> tcreated x = 51 \<and> tjoined x = {0..<51}"
    "\<exists>x. open_main t = Inr (Looping, x, stdio_print starting_text t) \<and> tcreated x = 51 \<and> tjoined x = {0..<51}"
    "\<exists>x. pth_main t = Inr (Looping, x, stdio_print starting_text t) \<and> tcreated x = 52 \<and> tjoined x = {1..<52}"
    using none by (simp_all add: pthread_main_def openmp_main_def open_main_def pth_main_def omp_region_def Let_def)
qed

section \<open>The tasks\<close>

text \<open>
  C37. Every task of every benchmark reads outside its arrays: it has four rows of inputs and targets
  and trains on eight, whatever the random numbers and the arithmetic are, and never gets to
  its report.
\<close>

theorem benchmark_tasks_overrun:
  "latency_task A r el opn = Inl Wild_deref \<and> time_latency_task A r el opn = Inl Wild_deref
    \<and> time_test_task A r opn = Inl Wild_deref \<and> tt_task A r p by el opn = Inl Wild_deref
    \<and> pth_task A r p by el opn = Inl Wild_deref \<and> open_task A r p by el opn = Inl Wild_deref
    \<and> time_time_task A r True el opn = Inl Wild_deref \<and> la_task A r True el opn = Inl Wild_deref
    \<and> pthread_task A r True el opn = Inl Wild_deref \<and> openmp_task A r True el opn = Inl Wild_deref"
  by (simp add: latency_task_def time_latency_task_def time_test_task_def tt_task_def pth_task_def open_task_def
      time_time_task_def la_task_def pthread_task_def openmp_task_def Let_def plain_task_overruns xavier_tasks_overrun)

end
