(* ===== verification/TimerRings.thy ===== *)
theory TimerRings
  imports TimerWheel
begin

text \<open>
  The lists of the timing wheel together: a family of disjoint rings on one heap, with the effect
  of the list operations on it, and the forward chain that a loop follows while it moves the
  nodes it has visited elsewhere.
\<close>

section \<open>Unlinking from a ring\<close>

lemmas unlink_defs = list_timer_unlink_def t_set_prev_def t_set_next_def

lemma unlink_ring_first:
  assumes r: "ring h a (n # ys)"
  obtains h' where "list_timer_unlink h n = Inr h'" and "ring h' a ys"
    and "\<And>x. x \<notin> set (a # n # ys) \<Longrightarrow> h' x = h x" and "dom h' = dom h"
proof (cases ys)
  case Nil
  have ha: "h a = Some \<lparr>pPrev = n, pNext = n\<rparr>" and hn: "h n = Some \<lparr>pPrev = a, pNext = a\<rparr>" and ne: "n \<noteq> a" "a \<noteq> n"
    using r Nil by (auto simp: ring_def)
  have "list_timer_unlink h n = Inr (h(a \<mapsto> \<lparr>pPrev = a, pNext = a\<rparr>))"
    using ha hn ne by (simp add: unlink_defs)
  moreover have "ring (h(a \<mapsto> \<lparr>pPrev = a, pNext = a\<rparr>)) a ys" using Nil by (simp add: ring_def)
  moreover have "dom (h(a \<mapsto> \<lparr>pPrev = a, pNext = a\<rparr>)) = dom h" using ha by auto
  ultimately show ?thesis using that by auto
next
  case (Cons w ws)
  let ?l = "last (w # ws)" and ?x = "hd (ws @ [a])"
  have ha: "h a = Some \<lparr>pPrev = ?l, pNext = n\<rparr>" and hn: "h n = Some \<lparr>pPrev = a, pNext = w\<rparr>"
    and hw: "h w = Some \<lparr>pPrev = n, pNext = ?x\<rparr>" and sg: "seg h w ws a"
    and ne: "n \<noteq> a" "w \<noteq> a" "w \<noteq> n" "a \<notin> set ws" "w \<notin> set ws" "distinct ws"
    using r Cons by (auto simp: ring_def)
  let ?h = "h(a \<mapsto> \<lparr>pPrev = ?l, pNext = w\<rparr>, w \<mapsto> \<lparr>pPrev = a, pNext = ?x\<rparr>)"
  have "list_timer_unlink h n = Inr ?h" using ha hn hw ne by (simp add: unlink_defs)
  moreover have "seg ?h w ws a" using sg ne by (subst seg_cong [of ws ?h h]) auto
  then have "ring ?h a ys" using Cons ne by (simp add: ring_def)
  moreover have "\<And>x. x \<notin> set (a # n # ys) \<Longrightarrow> ?h x = h x" using Cons by simp
  moreover have "dom ?h = dom h" using ha hw by auto
  ultimately show ?thesis by (rule that)
qed

lemma unlink_ring_later:
  assumes r: "ring h a (zs @ z # n # ys)"
  obtains h' where "list_timer_unlink h n = Inr h'" and "ring h' a (zs @ z # ys)"
    and "\<And>x. x \<notin> set (a # zs @ z # n # ys) \<Longrightarrow> h' x = h x" and "dom h' = dom h"
proof -
  let ?p = "last (a # zs)"
  have d: "distinct (a # zs @ z # n # ys)" using r by (simp add: ring_def)
  show ?thesis
  proof (cases ys)
    case Nil
    let ?x = "hd (zs @ [z])"
    have ha: "h a = Some \<lparr>pPrev = n, pNext = ?x\<rparr>" and hn: "h n = Some \<lparr>pPrev = z, pNext = a\<rparr>"
      and hz: "h z = Some \<lparr>pPrev = ?p, pNext = n\<rparr>" and sg: "seg h a zs z"
      using r Nil by (auto simp: ring_def seg_append hd_append)
    let ?h = "h(z \<mapsto> \<lparr>pPrev = ?p, pNext = a\<rparr>, a \<mapsto> \<lparr>pPrev = z, pNext = ?x\<rparr>)"
    have "list_timer_unlink h n = Inr ?h" using ha hn hz d by (auto simp: unlink_defs)
    moreover have "seg ?h a zs z" using sg d by (subst seg_cong [of zs ?h h]) auto
    then have "ring ?h a (zs @ z # ys)" using Nil d by (auto simp: ring_def seg_append hd_append)
    moreover have "dom ?h = dom h" using ha hz by auto
    ultimately show ?thesis by (intro that [of ?h]) simp_all
  next
    case (Cons w ws)
    let ?x = "hd (ws @ [a])"
    have ha: "h a = Some \<lparr>pPrev = last (w # ws), pNext = hd (zs @ [z])\<rparr>"
      and hn: "h n = Some \<lparr>pPrev = z, pNext = w\<rparr>" and hw: "h w = Some \<lparr>pPrev = n, pNext = ?x\<rparr>"
      and hz: "h z = Some \<lparr>pPrev = ?p, pNext = n\<rparr>" and sg: "seg h a zs z" "seg h w ws a"
      using r Cons by (auto simp: ring_def seg_append hd_append)
    let ?h = "h(z \<mapsto> \<lparr>pPrev = ?p, pNext = w\<rparr>, w \<mapsto> \<lparr>pPrev = z, pNext = ?x\<rparr>)"
    have "list_timer_unlink h n = Inr ?h" using hn hw hz d Cons by (auto simp: unlink_defs)
    moreover have "seg ?h a zs z" using sg d Cons by (subst seg_cong [of zs ?h h]) auto
    moreover have "seg ?h w ws a" using sg d Cons by (subst seg_cong [of ws ?h h]) auto
    ultimately have "ring ?h a (zs @ z # ys)" using Cons d ha by (auto simp: ring_def seg_append hd_append)
    moreover have "dom ?h = dom h" using hw hz by auto
    ultimately show ?thesis using \<open>list_timer_unlink h n = Inr ?h\<close> Cons by (intro that [of ?h]) simp_all
  qed
qed

lemma unlink_ring:
  assumes r: "ring h a (xs @ n # ys)"
  obtains h' where "list_timer_unlink h n = Inr h'" and "ring h' a (xs @ ys)"
    and "\<And>x. x \<notin> set (a # xs @ n # ys) \<Longrightarrow> h' x = h x" and "dom h' = dom h"
proof (cases xs rule: rev_cases)
  case Nil
  then have "ring h a (n # ys)" using r by simp
  then show ?thesis by (rule unlink_ring_first) (use Nil in \<open>auto intro: that\<close>)
next
  case (snoc zs z)
  then have "ring h a (zs @ z # n # ys)" using r by simp
  then show ?thesis by (rule unlink_ring_later) (use snoc in \<open>auto intro: that\<close>)
qed

section \<open>A family of rings\<close>

definition listed :: "(tptr \<rightharpoonup> nat list) \<Rightarrow> nat set" where
  "listed R = {n. \<exists>a xs. R a = Some xs \<and> n \<in> set xs}"

definition rings :: "tptr theap \<Rightarrow> (tptr \<rightharpoonup> nat list) \<Rightarrow> bool" where
  "rings h R \<longleftrightarrow> (\<forall>a xs. R a = Some xs \<longrightarrow> ring h a (map Timer xs)) \<and> dom R \<inter> range Timer = {}
     \<and> (\<forall>a b xs ys. R a = Some xs \<longrightarrow> R b = Some ys \<longrightarrow> a \<noteq> b \<longrightarrow> set xs \<inter> set ys = {})"

lemma listedI: "R a = Some xs \<Longrightarrow> n \<in> set xs \<Longrightarrow> n \<in> listed R"
  by (auto simp: listed_def)

lemma listed_upd: "listed (R(a \<mapsto> ys)) = set ys \<union> listed (R(a := None))"
  by (force simp: listed_def)

lemma listed_split: "R a = Some xs \<Longrightarrow> listed R = set xs \<union> listed (R(a := None))"
  using listed_upd [of R a xs] by (simp add: fun_upd_idem)

lemma listed_insert: "R a = Some xs \<Longrightarrow> listed (R(a \<mapsto> xs @ [n])) = insert n (listed R)"
  by (simp add: listed_upd listed_split)

lemma rings_ring: "rings h R \<Longrightarrow> R a = Some xs \<Longrightarrow> ring h a (map Timer xs)"
  by (simp add: rings_def)

lemma rings_apart: "rings h R \<Longrightarrow> R a = Some xs \<Longrightarrow> R b = Some ys \<Longrightarrow> a \<noteq> b \<Longrightarrow> set xs \<inter> set ys = {}"
  unfolding rings_def by blast

lemma rings_distinct: "rings h R \<Longrightarrow> R a = Some xs \<Longrightarrow> distinct xs"
  using rings_ring [of h R a xs] by (auto simp: ring_def distinct_map)

lemma rings_head: "rings h R \<Longrightarrow> R (Timer n) = None"
  by (auto simp: rings_def)

lemma rings_dom: "rings h R \<Longrightarrow> dom R \<union> Timer ` listed R \<subseteq> dom h"
proof -
  assume r: "rings h R"
  have "insert a (Timer ` set xs) \<subseteq> dom h" if "R a = Some xs" for a xs
    using ring_dom [OF rings_ring [OF r that]] by simp
  then show ?thesis unfolding listed_def by blast
qed

lemma rings_disjoint:
  assumes r: "rings h R" and a: "R a = Some xs"
  shows "set xs \<inter> listed (R(a := None)) = {}"
proof -
  have "set xs \<inter> set ys = {}" if "(R(a := None)) b = Some ys" for b ys
    using rings_apart [OF r a, of b ys] that by (cases "b = a") simp_all
  then show ?thesis unfolding listed_def by blast
qed

text \<open>Changing one ring (and the heap at its nodes) leaves the others as they are.\<close>

lemma rings_upd:
  assumes r: "rings h R" and a: "R a = Some xs" and ring: "ring h' a (map Timer ys)"
    and new: "set ys \<inter> listed (R(a := None)) = {}"
    and same: "\<And>p. p \<notin> insert a (Timer ` (set xs \<union> set ys)) \<Longrightarrow> h' p = h p"
  shows "rings h' (R(a \<mapsto> ys))"
proof -
  have others: "ring h' b (map Timer zs) \<and> set ys \<inter> set zs = {}" if b: "R b = Some zs" "b \<noteq> a" for b zs
  proof -
    have "set zs \<subseteq> listed (R(a := None))" using b by (auto simp: listed_def)
    then have "set ys \<inter> set zs = {}" using new by blast
    moreover have "set xs \<inter> set zs = {}" using rings_apart [OF r a b(1)] b(2) by simp
    moreover have "b \<notin> range Timer" "a \<notin> range Timer" using r a b by (auto simp: rings_def)
    ultimately have "h' p = h p" if "p \<in> set (b # map Timer zs)" for p
      using that b(2) by (intro same) auto
    then show ?thesis
      using ring_cong [of b "map Timer zs" h' h] rings_ring [OF r b(1)] \<open>set ys \<inter> set zs = {}\<close> by blast
  qed
  have "a \<notin> range Timer" using r a by (auto simp: rings_def)
  moreover have "ring h' b (map Timer zs)" if "(R(a \<mapsto> ys)) b = Some zs" for b zs
    using that ring others by (cases "b = a") auto
  moreover have "set zs \<inter> set us = {}"
    if "(R(a \<mapsto> ys)) b = Some zs" "(R(a \<mapsto> ys)) d = Some us" "b \<noteq> d" for b d zs us
    using that rings_apart [OF r] others [of b zs] others [of d us] by (cases "b = a"; cases "d = a") auto
  moreover have "dom (R(a \<mapsto> ys)) \<inter> range Timer = {}" using r \<open>a \<notin> range Timer\<close> by (auto simp: rings_def)
  ultimately show ?thesis unfolding rings_def by blast
qed

lemma rings_insert:
  assumes r: "rings h R" and a: "R a = Some xs" and n: "n \<notin> listed R" "Timer n \<in> dom h"
  obtains h' where "list_timer_insert_tail h (Timer n) a = Inr h'" and "rings h' (R(a \<mapsto> xs @ [n]))"
    and "dom h' = dom h" and "\<And>p. p \<notin> dom R \<Longrightarrow> p \<notin> Timer ` insert n (listed R) \<Longrightarrow> h' p = h p"
proof -
  have "a \<notin> range Timer" using r a by (auto simp: rings_def)
  moreover have "n \<notin> set xs" using n a by (auto simp: listed_def)
  ultimately have new: "Timer n \<notin> set (a # map Timer xs)" by auto
  obtain h' where h': "list_timer_insert_tail h (Timer n) a = Inr h'" "ring h' a (map Timer xs @ [Timer n])"
    "\<And>x. x \<notin> set (Timer n # a # map Timer xs) \<Longrightarrow> h' x = h x" "dom h' = dom h"
    using insert_tail_ring [OF rings_ring [OF r a] new n(2)] by blast
  have "n \<notin> listed (R(a := None))" using n(1) listed_split [of R a xs] a by blast
  then have "rings h' (R(a \<mapsto> xs @ [n]))"
    using rings_disjoint [OF r a] h'(2) by (intro rings_upd [OF r a]) (auto simp: h'(3))
  moreover have "h' p = h p" if "p \<notin> dom R" "p \<notin> Timer ` insert n (listed R)" for p
    using that a by (intro h'(3)) (auto simp: listed_def)
  ultimately show ?thesis using that h' by blast
qed

lemma rings_unlink:
  assumes r: "rings h R" and a: "R a = Some xs" and n: "n \<in> set xs"
  obtains h' where "list_timer_unlink h (Timer n) = Inr h'" and "rings h' (R(a \<mapsto> removeAll n xs))" and "dom h' = dom h"
proof -
  obtain ys zs where xs: "xs = ys @ n # zs" using n by (meson split_list)
  have rem: "removeAll n xs = ys @ zs" using rings_distinct [OF r a] by (simp add: xs)
  obtain h' where h': "list_timer_unlink h (Timer n) = Inr h'" "ring h' a (map Timer ys @ map Timer zs)"
    "\<And>x. x \<notin> set (a # map Timer ys @ Timer n # map Timer zs) \<Longrightarrow> h' x = h x" "dom h' = dom h"
    using unlink_ring [of h a "map Timer ys" "Timer n" "map Timer zs"] rings_ring [OF r a] by (auto simp: xs)
  have "rings h' (R(a \<mapsto> ys @ zs))"
    using rings_disjoint [OF r a] h'(2) xs by (intro rings_upd [OF r a] h'(3)) auto
  then show ?thesis using that h' rem by simp
qed

lemma rings_local:
  assumes c: "c \<notin> dom R" "c \<notin> Timer ` listed R"
  shows "rings (h(c := v)) R = rings h R"
proof -
  have "ring (h(c := v)) a (map Timer xs) = ring h a (map Timer xs)" if R: "R a = Some xs" for a xs
  proof (rule ring_cong)
    show "(h(c := v)) x = h x" if "x \<in> set (a # map Timer xs)" for x
      using c that R listedI [of R a xs] by auto
  qed
  then show ?thesis by (auto simp: rings_def)
qed

section \<open>The forward chain of a loop\<close>

fun chain :: "tptr theap \<Rightarrow> nat list \<Rightarrow> tptr \<Rightarrow> bool" where
  "chain h [] c \<longleftrightarrow> True"
| "chain h (x # xs) c \<longleftrightarrow> (\<exists>nd. h (Timer x) = Some nd \<and> pNext nd = hd (map Timer xs @ [c])) \<and> chain h xs c"

lemma chain_cong: "(\<And>x. x \<in> set xs \<Longrightarrow> h' (Timer x) = h (Timer x)) \<Longrightarrow> chain h' xs c = chain h xs c"
  by (induction xs) auto

lemma seg_chain: "seg h p (map Timer xs) c \<Longrightarrow> chain h xs c"
  by (induction xs arbitrary: p) auto

text \<open>
  Moving a list to a new local head \<open>c\<close>: the array element is an empty list, and the nodes form a
  chain that starts at the new head and belongs to no list of the family.
\<close>

lemma rings_take:
  assumes r: "rings h R" and a: "R a = Some xs" and c: "c \<notin> dom R" "c \<notin> range Timer"
  obtains h' nd where "list_timer_replace_init (h(c \<mapsto> self_node c)) a c = Inr h'" and "rings h' (R(a \<mapsto> []))"
    and "h' c = Some nd" and "pNext nd = hd (map Timer xs @ [c])" and "chain h' xs c"
    and "dom h' = insert c (dom h)"
proof -
  let ?h = "h(c \<mapsto> self_node c)"
  have ca: "c \<notin> set (a # map Timer xs)" using a c by auto
  have "c \<notin> Timer ` listed R" using c(2) by auto
  then have "rings ?h R" using r c(1) by (simp add: rings_local)
  note same = rings_ring [OF this]
  obtain h' where h': "list_timer_replace_init ?h a c = Inr h'" "ring h' c (map Timer xs)" "ring h' a []"
    "\<And>x. x \<notin> set (c # a # map Timer xs) \<Longrightarrow> h' x = ?h x" "dom h' = dom ?h"
    using replace_init_ring [OF same [OF a] ca] by auto
  have "rings h' (R(a \<mapsto> []))"
  proof -
    have "ring h' b (map Timer ys)" if b: "R b = Some ys" "b \<noteq> a" for b ys
    proof -
      have "set xs \<inter> set ys = {}" using rings_apart [OF r a b(1)] b(2) by simp
      moreover have "b \<notin> range Timer" "a \<notin> range Timer" using r a b by (auto simp: rings_def)
      ultimately have "h' p = ?h p" if "p \<in> set (b # map Timer ys)" for p
        using that b c by (intro h'(4)) auto
      then show ?thesis using ring_cong [of b "map Timer ys" h' ?h] same [OF b(1)] by blast
    qed
    then show ?thesis
      using a h'(3) rings_disjoint [OF r a] r unfolding rings_def by (auto split: if_split_asm)
  qed
  moreover obtain nd where "h' c = Some nd" "pNext nd = hd (map Timer xs @ [c])" "chain h' xs c"
    using h'(2) seg_chain by (auto simp: ring_def)
  ultimately show ?thesis using that h' by auto
qed

end
