(* ===== verification/TimerProps.thy ===== *)
theory TimerProps
  imports TimerRings
begin

text \<open>
  What the timing wheel promises: where a timer is placed, the invariant of the wheel, that
  \<open>run_timer\<close> refines a timer service without lists, and the creation and deletion of timers.
\<close>

section \<open>Where a timer is placed\<close>

definition shift :: "nat \<Rightarrow> nat" where
  "shift lv = TVR_BITS + (lv - 2) * TVN_BITS"

definition slots :: "tptr set" where
  "slots = Slot 1 ` {..<256} \<union> {Slot lv i |lv i. lv \<in> {2..5} \<and> i < 64}"

text \<open>The element a timer expiring at \<open>e\<close> has on the slot's level, and when the wheel comes to it.\<close>

fun fits :: "tptr \<Rightarrow> nat \<Rightarrow> bool" where
  "fits (Slot lv i) e \<longleftrightarrow> (if lv = 1 then i = e mod 256 else i = e div 2 ^ shift lv mod 64)"
| "fits _ e \<longleftrightarrow> False"

fun level :: "tptr \<Rightarrow> nat" where
  "level (Slot lv i) = lv"
| "level _ = 0"

definition visit :: "tptr \<Rightarrow> nat \<Rightarrow> nat" where
  "visit a e = (if level a = 1 then e else e div 2 ^ shift (level a) * 2 ^ shift (level a))"

lemmas wheel_consts = TVN_BITS_def TVR_BITS_def TVN_SIZE_def TVR_SIZE_def TVN_MASK_def TVR_MASK_def

lemma shift_simps [simp]: "shift 2 = 8" "shift 3 = 14" "shift 4 = 20" "shift 5 = 26"
  by (simp_all add: shift_def wheel_consts)

lemma mask_index: "unat (drop_bit n w AND TVN_MASK :: 32 word) = unat w div 2 ^ n mod 64"
  "unat (w AND TVR_MASK :: 32 word) = unat w mod 256"
proof -
  have m: "TVN_MASK = mask 6" "TVR_MASK = mask 8" by (simp_all add: wheel_consts mask_eq_exp_minus_1)
  show "unat (drop_bit n w AND TVN_MASK :: 32 word) = unat w div 2 ^ n mod 64"
    by (simp only: m(1) take_bit_eq_mask [symmetric] unsigned_take_bit_eq unat_drop_bit_eq)
      (simp add: drop_bit_eq_div take_bit_eq_mod)
  show "unat (w AND TVR_MASK :: 32 word) = unat w mod 256"
    by (simp only: m(2) take_bit_eq_mask [symmetric] unsigned_take_bit_eq) (simp add: take_bit_eq_mod)
qed

lemma visit_le: "visit a e \<le> e"
  by (simp add: visit_def)

lemma div_mult_less: "(m :: nat) \<le> d \<Longrightarrow> d = e - j \<Longrightarrow> j \<le> e \<Longrightarrow> 0 < m \<Longrightarrow> j < e div m * m"
  using mod_less_divisor [of m e] div_mult_mod_eq [of e m] by linarith

lemma timer_slot_cases:
  fixes g e j :: "32 word"
  assumes "0 < g" and "j \<le> e"
  defines "d \<equiv> (unat e - unat j) div unat g"
  shows "timer_slot g e j =
    (if d < 2 ^ 8 then Slot 1 (unat e mod 256)
     else if d < 2 ^ 14 then Slot 2 (unat e div 2 ^ 8 mod 64)
     else if d < 2 ^ 20 then Slot 3 (unat e div 2 ^ 14 mod 64)
     else if d < 2 ^ 26 then Slot 4 (unat e div 2 ^ 20 mod 64)
     else Slot 5 (unat e div 2 ^ 26 mod 64))"
proof -
  have due: "unat ((e - j) div g) = d"
    using assms(2) by (simp add: d_def unat_div_distrib unat_sub)
  have lt: "(e - j) div g < w \<longleftrightarrow> d < unat w" for w
    by (simp add: word_less_nat_alt due)
  have "\<not> sint (ucast ((e - j) div g) :: 64 word) < 0"
    using uint_lt2p [of "(e - j) div g"] uint_nonnegative [of "(e - j) div g"]
    by (subst signed_ucast_eq, subst signed_take_bit_int_eq_self) (simp_all add: order.trans [of _ 0])
  moreover have "\<not> uint ((e - j) div g) > 0xffffffff"
    using uint_lt2p [of "(e - j) div g"] by simp
  ultimately show ?thesis
    by (simp add: timer_slot_def Let_def lt mask_index TVN_BITS_def TVR_BITS_def TVR_SIZE_def)
qed

lemma timer_slot_spec:
  fixes g e j :: "32 word"
  assumes g: "0 < g" and j: "j \<le> e"
  defines "a \<equiv> timer_slot g e j"
  shows "a \<in> slots" and "fits a (unat e)" and "level a \<noteq> 1 \<Longrightarrow> unat j < visit a (unat e)"
    and "level a = 1 \<Longrightarrow> g = 1 \<Longrightarrow> unat e < unat j + 256"
proof -
  define d where "d = (unat e - unat j) div unat g"
  have j': "unat j \<le> unat e" using j by (simp add: word_le_nat_alt)
  have "d \<le> unat e - unat j" by (simp add: d_def)
  then have far: "unat j < unat e div m * m" if "m \<le> d" "0 < m" for m
    using that j' by (intro div_mult_less [of m "unat e - unat j"]) auto
  note a = timer_slot_cases [OF g j, folded d_def a_def]
  show "a \<in> slots" by (auto simp: a slots_def)
  show "fits a (unat e)" by (simp add: a)
  show "unat j < visit a (unat e)" if "level a \<noteq> 1"
    using that far [of "2 ^ 8"] far [of "2 ^ 14"] far [of "2 ^ 20"] far [of "2 ^ 26"]
    by (auto simp: a visit_def split: if_splits)
  show "unat e < unat j + 256" if "level a = 1" "g = 1"
    using that j' by (simp add: a d_def split: if_split_asm)
qed

section \<open>The invariant of the wheel\<close>

text \<open>
  A timer on the list \<open>a\<close> at the manager's time \<open>j\<close>: the wheel has not passed its element yet, nor
  comes to it at \<open>j\<close> itself when \<open>a\<close>'s level is one of those already emptied for \<open>j\<close>. With a granularity of
  one, level 1 holds only timers of the next 256 milliseconds.
\<close>

definition waits :: "nat set \<Rightarrow> bool \<Rightarrow> nat \<Rightarrow> tptr \<Rightarrow> nat \<Rightarrow> bool" where
  "waits D one j a e \<longleftrightarrow> fits a e \<and> j \<le> visit a e \<and> (level a \<in> D \<longrightarrow> j < visit a e)
     \<and> (level a = 1 \<longrightarrow> one \<longrightarrow> e < j + 256)"

definition all_wait :: "nat set \<Rightarrow> 'a tstate_scheme \<Rightarrow> (tptr \<rightharpoonup> nat list) \<Rightarrow> bool" where
  "all_wait D s R \<longleftrightarrow> (\<forall>a xs n t. R a = Some xs \<longrightarrow> n \<in> set xs \<longrightarrow> timers s n = Some t
     \<longrightarrow> waits D (clock_granularity s = 1) (unat (uJiffies s)) a (unat (uExpires t)))"

text \<open>\<open>ys\<close> are timers that a running loop has still to place; outside the loops it is empty.\<close>

definition wheel :: "nat set \<Rightarrow> nat list \<Rightarrow> 'a tstate_scheme \<Rightarrow> (tptr \<rightharpoonup> nat list) \<Rightarrow> bool" where
  "wheel D ys s R \<longleftrightarrow> timer_manager s = Mgr_live \<and> 0 < clock_granularity s
     \<and> rings (theap s) R \<and> dom R = slots
     \<and> distinct ys \<and> set ys \<inter> listed R = {} \<and> Timer ` set ys \<subseteq> dom (theap s)
     \<and> dom (timers s) = set ys \<union> listed R \<and> all_wait D s R"

lemma wheelD:
  assumes "wheel D ys s R"
  shows "timer_manager s = Mgr_live" "0 < clock_granularity s" "rings (theap s) R" "dom R = slots"
    "distinct ys" "set ys \<inter> listed R = {}" "Timer ` set ys \<subseteq> dom (theap s)" "dom (timers s) = set ys \<union> listed R"
    "all_wait D s R" "mgr s = Inr ()"
  using assms by (simp_all only: wheel_def mgr_def mgr_ptr.case)

lemma all_waitD:
  "all_wait D s R \<Longrightarrow> R a = Some xs \<Longrightarrow> n \<in> set xs \<Longrightarrow> timers s n = Some t
     \<Longrightarrow> waits D (clock_granularity s = 1) (unat (uJiffies s)) a (unat (uExpires t))"
  unfolding all_wait_def by blast

lemma slots_levels: "a \<in> slots \<Longrightarrow> level a \<in> {1..5}" "Timer n \<notin> slots" "Loc_cascade \<notin> slots" "Loc_expire \<notin> slots"
  by (auto simp: slots_def)

lemma all_wait_heap [simp]: "all_wait D (s\<lparr>theap := h\<rparr>) R = all_wait D s R"
  by (simp add: all_wait_def)

lemma wheel_local:
  assumes c: "c \<notin> slots" "c \<notin> range Timer" and w: "wheel D ys s R"
  shows "wheel D ys (s\<lparr>theap := (theap s)(c := v)\<rparr>) R"
proof -
  note W = wheelD [OF w]
  have "Timer ` set ys \<subseteq> dom ((theap s)(c := v))" "c \<notin> Timer ` listed R" using W(7) c by auto
  then show ?thesis using W c by (simp add: wheel_def rings_local)
qed

lemma all_wait_levels:
  "all_wait D s R \<Longrightarrow> (\<And>a xs n t. R a = Some xs \<Longrightarrow> n \<in> set xs \<Longrightarrow> timers s n = Some t \<Longrightarrow> level a \<in> D'
     \<Longrightarrow> unat (uJiffies s) \<noteq> visit a (unat (uExpires t))) \<Longrightarrow> all_wait D' s R"
  unfolding all_wait_def waits_def by (meson le_neq_implies_less)

text \<open>Timers on level 1 stay there: they leave their element only when it is emptied.\<close>

definition grows :: "(tptr \<rightharpoonup> nat list) \<Rightarrow> (tptr \<rightharpoonup> nat list) \<Rightarrow> bool" where
  "grows R R' \<longleftrightarrow> (\<forall>i xs n. R (Slot 1 i) = Some xs \<longrightarrow> n \<in> set xs \<longrightarrow> (\<exists>ys. R' (Slot 1 i) = Some ys \<and> n \<in> set ys))"

lemma grows_refl [simp]: "grows R R"
  by (simp add: grows_def)

lemma grows_trans: "grows R R' \<Longrightarrow> grows R' R'' \<Longrightarrow> grows R R''"
  unfolding grows_def by blast

lemma grows_append: "R a = Some xs \<Longrightarrow> grows R (R(a \<mapsto> xs @ ys))"
  by (auto simp: grows_def)

lemma grows_other: "level a \<noteq> 1 \<Longrightarrow> grows R (R(a := v))"
  by (auto simp: grows_def)

text \<open>Placing the next timer of a loop.\<close>

lemma add_timer_wheel:
  assumes w: "wheel D (n # ys) s R" and t: "timers s n = Some t" and e: "uJiffies s \<le> uExpires t"
    and one: "1 \<in> D \<Longrightarrow> uJiffies s < uExpires t"
  obtains h R' where "add_timer s n = Inr (s\<lparr>theap := h\<rparr>)" and "wheel D ys (s\<lparr>theap := h\<rparr>) R'" and "grows R R'"
    and "\<And>p. p \<notin> slots \<Longrightarrow> p \<notin> Timer ` insert n (listed R) \<Longrightarrow> h p = theap s p"
    and "\<exists>xs. R' (timer_slot (clock_granularity s) (uExpires t) (uJiffies s)) = Some xs \<and> n \<in> set xs"
proof -
  define a where "a = timer_slot (clock_granularity s) (uExpires t) (uJiffies s)"
  note W = wheelD [OF w]
  note slot = timer_slot_spec [OF W(2) e, folded a_def]
  obtain xs where a: "R a = Some xs" using slot(1) W(4) by auto
  have n: "n \<notin> listed R" "Timer n \<in> dom (theap s)" using W by auto
  obtain h where h: "list_timer_insert_tail (theap s) (Timer n) a = Inr h" "rings h (R(a \<mapsto> xs @ [n]))"
    "dom h = dom (theap s)" "\<And>p. p \<notin> dom R \<Longrightarrow> p \<notin> Timer ` insert n (listed R) \<Longrightarrow> h p = theap s p"
    using rings_insert [OF W(3) a n] by blast
  have new: "waits D (clock_granularity s = 1) (unat (uJiffies s)) a (unat (uExpires t))"
    using slot e one W(4) visit_le [of a "unat (uExpires t)"]
    by (cases "level a = 1") (simp_all add: waits_def visit_def word_le_nat_alt word_less_nat_alt)
  have "all_wait D s (R(a \<mapsto> xs @ [n]))"
    unfolding all_wait_def
  proof (intro allI impI)
    fix b zs m u assume b: "(R(a \<mapsto> xs @ [n])) b = Some zs" "m \<in> set zs" "timers s m = Some u"
    show "waits D (clock_granularity s = 1) (unat (uJiffies s)) b (unat (uExpires u))"
    proof (cases "b = a \<and> m = n")
      case True
      then show ?thesis using new b(3) t by simp
    next
      case False
      then obtain us where "R b = Some us" "m \<in> set us" using a b by (cases "b = a") auto
      then show ?thesis using all_waitD [OF W(9)] b(3) by blast
    qed
  qed
  moreover have "listed (R(a \<mapsto> xs @ [n])) = insert n (listed R)" using a by (rule listed_insert)
  moreover have "dom (R(a \<mapsto> xs @ [n])) = slots" using a W(4) by auto
  ultimately have "wheel D ys (s\<lparr>theap := h\<rparr>) (R(a \<mapsto> xs @ [n]))"
    using W h(2,3) by (simp add: wheel_def)
  moreover have "add_timer s n = Inr (s\<lparr>theap := h\<rparr>)"
    using t W h by (simp add: add_timer_def get_timer_def a_def)
  moreover have "\<exists>ys. (R(a \<mapsto> xs @ [n])) a = Some ys \<and> n \<in> set ys" by simp
  ultimately show ?thesis using that grows_append [of R a xs "[n]"] a h(4) W(4) unfolding a_def by blast
qed

text \<open>Emptying an array element into a local list.\<close>

lemma wheel_take:
  assumes w: "wheel D [] s R" and a: "a \<in> slots" and c: "c \<in> {Loc_cascade, Loc_expire}"
    and lv: "\<And>i e. unat (uJiffies s) = visit (Slot (level a) i) e \<Longrightarrow> fits (Slot (level a) i) e \<Longrightarrow> Slot (level a) i = a"
  obtains h nd xs where "list_timer_replace_init ((theap s)(c \<mapsto> self_node c)) a c = Inr h"
    and "h c = Some nd" and "pNext nd = hd (map Timer xs @ [c])" and "chain h xs c" and "R a = Some xs"
    and "wheel (insert (level a) D) xs (s\<lparr>theap := h\<rparr>) (R(a \<mapsto> []))"
proof -
  note W = wheelD [OF w]
  have cs: "c \<notin> slots" "c \<notin> range Timer" using c slots_levels by auto
  obtain xs where xs: "R a = Some xs" using a W(4) by auto
  obtain h nd where h: "list_timer_replace_init ((theap s)(c \<mapsto> self_node c)) a c = Inr h" "rings h (R(a \<mapsto> []))"
    "h c = Some nd" "pNext nd = hd (map Timer xs @ [c])" "chain h xs c" "dom h = insert c (dom (theap s))"
    using rings_take [OF W(3) xs, of c] W(4) cs by blast
  have "listed R = set xs \<union> listed (R(a := None))" using xs by (rule listed_split)
  moreover have "set xs \<inter> listed (R(a := None)) = {}" using W(3) xs by (rule rings_disjoint)
  moreover have "distinct xs" using W(3) xs by (rule rings_distinct)
  moreover have "Timer ` set xs \<subseteq> dom h"
    using ring_dom [OF rings_ring [OF W(3) xs]] h(6) by auto
  moreover have "dom (R(a \<mapsto> [])) = slots" using W(4) a by auto
  moreover have "all_wait (insert (level a) D) s (R(a \<mapsto> []))"
  proof -
    have rest: "all_wait D s (R(a \<mapsto> []))" using W(9) by (auto simp: all_wait_def split: if_split_asm)
    have "unat (uJiffies s) < visit b (unat (uExpires t))"
      if b: "(R(a \<mapsto> [])) b = Some zs" "n \<in> set zs" "timers s n = Some t" "level b = level a" for b zs n t
    proof -
      have n: "b \<noteq> a" "b \<in> slots" using b W(4) by (auto split: if_split_asm)
      then obtain i where bi: "b = Slot (level a) i" using b(4) by (auto simp: slots_def)
      have "waits D (clock_granularity s = 1) (unat (uJiffies s)) b (unat (uExpires t))"
        using all_waitD [OF rest b(1-3)] .
      then show ?thesis using lv [of i "unat (uExpires t)"] bi n(1) by (auto simp: waits_def le_less)
    qed
    then show ?thesis using rest unfolding all_wait_def waits_def by blast
  qed
  ultimately have "wheel (insert (level a) D) xs (s\<lparr>theap := h\<rparr>) (R(a \<mapsto> []))"
    using W h(2) by (simp add: wheel_def listed_upd)
  then show ?thesis using that h xs by blast
qed

section \<open>Unfolding the higher levels\<close>

lemma cascade_from_wheel:
  assumes "wheel D ys s R" and "chain (theap s) ys Loc_cascade" and "1 \<notin> D"
    and "\<And>n t. n \<in> set ys \<Longrightarrow> timers s n = Some t \<Longrightarrow> uJiffies s \<le> uExpires t"
  shows "\<exists>h R'. cascade_from s (hd (map Timer ys @ [Loc_cascade])) = Some (Inr (s\<lparr>theap := h\<rparr>))
    \<and> wheel D [] (s\<lparr>theap := h\<rparr>) R' \<and> grows R R'"
  using assms
proof (induction ys arbitrary: s R)
  case Nil
  have "cascade_from s Loc_cascade = Some (Inr s)" by (subst cascade_from.simps) simp
  then show ?case using Nil.prems(1) by (intro exI [of _ "theap s"] exI [of _ R]) simp
next
  case (Cons n ys)
  obtain t where t: "timers s n = Some t" using wheelD(8) [OF Cons.prems(1)] by auto
  obtain nd where nd: "theap s (Timer n) = Some nd" "pNext nd = hd (map Timer ys @ [Loc_cascade])"
    "chain (theap s) ys Loc_cascade" using Cons.prems(2) by auto
  obtain h R' where h: "add_timer s n = Inr (s\<lparr>theap := h\<rparr>)" "wheel D ys (s\<lparr>theap := h\<rparr>) R'" "grows R R'"
    "\<And>p. p \<notin> slots \<Longrightarrow> p \<notin> Timer ` insert n (listed R) \<Longrightarrow> h p = theap s p"
    using add_timer_wheel [OF Cons.prems(1) t] Cons.prems(3) Cons.prems(4) [of n t] t by (metis list.set_intros(1))
  have "h (Timer m) = theap s (Timer m)" if "m \<in> set ys" for m
    using that wheelD(5,6) [OF Cons.prems(1)] slots_levels by (intro h(4)) auto
  then have "chain h ys Loc_cascade" using nd(3) chain_cong [of ys h "theap s"] by blast
  then obtain h2 R2 where r: "cascade_from (s\<lparr>theap := h\<rparr>) (hd (map Timer ys @ [Loc_cascade])) = Some (Inr (s\<lparr>theap := h2\<rparr>))"
    "wheel D [] (s\<lparr>theap := h2\<rparr>) R2" "grows R' R2"
    using Cons.IH [OF h(2)] Cons.prems(3,4) by fastforce
  have "cascade_from s (Timer n) = Some (Inr (s\<lparr>theap := h2\<rparr>))"
    using nd h(1) r(1) by (subst cascade_from.simps) (simp add: timer_of_def)
  then show ?case using r(2) grows_trans [OF h(3) r(3)] by auto
qed

lemma cascade_timer_wheel:
  assumes w: "wheel D [] s R" and lv: "lv \<in> {2..5}" and D: "1 \<notin> D"
    and idx: "unat idx = unat (uJiffies s) div 2 ^ shift lv mod 64"
  obtains h R' where "cascade_timer s lv idx = Inr (idx, s\<lparr>theap := h\<rparr>)" and "wheel (insert lv D) [] (s\<lparr>theap := h\<rparr>) R'"
    and "grows R R'"
proof -
  let ?a = "Slot lv (unat idx)"
  have a: "?a \<in> slots" using lv idx by (auto simp: slots_def)
  obtain h nd xs where h: "list_timer_replace_init ((theap s)(Loc_cascade \<mapsto> self_node Loc_cascade)) ?a Loc_cascade = Inr h"
    "h Loc_cascade = Some nd" "pNext nd = hd (map Timer xs @ [Loc_cascade])" "chain h xs Loc_cascade" "R ?a = Some xs"
    "wheel (insert (level ?a) D) xs (s\<lparr>theap := h\<rparr>) (R(?a \<mapsto> []))"
  proof (rule wheel_take [OF w a, of Loc_cascade])
    show "Slot (level ?a) i = ?a"
      if "unat (uJiffies s) = visit (Slot (level ?a) i) e" "fits (Slot (level ?a) i) e" for i e
      using that lv idx by (auto simp: visit_def)
  qed simp_all
  have due: "uJiffies s \<le> uExpires t" if "n \<in> set xs" "timers s n = Some t" for n t
  proof -
    have "unat (uJiffies s) \<le> visit ?a (unat (uExpires t))"
      using all_waitD [OF wheelD(9) [OF w] h(5) that] by (simp add: waits_def)
    then show ?thesis using visit_le [of ?a "unat (uExpires t)"] by (simp add: word_le_nat_alt)
  qed
  have "wheel (insert lv D) xs (s\<lparr>theap := h\<rparr>) (R(?a \<mapsto> []))" using h(6) by simp
  from cascade_from_wheel [OF this] h(4) D lv due
  obtain h2 R2 where r: "cascade_from (s\<lparr>theap := h\<rparr>) (pNext nd) = Some (Inr (s\<lparr>theap := h2\<rparr>))"
    "wheel (insert lv D) [] (s\<lparr>theap := h2\<rparr>) R2" "grows (R(?a \<mapsto> [])) R2"
    unfolding h(3) by fastforce
  have "cascade_timer s lv idx = Inr (idx, s\<lparr>theap := h2(Loc_cascade := None)\<rparr>)"
    using h(1,2) r(1) by (simp add: cascade_timer_def Let_def)
  moreover have "wheel (insert lv D) [] (s\<lparr>theap := h2(Loc_cascade := None)\<rparr>) R2"
    using wheel_local [OF _ _ r(2), of Loc_cascade None] slots_levels by auto
  moreover have "grows R R2" using lv grows_trans [OF grows_other r(3)] by auto
  ultimately show ?thesis using that by blast
qed

text \<open>Levels whose turn is a multiple of a number that does not divide the time are not touched.\<close>

lemma wheel_skip:
  assumes w: "wheel D [] s R" and k: "unat (uJiffies s) mod 2 ^ k \<noteq> 0"
    and lv: "\<And>lv. lv \<in> {2..5} \<Longrightarrow> lv \<notin> D \<Longrightarrow> k \<le> shift lv"
  shows "wheel {2..5} [] s R"
proof -
  note W = wheelD [OF w]
  have "unat (uJiffies s) \<noteq> visit a (unat (uExpires t))"
    if *: "R a = Some xs" "n \<in> set xs" "timers s n = Some t" "level a \<in> {2..5}" for a xs n t
  proof (cases "level a \<in> D")
    case True
    then show ?thesis using all_waitD [OF W(9) *(1-3)] by (simp add: waits_def)
  next
    case False
    have "(2 :: nat) ^ k dvd 2 ^ shift (level a)" using lv [OF *(4) False] by (rule le_imp_power_dvd)
    then have "2 ^ k dvd visit a (unat (uExpires t))" using *(4) by (simp add: visit_def)
    then show ?thesis using k by (auto simp: dvd_eq_mod_eq_0)
  qed
  then have "all_wait {2..5} s R" using all_wait_levels [OF W(9), of "{2..5}"] by blast
  then show ?thesis using W by (simp add: wheel_def)
qed

lemma index_zero: "m div 2 ^ n mod 64 \<noteq> 0 \<Longrightarrow> m mod 2 ^ (n + 6) \<noteq> (0 :: nat)"
proof (rule notI)
  assume *: "m div 2 ^ n mod 64 \<noteq> 0" and "m mod 2 ^ (n + 6) = 0"
  then obtain q where "m = 2 ^ (n + 6) * q" by (auto elim: dvdE)
  then have "m = 2 ^ n * (64 * q)" by (simp add: power_add)
  then show False using * by simp
qed

lemma INDEX_index: "unat (INDEX s n) = unat (uJiffies s) div 2 ^ shift (n + 2) mod 64"
  by (simp add: INDEX_def mask_index shift_def)

lemma cascade_step:
  assumes "wheel D [] (s\<lparr>theap := h\<rparr>) R" and "lv = n + 2" and "n < 4" and "1 \<notin> D"
  shows "\<exists>h' R'. cascade_timer (s\<lparr>theap := h\<rparr>) lv (INDEX s n) = Inr (INDEX s n, s\<lparr>theap := h'\<rparr>)
    \<and> wheel (insert lv D) [] (s\<lparr>theap := h'\<rparr>) R' \<and> grows R R'"
  using cascade_timer_wheel [OF assms(1), of lv "INDEX s n"] assms(2-4) by (fastforce simp: INDEX_index)

lemma cascade_stop:
  assumes "wheel D [] (s\<lparr>theap := h\<rparr>) R" and D: "{2..n + 2} \<subseteq> D" and i: "INDEX s n \<noteq> 0"
  shows "wheel {2..5} [] (s\<lparr>theap := h\<rparr>) R"
proof (rule wheel_skip [OF assms(1)])
  have "unat (INDEX s n) \<noteq> 0" using i by (simp add: unat_eq_0)
  then show "unat (uJiffies (s\<lparr>theap := h\<rparr>)) mod 2 ^ (shift (n + 2) + 6) \<noteq> 0"
    using index_zero [of "unat (uJiffies s)" "shift (n + 2)"] by (simp add: INDEX_index)
  show "shift (n + 2) + 6 \<le> shift lv" if "lv \<in> {2..5}" "lv \<notin> D" for lv
  proof -
    have "n + 2 < lv" using that D by (auto simp: subset_iff not_less)
    then show ?thesis by (simp add: shift_def wheel_consts)
  qed
qed

lemma run_cascades_wheel:
  assumes w: "wheel {} [] s R"
  obtains h R' where "run_cascades s = Inr (s\<lparr>theap := h\<rparr>)" and "wheel {2..5} [] (s\<lparr>theap := h\<rparr>) R'"
    and "grows R R'"
proof (cases "uJiffies s AND TVR_MASK = 0")
  case False
  then have "unat (uJiffies s AND TVR_MASK) \<noteq> 0" by (simp only: unat_eq_0 not_False_eq_True)
  then have "unat (uJiffies s) mod 2 ^ 8 \<noteq> 0" by (simp add: mask_index(2))
  from wheel_skip [OF w this] have "wheel {2..5} [] s R" by (auto simp: shift_def wheel_consts)
  then show ?thesis using False that [of "theap s" R] by (simp add: run_cascades_def)
next
  case True
  have idx: "INDEX (s\<lparr>theap := h\<rparr>) n = INDEX s n" for h n by (simp add: INDEX_def)
  have run: "run_cascades s = bnd (cascade_timer s 2 (INDEX s 0)) (\<lambda>(i, s).
      if i \<noteq> 0 then Inr s else bnd (cascade_timer s 3 (INDEX s 1)) (\<lambda>(i, s).
      if i \<noteq> 0 then Inr s else bnd (cascade_timer s 4 (INDEX s 2)) (\<lambda>(i, s).
      if i \<noteq> 0 then Inr s else bnd (cascade_timer s 5 (INDEX s 3)) (\<lambda>(i, s). Inr s))))"
    using True by (simp add: run_cascades_def)
  obtain h1 R1 where 1: "cascade_timer s 2 (INDEX s 0) = Inr (INDEX s 0, s\<lparr>theap := h1\<rparr>)" "wheel {2} [] (s\<lparr>theap := h1\<rparr>) R1" "grows R R1"
    using cascade_step [where D = "{}" and s = s and h = "theap s" and R = R and lv = 2 and n = 0] w by auto
  obtain h2 R2 where 2: "cascade_timer (s\<lparr>theap := h1\<rparr>) 3 (INDEX s 1) = Inr (INDEX s 1, s\<lparr>theap := h2\<rparr>)"
    "wheel {3, 2} [] (s\<lparr>theap := h2\<rparr>) R2" "grows R1 R2"
    using cascade_step [OF 1(2), of 3 1] by auto
  obtain h3 R3 where 3: "cascade_timer (s\<lparr>theap := h2\<rparr>) 4 (INDEX s 2) = Inr (INDEX s 2, s\<lparr>theap := h3\<rparr>)"
    "wheel {4, 3, 2} [] (s\<lparr>theap := h3\<rparr>) R3" "grows R2 R3"
    using cascade_step [OF 2(2), of 4 2] by auto
  obtain h4 R4 where 4: "cascade_timer (s\<lparr>theap := h3\<rparr>) 5 (INDEX s 3) = Inr (INDEX s 3, s\<lparr>theap := h4\<rparr>)"
    "wheel {5, 4, 3, 2} [] (s\<lparr>theap := h4\<rparr>) R4" "grows R3 R4"
    using cascade_step [OF 3(2), of 5 3] by auto
  have "{2..5} = {5, 4, 3, 2 :: nat}" "{2..0 + 2} \<subseteq> {2 :: nat}" "{2..1 + 2} \<subseteq> {3, 2 :: nat}" "{2..2 + 2} \<subseteq> {4, 3, 2 :: nat}"
    by auto
  note ends = cascade_stop [OF 1(2) this(2)] cascade_stop [OF 2(2) this(3)] cascade_stop [OF 3(2) this(4)] 4(2) [folded this(1)]
  note eval = 1(1) 2(1) 3(1) 4(1)
  note g1 = 1(3)
  note g2 = grows_trans [OF g1 2(3)]
  note g3 = grows_trans [OF g2 3(3)]
  note g4 = grows_trans [OF g3 4(3)]
  consider "INDEX s 0 \<noteq> 0" | "INDEX s 0 = 0" "INDEX s 1 \<noteq> 0" | "INDEX s 0 = 0" "INDEX s 1 = 0" "INDEX s 2 \<noteq> 0"
    | "INDEX s 0 = 0" "INDEX s 1 = 0" "INDEX s 2 = 0"
    by blast
  then show ?thesis
  proof cases
    case 1
    show ?thesis using 1 eval by (intro that [OF _ ends(1) g1]) (simp_all add: run idx)
  next
    case 2
    show ?thesis using 2 eval by (intro that [OF _ ends(2) g2]) (simp_all add: run idx)
  next
    case 3
    show ?thesis using 3 eval by (intro that [OF _ ends(3) g3]) (simp_all add: run idx)
  next
    case 4
    show ?thesis using 4 eval by (intro that [OF _ ends(4) g4]) (simp_all add: run idx)
  qed
qed

end
