(* ===== verification/TimerService.thy ===== *)
theory TimerService
  imports TimerProps
begin

text \<open>
  \<open>run_timer\<close> as a timer service. The specification keeps the pending timers in a map and has no
  lists and no levels: at each millisecond the timers that expire are served, in some order. The
  wheel refines it, whatever the callbacks do to the rest of the state, as long as they leave the
  timers alone.
\<close>

section \<open>Callbacks that leave the timers alone\<close>

definition with_heap :: "tptr theap \<Rightarrow> 'a tstate_scheme res \<Rightarrow> 'a tstate_scheme res" where
  "with_heap h r = bnd r (\<lambda>s. Inr (s\<lparr>theap := h\<rparr>))"

lemma with_heap_simps [simp]: "with_heap h (Inr s) = Inr (s\<lparr>theap := h\<rparr>)" "with_heap h (Inl e) = Inl e"
  "with_heap h (with_heap h' r) = with_heap h r"
  by (simp_all add: with_heap_def bnd_def split: sum.split)

definition quiet :: "('a tstate_scheme \<Rightarrow> 'a tstate_scheme res) \<Rightarrow> bool" where
  "quiet f \<longleftrightarrow> (\<forall>s h. f (s\<lparr>theap := h\<rparr>) = with_heap h (f s))
     \<and> (\<forall>s s'. f s = Inr s' \<longrightarrow> timers s' = timers s \<and> uJiffies s' = uJiffies s
          \<and> timer_manager s' = timer_manager s \<and> clock_granularity s' = clock_granularity s)"

lemma quietD:
  assumes "quiet f"
  shows "f (s\<lparr>theap := h\<rparr>) = with_heap h (f s)"
    and "f s = Inr s' \<Longrightarrow> timers s' = timers s \<and> uJiffies s' = uJiffies s
      \<and> timer_manager s' = timer_manager s \<and> clock_granularity s' = clock_granularity s \<and> theap s' = theap s"
proof -
  show *: "f (s\<lparr>theap := h\<rparr>) = with_heap h (f s)" for s h
    using assms by (simp add: quiet_def)
  assume f: "f s = Inr s'"
  have "s' = s'\<lparr>theap := theap s\<rparr>" using * [where s = s and h = "theap s"] f by simp
  then have "theap s' = theap (s'\<lparr>theap := theap s\<rparr>)" by (rule arg_cong)
  then show "timers s' = timers s \<and> uJiffies s' = uJiffies s
      \<and> timer_manager s' = timer_manager s \<and> clock_granularity s' = clock_granularity s \<and> theap s' = theap s"
    using assms f by (simp add: quiet_def)
qed

lemma quiet_ret: "quiet Inr"
  by (simp add: quiet_def)

lemma quiet_bnd: "quiet f \<Longrightarrow> quiet g \<Longrightarrow> quiet (\<lambda>s. bnd (f s) g)"
  unfolding quiet_def by (auto simp: bnd_def split: sum.split sum.split_asm)

lemma quiet_read: "(\<And>s h. r (s\<lparr>theap := h\<rparr>) = r s) \<Longrightarrow> (\<And>x. quiet (F x)) \<Longrightarrow> quiet (\<lambda>s. bnd (r s) (\<lambda>x. F x s))"
  unfolding quiet_def by (auto simp: bnd_def split: sum.split sum.split_asm)

text \<open>The two callbacks of the library.\<close>

lemma heap_access [simp]:
  "get_task (s\<lparr>theap := h\<rparr>) p = get_task s p" "k_find (s\<lparr>theap := h\<rparr>) L t = k_find s L t"
  "k_empty (s\<lparr>theap := h\<rparr>) L = k_empty s L"
  "k_append (s\<lparr>theap := h\<rparr>) L t = with_heap h (k_append s L t)"
  "k_pop (s\<lparr>theap := h\<rparr>) L = bnd (k_pop s L) (\<lambda>(p, s). Inr (p, s\<lparr>theap := h\<rparr>))"
  "upd_task (s\<lparr>theap := h\<rparr>) p f = with_heap h (upd_task s p f)"
  "free_task (s\<lparr>theap := h\<rparr>) t = (free_task s t)\<lparr>theap := h\<rparr>"
  by (simp_all add: get_task_def k_find_def k_empty_def k_append_def k_pop_def upd_task_def free_task_def bnd_def
      split: option.split sum.split)

lemma k_append_quiet: "quiet (\<lambda>s. k_append s L t)"
  by (auto simp: quiet_def) (auto simp: k_append_def elim!: bnd_InrE)

lemma upd_task_quiet: "quiet (\<lambda>s. upd_task s p f)"
  by (auto simp: quiet_def) (auto simp: upd_task_def elim!: bnd_InrE)

lemma helper_quiet: "quiet (\<lambda>s. collaborative_schedule_helper s p)"
  unfolding collaborative_schedule_helper_def
  by (intro quiet_read quiet_bnd k_append_quiet upd_task_quiet) simp_all

lemma free_task_fields:
  "timers (free_task s t) = timers s" "uJiffies (free_task s t) = uJiffies s"
  "timer_manager (free_task s t) = timer_manager s" "clock_granularity (free_task s t) = clock_granularity s"
  by (simp_all add: free_task_def)

lemma clean_loop_quiet:
  assumes "clean_loop s c = Some r"
  shows "clean_loop (s\<lparr>theap := h\<rparr>) c = Some (with_heap h r)
    \<and> (\<forall>s'. r = Inr s' \<longrightarrow> timers s' = timers s \<and> uJiffies s' = uJiffies s
         \<and> timer_manager s' = timer_manager s \<and> clock_granularity s' = clock_granularity s)"
proof (induct rule: clean_loop.raw_induct [OF _ assms])
  case (1 rec s c r)
  show ?case
  proof (cases "k_empty s Pool_list")
    case (Inl e)
    then show ?thesis using 1(2) by (subst clean_loop.simps) auto
  next
    case (Inr none_left)
    show ?thesis
    proof (cases "none_left \<or> c = 0")
      case False
      then show ?thesis using Inr 1(2) by (subst clean_loop.simps) auto
    next
      case True
      then have loop: "(if none_left \<or> c = 0 then A else B) = A" for A B :: "'a tstate_scheme res option" by simp
      show ?thesis
      proof (cases "\<exists>p s1 t. k_pop s Pool_list = Inr (p, s1) \<and> get_task s1 p = Inr t")
        case False
        then show ?thesis using Inr True 1(2)
          by (subst clean_loop.simps) (auto split: sum.splits)
      next
        case True
        then obtain p s1 t where p: "k_pop s Pool_list = Inr (p, s1)" "get_task s1 p = Inr t" by blast
        have r: "rec (free_task s1 (the p)) (c - 1) = Some r" using 1(2) Inr loop p by simp
        have "timers s1 = timers s \<and> uJiffies s1 = uJiffies s \<and> timer_manager s1 = timer_manager s
            \<and> clock_granularity s1 = clock_granularity s"
          using p(1) by (auto simp: k_pop_def elim!: bnd_InrE)
        with 1(1) [OF r] show ?thesis
          by (subst clean_loop.simps) (simp add: Inr loop p free_task_fields)
      qed
    qed
  qed
qed

lemma clean_quiet: "quiet clean_dead_task"
proof -
  have nat: "clean_loop (s\<lparr>theap := h\<rparr>) c = map_option (with_heap h) (clean_loop s c)"
    for s :: "'a tstate_scheme" and h c
  proof (cases "clean_loop s c")
    case None
    have "clean_loop (s\<lparr>theap := h\<rparr>) c = Some r \<Longrightarrow> False" for r
      using clean_loop_quiet [of "s\<lparr>theap := h\<rparr>" c r "theap s"] None by simp
    then show ?thesis using None by (cases "clean_loop (s\<lparr>theap := h\<rparr>) c") auto
  next
    case (Some r)
    then show ?thesis using clean_loop_quiet [OF Some] by simp
  qed
  show ?thesis
    unfolding quiet_def clean_dead_task_def
    by (auto simp: nat bnd_def Let_def returns_def split: sum.split option.split if_split_asm sum.split_asm option.split_asm
        dest: clean_loop_quiet)
qed

definition quiet_user :: "'a user_code \<Rightarrow> bool" where
  "quiet_user uc \<longleftrightarrow> (\<forall>i p. quiet (uc i p))"

lemma quiet_fail: "quiet (\<lambda>s. Inl e)"
  by (simp add: quiet_def)

lemma call_quiet: "quiet_user uc \<Longrightarrow> quiet (\<lambda>s. call_timer_fn uc s f p)"
  by (cases f; cases p)
    (simp_all add: call_timer_fn_def param_task_def clean_quiet helper_quiet quiet_user_def quiet_fail)

section \<open>The service\<close>

text \<open>Serving one timer, and serving a list of them in its order.\<close>

definition serve :: "'a user_code \<Rightarrow> 'a tstate_scheme \<Rightarrow> nat \<Rightarrow> 'a tstate_scheme res" where
  "serve uc s n =
     (case timers s n of
        None \<Rightarrow> Inl Wild_deref
      | Some t \<Rightarrow>
          bnd (call_timer_fn uc s (timerFn t) (pParam t)) (\<lambda>s.
          Inr (s\<lparr>timers := (timers s)(n := if uPeriod t \<noteq> 0
            then Some (t\<lparr>uExpires := uJiffies s + uPeriod t\<rparr>) else None)\<rparr>)))"

fun serve_all :: "'a user_code \<Rightarrow> 'a tstate_scheme \<Rightarrow> nat list \<Rightarrow> 'a tstate_scheme res" where
  "serve_all uc s [] = Inr s"
| "serve_all uc s (n # ns) = bnd (serve uc s n) (\<lambda>s. serve_all uc s ns)"

text \<open>
  The timers served at the current millisecond: all that expire now, and with a granularity other
  than one possibly some that expire a multiple of 256 milliseconds later.
\<close>

definition expiring :: "'a tstate_scheme \<Rightarrow> nat list \<Rightarrow> bool" where
  "expiring s ns \<longleftrightarrow> distinct ns \<and> (\<forall>n t. timers s n = Some t \<longrightarrow> uExpires t = uJiffies s \<longrightarrow> n \<in> set ns)
     \<and> (\<forall>n\<in>set ns. \<exists>t. timers s n = Some t \<and> uJiffies s \<le> uExpires t
          \<and> unat (uExpires t) mod 256 = unat (uJiffies s) mod 256
          \<and> (clock_granularity s = 1 \<longrightarrow> uExpires t = uJiffies s))"

inductive serves :: "'a user_code \<Rightarrow> 32 word \<Rightarrow> 'a tstate_scheme \<Rightarrow> 'a tstate_scheme res \<Rightarrow> bool"
  for uc now where
  up_to_date: "now < uJiffies s \<Longrightarrow> serves uc now s (Inr s)"
| tick: "uJiffies s \<le> now \<Longrightarrow> expiring s ns \<Longrightarrow> serve_all uc s ns = Inr s'
    \<Longrightarrow> serves uc now (s'\<lparr>uJiffies := uJiffies s' + 1\<rparr>) r \<Longrightarrow> serves uc now s r"
| fault: "uJiffies s \<le> now \<Longrightarrow> expiring s ns \<Longrightarrow> serve_all uc s ns = Inl e \<Longrightarrow> serves uc now s (Inl e)"

text \<open>Forgetting the lists, and the bound that keeps expiry times of periodic timers below \<open>2^32\<close>.\<close>

abbreviation forget :: "'a tstate_scheme \<Rightarrow> 'a tstate_scheme" where
  "forget s \<equiv> s\<lparr>theap := Map.empty\<rparr>"

definition periods_fit :: "32 word \<Rightarrow> 'a tstate_scheme \<Rightarrow> bool" where
  "periods_fit now s \<longleftrightarrow> (\<forall>n t. timers s n = Some t \<longrightarrow> unat now + unat (uPeriod t) < 2 ^ 32)"

section \<open>The loops of run_timer\<close>

lemma all_wait_upd:
  assumes "n \<notin> listed R" and "timers s' = (timers s)(n := v)"
    and "uJiffies s' = uJiffies s" and "clock_granularity s' = clock_granularity s"
  shows "all_wait D s' R = all_wait D s R"
proof -
  have "m \<noteq> n" if "R a = Some xs" "m \<in> set xs" for a xs m using that assms(1) unfolding listed_def by blast
  then show ?thesis using assms by (auto simp: all_wait_def)
qed

text \<open>A timer that no list holds is freed, or gets a new expiry time.\<close>

lemma wheel_free:
  assumes w: "wheel D (n # ys) s R"
  shows "wheel D ys (free_timer s n) R"
proof -
  note W = wheelD [OF w]
  have n: "n \<notin> listed R" "n \<notin> set ys" "Timer n \<notin> slots" using W slots_levels by auto
  have "rings ((theap s)(Timer n := None)) R" using W n by (subst rings_local) auto
  moreover have "dom ((timers s)(n := None)) = set ys \<union> listed R" using W n by auto
  moreover have "Timer ` set ys \<subseteq> dom ((theap s)(Timer n := None))" using W n by auto
  moreover have "all_wait D (free_timer s n) R" using W(9) all_wait_upd [OF n(1), of "free_timer s n" s None D] by (simp add: free_timer_def)
  ultimately show ?thesis using W by (simp add: wheel_def free_timer_def)
qed

lemma wheel_rearm:
  assumes w: "wheel D (n # ys) s R"
  shows "wheel D (n # ys) (s\<lparr>timers := (timers s)(n \<mapsto> t)\<rparr>) R"
proof -
  note W = wheelD [OF w]
  have n: "n \<notin> listed R" using W by auto
  have "all_wait D (s\<lparr>timers := (timers s)(n \<mapsto> t)\<rparr>) R" using W(9) all_wait_upd [OF n, of "s\<lparr>timers := (timers s)(n \<mapsto> t)\<rparr>" s "Some t" D] by simp
  moreover have "dom ((timers s)(n \<mapsto> t)) = set (n # ys) \<union> listed R" using W(8) by auto
  ultimately show ?thesis using W by (simp add: wheel_def)
qed

lemma wheel_cong:
  assumes "wheel D ys s R" and "timers s' = timers s" "uJiffies s' = uJiffies s" "timer_manager s' = timer_manager s"
    "clock_granularity s' = clock_granularity s" "theap s' = theap s"
  shows "wheel D ys s' R"
  using assms by (simp add: wheel_def all_wait_def)

lemma fire_timer_wheel:
  assumes q: "quiet_user uc" and w: "wheel {1..5} (n # ys) s R" and p: "periods_fit b s" "uJiffies s \<le> b"
  shows "(\<exists>e. fire_timer uc s n = Inl e \<and> serve uc (forget s) n = Inl e)
    \<or> (\<exists>s' R'. fire_timer uc s n = Inr s' \<and> serve uc (forget s) n = Inr (forget s') \<and> wheel {1..5} ys s' R'
         \<and> grows R R'
         \<and> uJiffies s' = uJiffies s \<and> periods_fit b s'
         \<and> (\<forall>q. q \<notin> slots \<longrightarrow> q \<notin> Timer ` insert n (listed R) \<longrightarrow> theap s' q = theap s q))"
proof -
  note W = wheelD [OF w]
  obtain t where t: "timers s n = Some t" using W(8) by auto
  let ?call = "call_timer_fn uc s (timerFn t) (pParam t)"
  have forget: "call_timer_fn uc (forget s) (timerFn t) (pParam t) = with_heap Map.empty ?call"
    by (rule quietD(1) [OF call_quiet [OF q]])
  show ?thesis
  proof (cases ?call)
    case (Inl e)
    then show ?thesis using t forget by (simp add: fire_timer_def get_timer_def serve_def)
  next
    case (Inr s1)
    have s1: "timers s1 = timers s" "uJiffies s1 = uJiffies s" "timer_manager s1 = timer_manager s"
      "clock_granularity s1 = clock_granularity s" "theap s1 = theap s"
      using quietD(2) [OF call_quiet [OF q] Inr] by auto
    have w1: "wheel {1..5} (n # ys) s1 R" using wheel_cong [OF w s1] .
    have fit: "unat b + unat (uPeriod t) < 2 ^ 32" using p(1) t unfolding periods_fit_def by blast
    then have "unat (uJiffies s) + unat (uPeriod t) < 2 ^ 32" using p(2) by (simp add: word_le_nat_alt)
    then have later: "uPeriod t \<noteq> 0 \<Longrightarrow> uJiffies s < uJiffies s + uPeriod t"
      by (simp add: word_less_nat_alt unat_word_ariths unat_gt_0)
    have serve: "serve uc (forget s) n = Inr (forget (s1\<lparr>timers := (timers s)(n := if uPeriod t \<noteq> 0
        then Some (t\<lparr>uExpires := uJiffies s + uPeriod t\<rparr>) else None)\<rparr>))"
      using t forget Inr s1 by (simp add: serve_def)
    show ?thesis
    proof (cases "uPeriod t = 0")
      case True
      have "fire_timer uc s n = Inr (free_timer s1 n)"
        using t Inr True s1 by (simp add: fire_timer_def get_timer_def)
      moreover have "periods_fit b (free_timer s1 n)" using p s1 by (simp add: periods_fit_def free_timer_def)
      ultimately show ?thesis
        using serve wheel_free [OF w1] s1 True by (intro disjI2 exI [of _ "free_timer s1 n"] exI [of _ R]) (simp add: free_timer_def)
    next
      case False
      let ?t = "t\<lparr>uExpires := uJiffies s + uPeriod t\<rparr>"
      let ?s = "s1\<lparr>timers := (timers s)(n \<mapsto> ?t)\<rparr>"
      have w2: "wheel {1..5} (n # ys) ?s R" using wheel_rearm [OF w1] s1 by simp
      have lt: "uJiffies ?s < uExpires ?t" using False later s1 by simp
      then have le: "uJiffies ?s \<le> uExpires ?t" by (rule less_imp_le)
      have tm: "timers ?s n = Some ?t" by simp
      obtain h R' where h: "add_timer ?s n = Inr (?s\<lparr>theap := h\<rparr>)" "wheel {1..5} ys (?s\<lparr>theap := h\<rparr>) R'" "grows R R'"
        "\<And>p. p \<notin> slots \<Longrightarrow> p \<notin> Timer ` insert n (listed R) \<Longrightarrow> h p = theap ?s p"
        using add_timer_wheel [OF w2 tm le lt] by blast
      have "fire_timer uc s n = Inr (?s\<lparr>theap := h\<rparr>)"
        using t Inr False s1 h(1) wheelD(10) [OF w1] by (simp add: fire_timer_def get_timer_def)
      moreover have "periods_fit b (?s\<lparr>theap := h\<rparr>)" using p s1 fit by (simp add: periods_fit_def)
      ultimately show ?thesis
        using serve h(2-4) s1 False by (intro disjI2 exI [of _ "?s\<lparr>theap := h\<rparr>"] exI [of _ R']) simp
    qed
  qed
qed

lemma expire_from_wheel:
  assumes "quiet_user uc" and "wheel {1..5} ys s R" and "periods_fit b s" and "chain (theap s) ys Loc_expire" and "uJiffies s \<le> b"
  shows "\<exists>r. expire_from uc s (hd (map Timer ys @ [Loc_expire])) = Some r
    \<and> with_heap Map.empty r = serve_all uc (forget s) ys
    \<and> (\<forall>s'. r = Inr s' \<longrightarrow> (\<exists>R'. wheel {1..5} [] s' R' \<and> grows R R') \<and> uJiffies s' = uJiffies s \<and> periods_fit b s')"
  using assms(2-)
proof (induction ys arbitrary: s R)
  case Nil
  have "expire_from uc s Loc_expire = Some (Inr s)" by (subst expire_from.simps) simp
  then show ?case using Nil.prems by auto
next
  case (Cons n ys)
  obtain nd where nd: "theap s (Timer n) = Some nd" "pNext nd = hd (map Timer ys @ [Loc_expire])"
    "chain (theap s) ys Loc_expire" using Cons.prems(3) by auto
  consider e where "fire_timer uc s n = Inl e" "serve uc (forget s) n = Inl e"
    | s' R' where "fire_timer uc s n = Inr s'" "serve uc (forget s) n = Inr (forget s')" "wheel {1..5} ys s' R'"
      "uJiffies s' = uJiffies s" "periods_fit b s'" "grows R R'"
      "\<And>q. q \<notin> slots \<Longrightarrow> q \<notin> Timer ` insert n (listed R) \<Longrightarrow> theap s' q = theap s q"
    using fire_timer_wheel [OF assms(1) Cons.prems(1,2,4)] by blast
  then show ?case
  proof cases
    case 1
    then have "expire_from uc s (Timer n) = Some (Inl e)"
      using nd by (subst expire_from.simps) (simp add: timer_of_def)
    then show ?thesis using 1 by simp
  next
    case 2
    have "theap s' (Timer m) = theap s (Timer m)" if "m \<in> set ys" for m
      using that wheelD(5,6) [OF Cons.prems(1)] slots_levels by (intro 2(7)) auto
    then have "chain (theap s') ys Loc_expire" using nd(3) chain_cong [of ys "theap s'" "theap s"] by blast
    from Cons.IH [OF 2(3) 2(5) this] 2(4) Cons.prems(4)
    obtain r where r: "expire_from uc s' (hd (map Timer ys @ [Loc_expire])) = Some r"
      "with_heap Map.empty r = serve_all uc (forget s') ys"
      "\<forall>s''. r = Inr s'' \<longrightarrow> (\<exists>R''. wheel {1..5} [] s'' R'' \<and> grows R' R'') \<and> uJiffies s'' = uJiffies s' \<and> periods_fit b s''"
      by auto
    have "expire_from uc s (Timer n) = Some r"
      using nd 2(1) r(1) by (subst expire_from.simps) (simp add: timer_of_def)
    then show ?thesis using r(2,3) 2(2,4) grows_trans [OF 2(6)] by fastforce
  qed
qed

section \<open>One millisecond\<close>

lemma wheel_next:
  assumes w: "wheel {1..5} [] s R" and j: "unat (uJiffies s) + 1 < 2 ^ 32"
  shows "wheel {} [] (s\<lparr>uJiffies := uJiffies s + 1\<rparr>) R"
proof -
  note W = wheelD [OF w]
  have u: "unat (uJiffies s + 1) = unat (uJiffies s) + 1" using j by (simp add: unat_word_ariths)
  have "all_wait {} (s\<lparr>uJiffies := uJiffies s + 1\<rparr>) R"
    unfolding all_wait_def
  proof (intro allI impI)
    fix a xs n t assume *: "R a = Some xs" "n \<in> set xs" "timers (s\<lparr>uJiffies := uJiffies s + 1\<rparr>) n = Some t"
    have "level a \<in> {1..5}" using W(4) *(1) slots_levels(1) by blast
    moreover have "waits {1..5} (clock_granularity s = 1) (unat (uJiffies s)) a (unat (uExpires t))"
      using all_waitD [OF W(9) *(1,2)] *(3) by simp
    ultimately show "waits {} (clock_granularity (s\<lparr>uJiffies := uJiffies s + 1\<rparr>) = 1)
        (unat (uJiffies (s\<lparr>uJiffies := uJiffies s + 1\<rparr>))) a (unat (uExpires t))"
      by (auto simp: waits_def u)
  qed
  then show ?thesis using W by (simp add: wheel_def)
qed

text \<open>After the higher levels are unfolded the current element of level 1 holds what expires now.\<close>

lemma same_mod: "j \<le> e \<Longrightarrow> e mod 256 = j mod 256 \<Longrightarrow> e < j + 256 \<Longrightarrow> e = (j :: nat)"
  using mod_eq_dvd_iff_nat [of j e 256] nat_dvd_not_less [of "e - j" 256] by linarith

lemma slot_expiring:
  assumes w: "wheel {2..5} [] s R" and xs: "R (Slot 1 (unat (uJiffies s AND TVR_MASK))) = Some xs"
  shows "expiring s xs"
proof -
  let ?a = "Slot 1 (unat (uJiffies s AND TVR_MASK))"
  note W = wheelD [OF w]
  have mem: "\<exists>t. timers s n = Some t \<and> uJiffies s \<le> uExpires t
      \<and> unat (uExpires t) mod 256 = unat (uJiffies s) mod 256
      \<and> (clock_granularity s = 1 \<longrightarrow> uExpires t = uJiffies s)" if n: "n \<in> set xs" for n
  proof -
    obtain t where t: "timers s n = Some t" using W(8) n xs by (auto simp: listed_def)
    have wt: "waits {2..5} (clock_granularity s = 1) (unat (uJiffies s)) ?a (unat (uExpires t))"
      using all_waitD [OF W(9) xs n t] .
    then have e: "unat (uJiffies s) \<le> unat (uExpires t)" "unat (uExpires t) mod 256 = unat (uJiffies s) mod 256"
      "clock_granularity s = 1 \<longrightarrow> unat (uExpires t) < unat (uJiffies s) + 256"
      by (auto simp: waits_def visit_def mask_index)
    have "clock_granularity s = 1 \<longrightarrow> uExpires t = uJiffies s"
      using same_mod [OF e(1,2)] e(3) word_unat_eq_iff [of "uExpires t" "uJiffies s"] by blast
    moreover have "uJiffies s \<le> uExpires t" using e(1) by (simp add: word_le_nat_alt)
    ultimately show ?thesis using t e(2) by blast
  qed
  have "n \<in> set xs" if t: "timers s n = Some t" "uExpires t = uJiffies s" for n t
  proof -
    have "n \<in> listed R" using W(8) t(1) by auto
    then obtain b zs where b: "R b = Some zs" "n \<in> set zs" unfolding listed_def by blast
    have wt: "waits {2..5} (clock_granularity s = 1) (unat (uJiffies s)) b (unat (uJiffies s))"
      using all_waitD [OF W(9) b t(1)] t(2) by simp
    have "b \<in> slots" using W(4) b(1) by auto
    have "level b \<notin> {2..5}" using wt visit_le [of b "unat (uJiffies s)"] by (auto simp: waits_def)
    then obtain i where "b = Slot 1 i" using \<open>b \<in> slots\<close> by (auto simp: slots_def)
    then have "b = ?a" using wt by (simp add: waits_def mask_index)
    then show ?thesis using b xs by simp
  qed
  then show ?thesis using mem rings_distinct [OF W(3) xs] by (simp add: expiring_def)
qed

lemma run_jiffy_wheel:
  assumes q: "quiet_user uc" and w: "wheel {} [] s R" and p: "periods_fit b s" "uJiffies s \<le> b"
    and j: "unat (uJiffies s) + 1 < 2 ^ 32"
  shows "\<exists>ns. expiring (forget s) ns
    \<and> (\<forall>xs. R (Slot 1 (unat (uJiffies s) mod 256)) = Some xs \<longrightarrow> set xs \<subseteq> set ns)
    \<and> with_heap Map.empty (run_jiffy uc s) = bnd (serve_all uc (forget s) ns) (\<lambda>s. Inr (s\<lparr>uJiffies := uJiffies s + 1\<rparr>))
    \<and> (\<forall>s'. run_jiffy uc s = Inr s' \<longrightarrow> uJiffies s' = uJiffies s + 1 \<and> periods_fit b s'
         \<and> (\<exists>R'. wheel {} [] s' R' \<and> grows (R(Slot 1 (unat (uJiffies s) mod 256) := None)) R'))"
proof -
  let ?a = "Slot 1 (unat (uJiffies s AND TVR_MASK))"
  obtain h R1 where c: "run_cascades s = Inr (s\<lparr>theap := h\<rparr>)" "wheel {2..5} [] (s\<lparr>theap := h\<rparr>) R1" "grows R R1"
    using run_cascades_wheel [OF w] .
  have a: "?a \<in> slots" by (auto simp: slots_def mask_index)
  obtain h2 nd xs where t: "list_timer_replace_init (h(Loc_expire \<mapsto> self_node Loc_expire)) ?a Loc_expire = Inr h2"
    "h2 Loc_expire = Some nd" "pNext nd = hd (map Timer xs @ [Loc_expire])" "chain h2 xs Loc_expire" "R1 ?a = Some xs"
    "wheel (insert (level ?a) {2..5}) xs (s\<lparr>theap := h2\<rparr>) (R1(?a \<mapsto> []))"
    by (rule wheel_take [OF c(2) a, of Loc_expire]) (auto simp: visit_def mask_index)
  have "insert (level ?a) {2..5} = {1..5}" by auto
  with t(6) have w2: "wheel {1..5} xs (s\<lparr>theap := h2\<rparr>) (R1(?a \<mapsto> []))" by (simp only:)
  have exp: "expiring (forget s) xs"
    using slot_expiring [of "s\<lparr>theap := h\<rparr>" R1 xs] c(2) t(5) by (simp add: expiring_def)
  have a': "?a = Slot 1 (unat (uJiffies s) mod 256)" by (simp add: mask_index)
  have "set zs \<subseteq> set xs" if "R ?a = Some zs" for zs using c(3) that t(5) by (fastforce simp: grows_def)
  note now = this [unfolded a']
  have kept: "grows (R(?a := None)) (R1(?a \<mapsto> []))" using c(3) by (auto simp: grows_def)
  have p2: "periods_fit b (s\<lparr>theap := h2\<rparr>)" using p(1) by (simp add: periods_fit_def)
  obtain r where r: "expire_from uc (s\<lparr>theap := h2\<rparr>) (pNext nd) = Some r" "with_heap Map.empty r = serve_all uc (forget s) xs"
    "\<And>s'. r = Inr s' \<Longrightarrow> (\<exists>R'. wheel {1..5} [] s' R' \<and> grows (R1(?a \<mapsto> [])) R') \<and> uJiffies s' = uJiffies s \<and> periods_fit b s'"
    using expire_from_wheel [OF q w2 p2] p(2) t(3,4) by auto
  let ?fin = "\<lambda>s. s\<lparr>theap := (theap s)(Loc_expire := None), uJiffies := uJiffies s + 1\<rparr>"
  have run: "run_jiffy uc s = bnd r (\<lambda>s. bnd (mgr s) (\<lambda>_. Inr (?fin s)))"
    using c(1) t(1,2) r(1) by (simp add: run_jiffy_def Let_def)
  show ?thesis
  proof (cases r)
    case (Inl e)
    then have "serve_all uc (forget s) xs = Inl e" using r(2) by simp
    then show ?thesis using exp run Inl now by (intro exI [of _ xs]) simp
  next
    case (Inr s')
    obtain R' where s': "wheel {1..5} [] s' R'" "uJiffies s' = uJiffies s" "periods_fit b s'" "grows (R1(?a \<mapsto> [])) R'"
      using r(3) [OF Inr] by auto
    have "wheel {1..5} [] (s'\<lparr>theap := (theap s')(Loc_expire := None)\<rparr>) R'"
      using wheel_local [OF _ _ s'(1), of Loc_expire None] slots_levels by auto
    from wheel_next [OF this] have "wheel {} [] (?fin s') R'" using s'(2) j by simp
    moreover have "serve_all uc (forget s) xs = Inr (forget s')" using r(2) Inr by simp
    moreover have "run_jiffy uc s = Inr (?fin s')" using run Inr wheelD(10) [OF s'(1)] by simp
    moreover have "periods_fit b (?fin s')" using s'(3) by (simp add: periods_fit_def)
    ultimately show ?thesis
      using exp s'(2) now grows_trans [OF kept s'(4)] unfolding a' by (intro exI [of _ xs]) auto
  qed
qed

section \<open>Up to the present\<close>

lemma TIME_AFTER_EQ_le: "TIME_AFTER_EQ a b \<longleftrightarrow> b \<le> a"
  by (simp add: TIME_AFTER_EQ_def word_le_def)

lemma run_jiffies_wheel:
  assumes "quiet_user uc" and "wheel {} [] s R" and "periods_fit now s" and "unat now + 1 < 2 ^ 32"
  shows "\<exists>r. run_jiffies uc now s = Some r \<and> serves uc now (forget s) (with_heap Map.empty r)
    \<and> (\<forall>s'. r = Inr s' \<longrightarrow> now < uJiffies s' \<and> periods_fit now s' \<and> (\<exists>R'. wheel {} [] s' R'))"
  using assms(2-)
proof (induction "unat now + 1 - unat (uJiffies s)" arbitrary: s R rule: less_induct)
  case less
  note W = wheelD [OF less.prems(1)]
  show ?case
  proof (cases "uJiffies s \<le> now")
    case False
    then have "run_jiffies uc now s = Some (Inr s)"
      using W(10) by (subst run_jiffies.simps) (simp add: TIME_AFTER_EQ_le)
    then show ?thesis using False less.prems by (auto intro!: serves.up_to_date)
  next
    case True
    then have le: "unat (uJiffies s) \<le> unat now" by (simp add: word_le_nat_alt)
    then have j: "unat (uJiffies s) + 1 < 2 ^ 32" using less.prems(3) by linarith
    have u: "unat (uJiffies s + 1) = unat (uJiffies s) + 1" using j by (simp add: unat_word_ariths)
    obtain ns where ns: "expiring (forget s) ns"
      "with_heap Map.empty (run_jiffy uc s) = bnd (serve_all uc (forget s) ns) (\<lambda>s. Inr (s\<lparr>uJiffies := uJiffies s + 1\<rparr>))"
      "\<And>s'. run_jiffy uc s = Inr s' \<Longrightarrow> uJiffies s' = uJiffies s + 1 \<and> periods_fit now s' \<and> (\<exists>R'. wheel {} [] s' R')"
      using run_jiffy_wheel [OF assms(1) less.prems(1,2) True j] by blast
    show ?thesis
    proof (cases "run_jiffy uc s")
      case (Inl e)
      then have "run_jiffies uc now s = Some (Inl e)"
        using W(10) True by (subst run_jiffies.simps) (simp add: TIME_AFTER_EQ_le)
      moreover have "serve_all uc (forget s) ns = Inl e" using ns(2) Inl by (cases "serve_all uc (forget s) ns") auto
      ultimately show ?thesis using serves.fault [OF _ ns(1)] True by auto
    next
      case (Inr s')
      obtain R' where s': "uJiffies s' = uJiffies s + 1" "periods_fit now s'" "wheel {} [] s' R'"
        using ns(3) [OF Inr] by blast
      have smaller: "unat now + 1 - unat (uJiffies s') < unat now + 1 - unat (uJiffies s)"
        using le u unfolding s'(1) by linarith
      obtain r where r: "run_jiffies uc now s' = Some r" "serves uc now (forget s') (with_heap Map.empty r)"
        "\<forall>s''. r = Inr s'' \<longrightarrow> now < uJiffies s'' \<and> periods_fit now s'' \<and> (\<exists>R'. wheel {} [] s'' R')"
        using less.hyps [OF smaller s'(3,2) less.prems(3)] by blast
      obtain s1 where s1: "serve_all uc (forget s) ns = Inr s1" "forget s' = s1\<lparr>uJiffies := uJiffies s1 + 1\<rparr>"
        using ns(2) Inr by (cases "serve_all uc (forget s) ns") auto
      have "run_jiffies uc now s = Some r"
        using W(10) True Inr r(1) by (subst run_jiffies.simps) (simp add: TIME_AFTER_EQ_le)
      moreover have "serves uc now (forget s) (with_heap Map.empty r)"
        using serves.tick [OF _ ns(1) s1(1)] True r(2) s1(2) by simp
      ultimately show ?thesis using r(3) by blast
    qed
  qed
qed

text \<open>After a run nothing that was due is left.\<close>

lemma wheel_future:
  assumes w: "wheel {} [] s R" and t: "timers s n = Some t"
  shows "uJiffies s \<le> uExpires t"
proof -
  have "n \<in> listed R" using wheelD(8) [OF w] t by auto
  then obtain b zs where b: "R b = Some zs" "n \<in> set zs" unfolding listed_def by blast
  have "unat (uJiffies s) \<le> visit b (unat (uExpires t))"
    using all_waitD [OF wheelD(9) [OF w] b t] by (simp add: waits_def)
  then show ?thesis using visit_le [of b "unat (uExpires t)"] by (simp add: word_le_nat_alt)
qed

end
