(* ===== verification/TimerApi.thy ===== *)
theory TimerApi
  imports TimerService Demo SyncInv
begin

text \<open>
  The calls of the timer component as the rest of the library sees them: \<open>run_timer\<close>,
  \<open>create_timer\<close>, \<open>delete_timer\<close> and \<open>timer_init\<close> with their lock, and what a granularity other
  than one does.
\<close>

section \<open>The critical section\<close>

lemma more_fields:
  fixes s s' :: "'a tstate_scheme"
  assumes "kstate.more s' = kstate.more s"
  shows "timers s' = timers s \<and> theap s' = theap s \<and> uJiffies s' = uJiffies s
    \<and> timer_manager s' = timer_manager s \<and> clock_granularity s' = clock_granularity s \<and> uExitFlag s' = uExitFlag s"
  using assms by (cases s; cases s') simp

lemma more_kept [simp]:
  "kstate.more (upd_lock k l f) = kstate.more k" "kstate.more (interrupt_enable k) = kstate.more k"
  "kstate.more (interrupt_disable k) = kstate.more k"
  by (simp_all add: upd_lock_def interrupt_enable_def interrupt_disable_def)

text \<open>The scheduler's state up to the lock \<open>l\<close> and the signal mask.\<close>

definition same_kernel :: "lock_id \<Rightarrow> 'a kstate_scheme \<Rightarrow> 'a kstate_scheme \<Rightarrow> bool" where
  "same_kernel l k k' \<longleftrightarrow> nodes k' = nodes k \<and> tasks k' = tasks k \<and> current_task k' = current_task k
     \<and> main_task k' = main_task k \<and> task_all_nums k' = task_all_nums k \<and> tid_bitmap k' = tid_bitmap k
     \<and> tid_start k' = tid_start k \<and> regs k' = regs k \<and> (\<forall>m. m \<noteq> l \<longrightarrow> locks k' m = locks k m)"

lemma same_kernel_trans: "same_kernel l k k1 \<Longrightarrow> same_kernel l k1 k2 \<Longrightarrow> same_kernel l k k2"
  by (simp add: same_kernel_def)

lemma same_kernel_timers [simp]:
  "same_kernel l (s\<lparr>timers := T\<rparr>) s' = same_kernel l s s'" "same_kernel l (s\<lparr>theap := h\<rparr>) s' = same_kernel l s s'"
  by (simp_all add: same_kernel_def)

text \<open>Taking a free lock and releasing one nobody waits for.\<close>

lemma lock_take:
  assumes inv: "sched_inv k Q" and free: "lock_free (locks k l)"
  obtains k' where "lock_acquire k l = Inr (Returned (), k')" and "sched_inv k' Q" and "kstate.more k' = kstate.more k"
    and "holder (locks k' l) = current_task k'" and "holder_repeat_nr (locks k' l) = 1" and "sema_val k' l = 0"
    and "same_kernel l k k'"
proof -
  obtain c where c: "current_task k = Some c" using inv by (auto simp: sched_inv_def runs_def)
  show ?thesis by (rule that [OF lock_acquire_free [OF inv c free]]) (use inv c in \<open>simp_all add: sema_val_def same_kernel_def\<close>)
qed

lemma lock_drop:
  assumes inv: "sched_inv k Q" and w: "Q (Waiters l) = Some []"
    and "holder (locks k l) = current_task k" and "holder_repeat_nr (locks k l) = 1" and "sema_val k l = 0"
  obtains k' where "lock_release k l = Inr k'" and "sched_inv k' Q" and "kstate.more k' = kstate.more k" and "lock_free (locks k' l)"
    and "same_kernel l k k'"
proof -
  let ?u = "upd_lock (upd_lock k l (\<lambda>x. x\<lparr>holder := None\<rparr>)) l (\<lambda>x. x\<lparr>holder_repeat_nr := 0\<rparr>)"
  let ?k = "interrupt_enable (upd_lock (interrupt_disable ?u) l (set_value 1))"
  have u: "sched_inv ?u Q" "sema_val ?u l = 0" "sema_val (interrupt_disable ?u) l = 0" using assms by (simp_all add: sema_val_def)
  have "lock_release k l = Inr ?k"
    using sema_up_wake_none [OF u(1) w u(2)] sema_up_post_one [OF u(3)] assms
    by (simp add: lock_release_def sema_up_def Let_def)
  then show ?thesis by (rule that) (use inv in \<open>simp_all add: lock_free_def same_kernel_def\<close>)
qed

text \<open>The scheduler's invariant does not look at the timers.\<close>

lemma sched_inv_timers [simp]:
  "sched_inv (s\<lparr>timers := T\<rparr>) Q = sched_inv s Q" "sched_inv (s\<lparr>theap := h\<rparr>) Q = sched_inv s Q"
  "sched_inv (s\<lparr>uJiffies := j\<rparr>) Q = sched_inv s Q" "sched_inv (s\<lparr>timer_manager := m\<rparr>) Q = sched_inv s Q"
  "sched_inv (s\<lparr>uExitFlag := x\<rparr>) Q = sched_inv s Q"
  by (simp_all add: sched_inv_def lists_ok_def members_ok_def runs_def)

text \<open>No task holds the timer lock or waits for it.\<close>

definition timer_idle :: "'a tstate_scheme \<Rightarrow> queue_view \<Rightarrow> bool" where
  "timer_idle s Q \<longleftrightarrow> sched_inv s Q \<and> lock_free (locks s Timer_lock) \<and> Q (Waiters Timer_lock) = Some []"

definition same_timers :: "'a tstate_scheme \<Rightarrow> 'a tstate_scheme \<Rightarrow> bool" where
  "same_timers s s' \<longleftrightarrow> timers s' = timers s \<and> theap s' = theap s \<and> uJiffies s' = uJiffies s
     \<and> timer_manager s' = timer_manager s \<and> clock_granularity s' = clock_granularity s \<and> uExitFlag s' = uExitFlag s"

lemma wheel_same: "wheel D ys s R \<Longrightarrow> same_timers s s' \<Longrightarrow> wheel D ys s' R"
  unfolding same_timers_def by (blast intro: wheel_cong)

lemma mgr_same: "same_timers s s' \<Longrightarrow> mgr s' = mgr s"
  by (simp add: same_timers_def mgr_def)

lemma same_timers_more: "kstate.more s' = kstate.more s \<Longrightarrow> same_timers s s'"
  using more_fields by (auto simp: same_timers_def)

lemma timer_critical:
  assumes i: "timer_idle s Q"
  obtains s1 where "lock_acquire s Timer_lock = Inr (Returned (), s1)" and "same_timers s s1"
    and "same_kernel Timer_lock s s1" and "\<forall>T h. \<exists>s2. lock_release (s1\<lparr>timers := T, theap := h\<rparr>) Timer_lock = Inr s2
      \<and> same_timers (s1\<lparr>timers := T, theap := h\<rparr>) s2 \<and> timer_idle s2 Q \<and> same_kernel Timer_lock s1 s2"
proof -
  let ?l = Timer_lock
  have inv: "sched_inv s Q" and free: "lock_free (locks s ?l)" and w: "Q (Waiters ?l) = Some []"
    using i by (simp_all add: timer_idle_def)
  obtain s1 where s1: "lock_acquire s ?l = Inr (Returned (), s1)" "sched_inv s1 Q" "kstate.more s1 = kstate.more s"
    "holder (locks s1 ?l) = current_task s1" "holder_repeat_nr (locks s1 ?l) = 1" "sema_val s1 ?l = 0"
    "same_kernel ?l s s1"
    by (rule lock_take [OF inv free])
  have "\<exists>s2. lock_release (s1\<lparr>timers := T, theap := h\<rparr>) ?l = Inr s2
      \<and> same_timers (s1\<lparr>timers := T, theap := h\<rparr>) s2 \<and> timer_idle s2 Q \<and> same_kernel Timer_lock s1 s2" for T h
  proof -
    let ?t = "s1\<lparr>timers := T, theap := h\<rparr>"
    have "sched_inv ?t Q" "sema_val ?t ?l = 0" using s1(2,6) by (simp_all add: sema_val_def)
    from lock_drop [OF this(1) w _ _ this(2)] obtain s2 where
      "lock_release ?t ?l = Inr s2" "sched_inv s2 Q" "kstate.more s2 = kstate.more ?t" "lock_free (locks s2 ?l)"
      "same_kernel ?l ?t s2"
      using s1(4,5) by auto
    then show ?thesis using w same_timers_more by (auto simp: timer_idle_def)
  qed
  then have "\<forall>T h. \<exists>s2. lock_release (s1\<lparr>timers := T, theap := h\<rparr>) ?l = Inr s2
      \<and> same_timers (s1\<lparr>timers := T, theap := h\<rparr>) s2 \<and> timer_idle s2 Q \<and> same_kernel Timer_lock s1 s2" by (intro allI)
  then show ?thesis by (rule that [OF s1(1) same_timers_more [OF s1(3)] s1(7)])
qed

section \<open>Running the timers\<close>

text \<open>
  C7. \<open>run_timer\<close> refines the timer service: with callbacks that leave the timers alone, and before
  the 32 bit clock wraps, it returns, and up to the present it has served, millisecond by
  millisecond, the timers that expire: each one that expires at that millisecond, and with a
  granularity of one no other. No timer that is left when it returns was due, and the wheel's
  invariant holds again.
\<close>

theorem run_timer_refines:
  assumes i: "timer_idle s Q" and w: "wheel {} [] s R" and q: "quiet_user uc"
    and p: "periods_fit now s" and now: "unat now + 1 < 2 ^ 32"
  shows "\<exists>s1 r. lock_acquire s Timer_lock = Inr (Returned (), s1) \<and> same_timers s s1
    \<and> serves uc now (forget s1) (with_heap Map.empty r)
    \<and> run_timer uc now s = bnd r (\<lambda>s2. bnd (lock_release s2 Timer_lock) (\<lambda>s2. Inr (Returned (), s2)))
    \<and> (\<forall>s2. r = Inr s2 \<longrightarrow> (\<exists>R'. wheel {} [] s2 R') \<and> now < uJiffies s2
         \<and> (\<forall>n t. timers s2 n = Some t \<longrightarrow> now < uExpires t))"
proof -
  obtain s1 where s1: "lock_acquire s Timer_lock = Inr (Returned (), s1)" "same_timers s s1"
    by (rule timer_critical [OF i])
  have p1: "periods_fit now s1" using p s1(2) by (simp add: periods_fit_def same_timers_def)
  obtain r where r: "run_jiffies uc now s1 = Some r" "serves uc now (forget s1) (with_heap Map.empty r)"
    "\<And>s2. r = Inr s2 \<Longrightarrow> now < uJiffies s2 \<and> periods_fit now s2 \<and> (\<exists>R'. wheel {} [] s2 R')"
    using run_jiffies_wheel [OF q wheel_same [OF w s1(2)] p1 now] by (elim exE conjE) simp
  have "run_timer uc now s = bnd r (\<lambda>s2. bnd (lock_release s2 Timer_lock) (\<lambda>s2. Inr (Returned (), s2)))"
    using wheelD(1,10) [OF w] s1(1) r(1) by (simp add: run_timer_def)
  moreover have "(\<exists>R'. wheel {} [] s2 R') \<and> now < uJiffies s2 \<and> (\<forall>n t. timers s2 n = Some t \<longrightarrow> now < uExpires t)"
    if s2: "r = Inr s2" for s2
  proof -
    obtain R' where R': "wheel {} [] s2 R'" "now < uJiffies s2" using r(3) [OF s2] by auto
    have "now < uExpires t" if "timers s2 n = Some t" for n t
      using R'(2) wheel_future [OF R'(1) that] by (rule less_le_trans)
    then show ?thesis using R' by auto
  qed
  ultimately show ?thesis
    by (intro exI [of _ s1] exI [of _ r] conjI s1 r(2)) simp_all
qed

section \<open>Creating and deleting timers\<close>

lemma wheel_malloc:
  assumes w: "wheel D [] s R" and m: "timers s m = None"
  shows "wheel D [m] (malloc_timer s m t) R"
proof -
  note W = wheelD [OF w]
  have n: "m \<notin> listed R" "Timer m \<notin> dom R" using W(4,8) m slots_levels by auto
  then have "rings ((theap s)(Timer m \<mapsto> self_node (Timer m))) R" using W(3) by (subst rings_local) auto
  moreover have "dom ((timers s)(m \<mapsto> t)) = {m} \<union> listed R" using W(8) by auto
  moreover have "all_wait D (malloc_timer s m t) R"
    using W(9) all_wait_upd [OF n(1), of "malloc_timer s m t" s "Some t" D] by (simp add: malloc_timer_def)
  ultimately show ?thesis using W n by (simp add: wheel_def malloc_timer_def)
qed

lemma create_timer_wheel:
  assumes i: "timer_idle s Q" and w: "wheel {} [] s R" and m: "timers s m = None"
    and due: "unat (uJiffies s) + unat due < 2 ^ 32"
  obtains s' R' where "create_timer s (Some f) p due period (Some m) = Inr (Returned (Some m), s')"
    and "timers s' = (timers s)(m \<mapsto> \<lparr>uExpires = uJiffies s + due, uPeriod = period, timerFn = f, pParam = p\<rparr>)"
    and "uJiffies s' = uJiffies s" and "clock_granularity s' = clock_granularity s"
    and "wheel {} [] s' R'" and "timer_idle s' Q" and "same_kernel Timer_lock s s'"
    and "\<exists>xs. R' (timer_slot (clock_granularity s) (uJiffies s + due) (uJiffies s)) = Some xs \<and> m \<in> set xs"
    and "uExitFlag s' = uExitFlag s"
proof -
  let ?m = "malloc_timer s m \<lparr>uExpires = 0, uPeriod = period, timerFn = f, pParam = p\<rparr>"
  let ?t = "\<lparr>uExpires = uJiffies s + due, uPeriod = period, timerFn = f, pParam = p\<rparr>"
  note W = wheelD [OF w]
  have i0: "timer_idle ?m Q" using i by (simp add: timer_idle_def malloc_timer_def)
  obtain s1 where s1: "lock_acquire ?m Timer_lock = Inr (Returned (), s1)" "same_timers ?m s1"
    "same_kernel Timer_lock ?m s1" "\<forall>T h. \<exists>s2. lock_release (s1\<lparr>timers := T, theap := h\<rparr>) Timer_lock = Inr s2
      \<and> same_timers (s1\<lparr>timers := T, theap := h\<rparr>) s2 \<and> timer_idle s2 Q \<and> same_kernel Timer_lock s1 s2"
    by (rule timer_critical [OF i0])
  let ?s = "s1\<lparr>timers := (timers s1)(m \<mapsto> ?t)\<rparr>"
  have f: "uJiffies s1 = uJiffies s" "clock_granularity s1 = clock_granularity s" "timer_manager s1 = Mgr_live"
    "uExitFlag s1 = uExitFlag s" "timers s1 = (timers s)(m \<mapsto> \<lparr>uExpires = 0, uPeriod = period, timerFn = f, pParam = p\<rparr>)"
    using s1(2) W(1) by (simp_all add: same_timers_def malloc_timer_def)
  have w1: "wheel {} [m] ?s R" by (rule wheel_rearm [OF wheel_same [OF wheel_malloc [OF w m] s1(2)]])
  have le: "uJiffies ?s \<le> uExpires ?t" using due f(1) by (simp add: word_le_nat_alt unat_word_ariths)
  have tm: "timers ?s m = Some ?t" by simp
  obtain h R' where h: "add_timer ?s m = Inr (?s\<lparr>theap := h\<rparr>)" "wheel {} [] (?s\<lparr>theap := h\<rparr>) R'"
    "\<exists>xs. R' (timer_slot (clock_granularity ?s) (uExpires ?t) (uJiffies ?s)) = Some xs \<and> m \<in> set xs"
    by (rule add_timer_wheel [OF w1 tm le]) simp
  obtain s2 where s2: "lock_release (?s\<lparr>theap := h\<rparr>) Timer_lock = Inr s2" "same_timers (?s\<lparr>theap := h\<rparr>) s2" "timer_idle s2 Q" "same_kernel Timer_lock s1 s2"
    using s1(4) [THEN spec, THEN spec, of h "(timers s1)(m \<mapsto> ?t)"] by auto
  have "mgr s = Inr ()" "mgr s1 = Inr ()" "mgr ?m = Inr ()" using W(10) f(3) W(1) by (simp_all add: mgr_def malloc_timer_def)
  then have "create_timer s (Some f) p due period (Some m) = Inr (Returned (Some m), s2)"
    using s1(1) h(1) s2(1) W(1) f by (simp add: create_timer_def Let_def get_timer_def)
  then show ?thesis
    by (rule that) (use s2 h f wheel_same [OF h(2) s2(2)] same_kernel_trans [OF s1(3) s2(4)] in
      \<open>simp_all add: same_timers_def malloc_timer_def\<close>)
qed

lemma delete_timer_wheel:
  assumes i: "timer_idle s Q" and w: "wheel {} [] s R" and n: "timers s n = Some t"
  obtains s' R' where "delete_timer s (Some n) = Inr (Returned 0, s')"
    and "timers s' = (timers s)(n := None)" and "uJiffies s' = uJiffies s"
    and "clock_granularity s' = clock_granularity s" and "wheel {} [] s' R'" and "timer_idle s' Q"
    and "same_kernel Timer_lock s s'"
proof -
  obtain s1 where s1: "lock_acquire s Timer_lock = Inr (Returned (), s1)" "same_timers s s1"
    "same_kernel Timer_lock s s1" "\<forall>T h. \<exists>s2. lock_release (s1\<lparr>timers := T, theap := h\<rparr>) Timer_lock = Inr s2
      \<and> same_timers (s1\<lparr>timers := T, theap := h\<rparr>) s2 \<and> timer_idle s2 Q \<and> same_kernel Timer_lock s1 s2"
    by (rule timer_critical [OF i])
  have w1: "wheel {} [] s1 R" by (rule wheel_same [OF w s1(2)])
  note W = wheelD [OF w1]
  have f: "timers s1 = timers s" "uJiffies s1 = uJiffies s" "clock_granularity s1 = clock_granularity s"
    using s1(2) by (simp_all add: same_timers_def)
  have "n \<in> listed R" using W(8) n f(1) by auto
  then obtain a xs where a: "R a = Some xs" "n \<in> set xs" unfolding listed_def by blast
  obtain h where h: "list_timer_unlink (theap s1) (Timer n) = Inr h" "rings h (R(a \<mapsto> removeAll n xs))" "dom h = dom (theap s1)"
    by (rule rings_unlink [OF W(3) a])
  let ?R = "R(a \<mapsto> removeAll n xs)" and ?s = "s1\<lparr>theap := h\<rparr>"
  have l: "listed ?R = listed R - {n}"
    using listed_split [of R a xs] rings_disjoint [OF W(3) a(1)] a by (auto simp: listed_upd)
  have "all_wait {} ?s ?R"
    using W(9) a(1) unfolding all_wait_def by (auto split: if_split_asm)
  moreover have "dom ?R = slots" using W(4) a(1) by auto
  moreover have "Timer n \<in> dom h" using rings_dom [OF W(3)] h(3) \<open>n \<in> listed R\<close> by auto
  ultimately have "wheel {} [n] ?s ?R" using W h(2) l \<open>n \<in> listed R\<close> by (auto simp: wheel_def)
  then have w2: "wheel {} [] (free_timer ?s n) ?R" by (rule wheel_free)
  have fr: "free_timer ?s n = s1\<lparr>timers := (timers s)(n := None), theap := h(Timer n := None)\<rparr>"
    using f by (simp add: free_timer_def)
  obtain s2 where s2: "lock_release (free_timer ?s n) Timer_lock = Inr s2" "same_timers (free_timer ?s n) s2" "timer_idle s2 Q" "same_kernel Timer_lock s1 s2"
    using s1(4) [THEN spec, THEN spec, of "h(Timer n := None)" "(timers s)(n := None)"] f(1) unfolding fr by auto
  have "delete_timer s (Some n) = Inr (Returned 0, s2)"
    using wheelD(1,10) [OF w] W(10) s1(1) h(1) s2(1) by (simp add: delete_timer_def mgr_def)
  then show ?thesis
    by (rule that) (use s2 f wheel_same [OF w2 s2(2)] same_kernel_trans [OF s1(3) s2(4)] in
      \<open>simp_all add: same_timers_def free_timer_def\<close>)
qed

text \<open>
  C17. A timer created while the lock is free and deleted again leaves the pending timers as they
  were: in between it is pending with its expiry time, period, callback and parameter, and the
  wheel's invariant holds all along.
\<close>

theorem timer_create_delete:
  assumes i: "timer_idle s Q" and w: "wheel {} [] s R" and m: "timers s m = None"
    and due: "unat (uJiffies s) + unat due < 2 ^ 32"
  shows "\<exists>s1 s2 R1 R2. create_timer s (Some f) p due period (Some m) = Inr (Returned (Some m), s1)
    \<and> timers s1 = (timers s)(m \<mapsto> \<lparr>uExpires = uJiffies s + due, uPeriod = period, timerFn = f, pParam = p\<rparr>)
    \<and> wheel {} [] s1 R1 \<and> delete_timer s1 (Some m) = Inr (Returned 0, s2)
    \<and> timers s2 = timers s \<and> uJiffies s2 = uJiffies s \<and> wheel {} [] s2 R2
    \<and> timer_idle s2 Q \<and> same_kernel Timer_lock s s2"
proof -
  obtain s1 R1 where c: "create_timer s (Some f) p due period (Some m) = Inr (Returned (Some m), s1)"
    "timers s1 = (timers s)(m \<mapsto> \<lparr>uExpires = uJiffies s + due, uPeriod = period, timerFn = f, pParam = p\<rparr>)"
    "uJiffies s1 = uJiffies s" "wheel {} [] s1 R1" "timer_idle s1 Q" "same_kernel Timer_lock s s1"
    by (rule create_timer_wheel [OF i w m due])
  have t: "timers s1 m = Some \<lparr>uExpires = uJiffies s + due, uPeriod = period, timerFn = f, pParam = p\<rparr>" using c(2) by simp
  obtain s2 R2 where d: "delete_timer s1 (Some m) = Inr (Returned 0, s2)" "timers s2 = (timers s1)(m := None)"
    "uJiffies s2 = uJiffies s1" "wheel {} [] s2 R2" "timer_idle s2 Q" "same_kernel Timer_lock s1 s2"
    by (rule delete_timer_wheel [OF c(5,4) t])
  have "timers s2 = timers s" using c(2) d(2) m by (simp add: fun_upd_idem)
  then show ?thesis using c d same_kernel_trans [OF c(6) d(6)] 
    by (intro exI [of _ s1] exI [of _ s2] exI [of _ R1] exI [of _ R2] conjI) simp_all
qed

section \<open>What a granularity of ten does\<close>

lemma serve_timers:
  assumes q: "quiet_user uc" and s': "serve uc s n = Inr s'"
  shows "m \<noteq> n \<Longrightarrow> timers s' m = timers s m" and "timers s n = Some t \<Longrightarrow> uPeriod t = 0 \<Longrightarrow> timers s' n = None"
    and "timers s n \<noteq> None"
  using s' quietD(2) [OF call_quiet [OF q]]
  by (auto simp: serve_def bnd_eq_Inr split: option.split_asm)

lemma serve_all_timers:
  assumes q: "quiet_user uc"
  shows "serve_all uc s ns = Inr s' \<Longrightarrow> n \<notin> set ns \<Longrightarrow> timers s' n = timers s n"
    and "serve_all uc s ns = Inr s' \<Longrightarrow> n \<in> set ns \<Longrightarrow> distinct ns \<Longrightarrow> timers s n = Some t \<Longrightarrow> uPeriod t = 0
      \<Longrightarrow> timers s' n = None"
proof -
  show *: "serve_all uc s ns = Inr s' \<Longrightarrow> n \<notin> set ns \<Longrightarrow> timers s' n = timers s n" for s s' ns
    using serve_timers(1) [OF q] by (induction ns arbitrary: s) (auto elim!: bnd_InrE)
  show "serve_all uc s ns = Inr s' \<Longrightarrow> n \<in> set ns \<Longrightarrow> distinct ns \<Longrightarrow> timers s n = Some t \<Longrightarrow> uPeriod t = 0
      \<Longrightarrow> timers s' n = None"
  proof (induction ns arbitrary: s)
    case (Cons m ns)
    obtain s1 where s1: "serve uc s m = Inr s1" "serve_all uc s1 ns = Inr s'" using Cons.prems(1) by (auto elim!: bnd_InrE)
    show ?case
    proof (cases "m = n")
      case True
      then show ?thesis using serve_timers(2) [OF q s1(1)] Cons.prems * [OF s1(2)] by auto
    next
      case False
      then show ?thesis using serve_timers(1) [OF q s1(1), of n] Cons.prems Cons.IH [OF s1(2)] by auto
    qed
  qed simp
qed

text \<open>The one-shot timer \<open>n\<close> is gone already, or on the element of level 1 whose turn comes at \<open>j\<close>.\<close>

definition leaves_by :: "32 word \<Rightarrow> nat \<Rightarrow> 'a tstate_scheme \<Rightarrow> (tptr \<rightharpoonup> nat list) \<Rightarrow> bool" where
  "leaves_by j n s R \<longleftrightarrow> timers s n = None \<or> (\<exists>t xs. timers s n = Some t \<and> uPeriod t = 0 \<and> n \<in> set xs
     \<and> R (Slot 1 (unat j mod 256)) = Some xs \<and> uJiffies s \<le> j)"

lemma run_jiffy_leaves:
  assumes q: "quiet_user uc" and w: "wheel {} [] s R" and p: "periods_fit b s" "uJiffies s \<le> b"
    and j: "unat (uJiffies s) + 1 < 2 ^ 32" and l: "leaves_by j n s R" and r: "run_jiffy uc s = Inr s1"
  obtains R' where "wheel {} [] s1 R'" and "periods_fit b s1" and "uJiffies s1 = uJiffies s + 1" and "leaves_by j n s1 R'"
proof -
  obtain ns where ns: "expiring (forget s) ns"
    "\<And>xs. R (Slot 1 (unat (uJiffies s) mod 256)) = Some xs \<Longrightarrow> set xs \<subseteq> set ns"
    "with_heap Map.empty (run_jiffy uc s) = bnd (serve_all uc (forget s) ns) (\<lambda>s. Inr (s\<lparr>uJiffies := uJiffies s + 1\<rparr>))"
    "\<And>s'. run_jiffy uc s = Inr s' \<Longrightarrow> uJiffies s' = uJiffies s + 1 \<and> periods_fit b s'
       \<and> (\<exists>R'. wheel {} [] s' R' \<and> grows (R(Slot 1 (unat (uJiffies s) mod 256) := None)) R')"
    using run_jiffy_wheel [OF q w p j] by blast
  obtain R' where R': "uJiffies s1 = uJiffies s + 1" "periods_fit b s1" "wheel {} [] s1 R'"
    "grows (R(Slot 1 (unat (uJiffies s) mod 256) := None)) R'"
    using ns(4) [OF r] by blast
  obtain s2 where s2: "serve_all uc (forget s) ns = Inr s2" "timers s1 = timers s2"
    using ns(3) r by (cases "serve_all uc (forget s) ns") (auto dest: arg_cong [where f = timers])
  have "leaves_by j n s1 R'"
  proof (cases "n \<in> set ns")
    case True
    then obtain t where "timers s n = Some t" "uPeriod t = 0" using ns(1) l by (auto simp: expiring_def leaves_by_def)
    then have "timers s2 n = None" using serve_all_timers(2) [OF q s2(1) True] ns(1) by (simp add: expiring_def)
    then show ?thesis using s2(2) by (simp add: leaves_by_def)
  next
    case out: False
    have same: "timers s1 n = timers s n" using serve_all_timers(1) [OF q s2(1) out] s2(2) by simp
    show ?thesis
    proof (cases "timers s n = None")
      case False
      then obtain t xs where t: "timers s n = Some t" "uPeriod t = 0" "n \<in> set xs"
        "R (Slot 1 (unat j mod 256)) = Some xs" "uJiffies s \<le> j" using l by (auto simp: leaves_by_def)
      have ne: "unat j mod 256 \<noteq> unat (uJiffies s) mod 256" using ns(2) [of xs] t(3,4) out by auto
      have "unat (uJiffies s + 1) = unat (uJiffies s) + 1" using j by (simp add: unat_word_ariths)
      then have "uJiffies s1 \<le> j" using t(5) ne unfolding R'(1) word_le_nat_alt by (auto simp: le_less)
      moreover have "\<exists>ys. R' (Slot 1 (unat j mod 256)) = Some ys \<and> n \<in> set ys"
        using R'(4) [unfolded grows_def, rule_format, of "unat j mod 256" xs n] t(3,4) ne by simp
      ultimately show ?thesis using t same by (auto simp: leaves_by_def)
    qed (simp add: same leaves_by_def)
  qed
  then show ?thesis using that R' by blast
qed

lemma run_jiffies_gone:
  assumes q: "quiet_user uc"
  shows "wheel {} [] s R \<Longrightarrow> periods_fit now s \<Longrightarrow> unat now + 1 < 2 ^ 32 \<Longrightarrow> leaves_by j n s R \<Longrightarrow> j \<le> now
    \<Longrightarrow> run_jiffies uc now s = Some (Inr s') \<Longrightarrow> timers s' n = None"
proof (induction "unat now + 1 - unat (uJiffies s)" arbitrary: s R rule: less_induct)
  case less
  note W = wheelD [OF less.prems(1)]
  show ?case
  proof (cases "uJiffies s \<le> now")
    case False
    then have "s' = s" using less.prems(6) W(10) by (subst (asm) run_jiffies.simps) (simp add: TIME_AFTER_EQ_le)
    then show ?thesis using less.prems(4,5) False by (auto simp: leaves_by_def)
  next
    case True
    then have le: "unat (uJiffies s) \<le> unat now" by (simp add: word_le_nat_alt)
    then have j: "unat (uJiffies s) + 1 < 2 ^ 32" using less.prems(3) by linarith
    have u: "unat (uJiffies s + 1) = unat (uJiffies s) + 1" using j by (simp add: unat_word_ariths)
    obtain s1 where s1: "run_jiffy uc s = Inr s1" "run_jiffies uc now s1 = Some (Inr s')"
      using less.prems(6) W(10) True by (subst (asm) run_jiffies.simps) (auto simp: TIME_AFTER_EQ_le split: sum.split_asm)
    obtain R' where R': "wheel {} [] s1 R'" "periods_fit now s1" "uJiffies s1 = uJiffies s + 1" "leaves_by j n s1 R'"
      by (rule run_jiffy_leaves [OF q less.prems(1,2) True j less.prems(4) s1(1)])
    have smaller: "unat now + 1 - unat (uJiffies s1) < unat now + 1 - unat (uJiffies s)"
      using le u unfolding R'(3) by linarith
    show ?thesis using less.hyps [OF smaller R'(1,2) less.prems(3) R'(4) less.prems(5) s1(2)] .
  qed
qed

lemma lock_release_more:
  assumes "lock_release k l = Inr k'"
  shows "kstate.more k' = kstate.more k"
proof -
  have un: "kstate.more k' = kstate.more k" if "task_unblock k p = Inr k'" for k k' :: "'a kstate_scheme" and p
    using that by (auto simp: task_unblock_def Let_def k_push_def upd_task_def elim!: bnd_InrE split: if_split_asm)
  have pop: "kstate.more k' = kstate.more k" if "k_pop k L = Inr (p, k')" for k k' :: "'a kstate_scheme" and L p
    using that by (auto simp: k_pop_def elim!: bnd_InrE)
  have wake: "kstate.more k' = kstate.more k" if "sema_up_wake k l = Inr k'" for k k' :: "'a kstate_scheme"
    using that by (auto simp: sema_up_wake_def Let_def elim!: bnd_InrE split: if_split_asm dest!: un pop)
  have post: "kstate.more k' = kstate.more k" if "sema_up_post k l = Inr k'" for k k' :: "'a kstate_scheme"
    using that by (auto simp: sema_up_post_def Let_def elim!: bnd_InrE)
  show ?thesis
    using assms
    by (auto simp: lock_release_def sema_up_def Let_def elim!: bnd_InrE split: if_split_asm dest!: wake post)
qed

text \<open>
  With a granularity of ten a timer due in 256 up to 2559 milliseconds is put in the element of its due
  time modulo 256 on the first level.
\<close>

lemma early_slot:
  assumes due: "256 \<le> due" "due < 2560" "unat j + unat due < 2 ^ 32"
  shows "timer_slot 10 (j + due) j = Slot 1 (unat (j + due mod 256) mod 256)"
    and "unat (j + due mod 256) = unat j + unat due mod 256" and "j + due mod 256 < j + due"
proof -
  have d: "unat (due mod 256) = unat due mod 256" "256 \<le> unat due" "unat due < 2560"
    using due by (simp_all add: unat_mod_distrib word_le_nat_alt word_less_nat_alt)
  show now: "unat (j + due mod 256) = unat j + unat due mod 256"
    using due(3) d mod_less_eq_dividend [of "unat due" 256] by (simp add: unat_word_ariths)
  have e: "unat (j + due) = unat j + unat due" using due(3) by (simp add: unat_word_ariths)
  show "timer_slot 10 (j + due) j = Slot 1 (unat (j + due mod 256) mod 256)"
    using e now d(3) by (subst timer_slot_cases) (simp_all add: word_le_nat_alt mod_simps)
  have "unat due mod 256 < 256" by simp
  then have "unat due mod 256 < unat due" using d(2) by linarith
  then show "j + due mod 256 < j + due" by (simp add: word_less_nat_alt now e)
qed

lemma run_timer_gone:
  assumes i: "timer_idle s Q" and w: "wheel {} [] s R" and q: "quiet_user uc" and l: "leaves_by now m s R"
    and p: "periods_fit now s" and nb: "unat now + 1 < 2 ^ 32" and run: "run_timer uc now s = Inr (Returned (), s2)"
  shows "timers s2 m = None"
proof -
  obtain s3 where s3: "lock_acquire s Timer_lock = Inr (Returned (), s3)" "same_timers s s3"
    "same_kernel Timer_lock s s3"
    by (rule timer_critical [OF i])
  have f3: "leaves_by now m s3 R" "periods_fit now s3" "wheel {} [] s3 R"
    using l p s3(2) wheel_same [OF w s3(2)] by (auto simp: leaves_by_def same_timers_def periods_fit_def)
  obtain s4 where s4: "run_jiffies uc now s3 = Some (Inr s4)" "lock_release s4 Timer_lock = Inr s2"
    using run s3(1) wheelD(1) [OF w] by (auto simp: run_timer_def returns_def elim!: bnd_InrE split: option.split_asm)
  have "timers s4 m = None" by (rule run_jiffies_gone [OF q f3(3,2) nb f3(1) order.refl s4(1)])
  then show ?thesis using more_fields [OF lock_release_more [OF s4(2)]] by simp
qed

end
