(* ===== verification/Startup.thy ===== *)
theory Startup
  imports TimerApi UtsInterrupts TaskProps
begin

text \<open>
  The start-up of the library, \<open>init\<close> of task/init.c: console, scheduler and timers are
  initialised one after the other, and all their invariants hold at its end.
\<close>

lemma lock_init_inv:
  assumes inv: "sched_inv k Q" and new: "Q (Waiters l) = None"
  shows "sched_inv (lock_init k l) (Q(Waiters l \<mapsto> []))"
proof -
  have ok: "lists_ok k Q" using inv by (simp add: sched_inv_def)
  have f: "tasks (lock_init k l) = tasks k" "current_task (lock_init k l) = current_task k"
    "nodes (lock_init k l) = list_init (nodes k) (clist_of (Waiters l))"
    by (simp_all add: lock_init_result)
  have "lists_ok (lock_init k l) (Q(Waiters l \<mapsto> []))"
  proof (rule lists_okI)
    show "queues (nodes (lock_init k l)) (Q(Waiters l \<mapsto> []))"
      unfolding f(3) by (rule queues_list_init [OF lists_ok_queues [OF ok]])
    show "\<exists>ts. tasks (lock_init k l) s = Some ts \<and> list_status L (status ts)"
      if "(Q(Waiters l \<mapsto> [])) L = Some xs" "s \<in> set xs" for L xs s
      using that lists_ok_memberD [OF ok, of L xs s] by (auto simp: f split: if_split_asm)
    show "s \<in> set (the ((Q(Waiters l \<mapsto> [])) All_list))"
      if "(Q(Waiters l \<mapsto> [])) L = Some xs" "tag_of L = General_tag" "s \<in> set xs" for L xs s
      using that lists_ok_known [OF ok, of L xs s] by (auto split: if_split_asm)
    show "Tag g s \<in> dom (nodes (lock_init k l))" if "tasks (lock_init k l) s = Some ts" for s ts g
      using that lists_ok_tag [OF ok, of s ts g] by (auto simp: f list_init_dom)
  qed (use ok in \<open>auto simp: lists_ok_def\<close>)
  moreover have "runs (lock_init k l) (Q(Waiters l \<mapsto> [])) c" if "runs k Q c" for c
    using that by (auto simp: runs_def f unqueued_def)
  ultimately show ?thesis using inv unfolding sched_inv_def by blast
qed

text \<open>What initialising the timer lock leaves as it was.\<close>

definition rest_kernel :: "'a kstate_scheme \<Rightarrow> 'a kstate_scheme \<Rightarrow> bool" where
  "rest_kernel k k' \<longleftrightarrow> tasks k' = tasks k \<and> current_task k' = current_task k \<and> main_task k' = main_task k
     \<and> task_all_nums k' = task_all_nums k \<and> tid_bitmap k' = tid_bitmap k \<and> tid_start k' = tid_start k
     \<and> (\<forall>m. m \<noteq> Timer_lock \<longrightarrow> locks k' m = locks k m)"

section \<open>The empty wheel\<close>

lemma init_array_list_timer_at:
  "init_array_list_timer h arr n p = (if p \<in> arr ` {..<n} then Some (self_node p) else h p)"
  by (induction n) (auto simp: lessThan_Suc)

lemma init_wheel_slot:
  assumes "a \<in> slots"
  shows "init_wheel h a = Some (self_node a)"
proof -
  obtain lv i where a: "a = Slot lv i" and "lv = 1 \<and> i < 256 \<or> lv \<in> {2..5} \<and> i < 64"
    using assms by (auto simp: slots_def)
  then have "lv = 1 \<and> i < 256 \<or> (lv = 2 \<or> lv = 3 \<or> lv = 4 \<or> lv = 5) \<and> i < 64" by auto
  then show ?thesis
    by (elim disjE conjE) (simp_all add: a init_wheel_def Let_def init_array_list_timer_at wheel_consts image_iff)
qed

definition empty_rings :: "tptr \<rightharpoonup> nat list" where
  "empty_rings a = (if a \<in> slots then Some [] else None)"

lemma wheel_init:
  assumes "timer_manager s = Mgr_live" and "0 < clock_granularity s" and "timers s = Map.empty"
    and "theap s = init_wheel h"
  shows "wheel {} [] s empty_rings"
proof -
  have "rings (theap s) empty_rings"
    using slots_levels(2) assms(4) by (fastforce simp: rings_def empty_rings_def init_wheel_slot intro: ring_empty split: if_split_asm)
  moreover have "listed empty_rings = {}" by (auto simp: listed_def empty_rings_def split: if_split_asm)
  moreover have "dom empty_rings = slots" by (auto simp: empty_rings_def split: if_split_asm)
  moreover have "all_wait {} s empty_rings" using assms(3) by (simp add: all_wait_def)
  ultimately show ?thesis using assms by (simp add: wheel_def)
qed

lemma timer_init_result:
  assumes inv: "sched_inv s Q" and Q: "Q (Waiters Timer_lock) = None" and t: "timers s = Map.empty"
    and g: "0 < clock_granularity s" and now: "unat now + 150000 < 2 ^ 32"
  obtains s' R where "timer_init s True now (Some m) = Inr (Returned (), s')" and "wheel {} [] s' R"
    and "timer_idle s' (Q(Waiters Timer_lock \<mapsto> []))" and "uJiffies s' = now"
    and "timers s' = [m \<mapsto> \<lparr>uExpires = now + 150000, uPeriod = 150000, timerFn = Fn_clean_dead_task, pParam = Manager_param\<rparr>]"
    and "clock_granularity s' = clock_granularity s" and "rest_kernel s s'" and "uExitFlag s' = 0"
proof -
  define s1 where "s1 = (lock_init (s\<lparr>timer_manager := Mgr_live, uExitFlag := 0\<rparr>) Timer_lock)
      \<lparr>uJiffies := now, theap := init_wheel (theap s)\<rparr>"
  have f: "timer_manager s1 = Mgr_live" "clock_granularity s1 = clock_granularity s" "timers s1 = Map.empty"
    "theap s1 = init_wheel (theap s)" "uJiffies s1 = now" "locks s1 Timer_lock = fresh_lock"
    using t by (simp_all add: s1_def lock_init_result)
  have "sched_inv (s\<lparr>timer_manager := Mgr_live, uExitFlag := 0\<rparr>) Q" using inv by simp
  from lock_init_inv [OF this Q] have "sched_inv s1 (Q(Waiters Timer_lock \<mapsto> []))" by (simp add: s1_def)
  then have i: "timer_idle s1 (Q(Waiters Timer_lock \<mapsto> []))" using f(6) fresh_lock_free by (simp add: timer_idle_def)
  have w: "wheel {} [] s1 empty_rings" by (rule wheel_init [OF f(1) _ f(3,4)]) (simp add: f(2) g)
  have m: "timers s1 m = None" and due: "unat (uJiffies s1) + unat (150000 :: 32 word) < 2 ^ 32" using f(3,5) now by simp_all
  obtain s2 R where s2: "create_timer s1 (Some Fn_clean_dead_task) Manager_param 150000 150000 (Some m) = Inr (Returned (Some m), s2)"
    "timers s2 = (timers s1)(m \<mapsto> \<lparr>uExpires = uJiffies s1 + 150000, uPeriod = 150000, timerFn = Fn_clean_dead_task, pParam = Manager_param\<rparr>)"
    "uJiffies s2 = uJiffies s1" "clock_granularity s2 = clock_granularity s1" "wheel {} [] s2 R"
    "timer_idle s2 (Q(Waiters Timer_lock \<mapsto> []))"
    "same_kernel Timer_lock s1 s2" "uExitFlag s2 = uExitFlag s1"
    by (rule create_timer_wheel [OF i w m due])
  have "timer_init s True now (Some m) = Inr (Returned (), s2)"
    using s2(1) by (simp add: timer_init_def Let_def s1_def)
  moreover have "rest_kernel s s2"
    using s2(7) by (simp add: rest_kernel_def same_kernel_def s1_def lock_init_result)
  moreover have "uExitFlag s1 = 0" by (simp add: s1_def lock_init_result)
  ultimately show ?thesis using s2 f by (intro that [of s2 R]) simp_all
qed

section \<open>The whole start-up\<close>

definition boot_queues :: "task \<Rightarrow> queue_view" where
  "boot_queues t = [Ready_list \<mapsto> [], All_list \<mapsto> [t], Pool_list \<mapsto> [], Waiters Console_lock \<mapsto> [],
     Waiters Tid_lock \<mapsto> [], Waiters Timer_lock \<mapsto> []]"

definition clean_timer :: "32 word \<Rightarrow> timer_node" where
  "clean_timer now = \<lparr>uExpires = now + 150000, uPeriod = 150000, timerFn = Fn_clean_dead_task, pParam = Manager_param\<rparr>"

lemma init_result:
  assumes fresh: "tasks s = Map.empty" "timers s = Map.empty" "0 < clock_granularity s"
    and e: "env_main e = Some t" "env_mgr e" "env_timer e = Some m" "unat (env_now e) + 150000 < 2 ^ 32"
  obtains s' tt' R where "init e s tt = Inr (Returned (), s', tt')" and "timer_idle s' (boot_queues t)"
    and "tid_pool_ok s' (boot_queues t)" and "lock_free (locks s' Console_lock)" and "current_task s' = Some t"
    and "main_task s' = Some t" and "live_tids s' = {1}" and "tasks s' = [t \<mapsto> main_struct (env_stack e)]"
    and "wheel {} [] s' R" and "timers s' = [m \<mapsto> clean_timer (env_now e)]" and "uJiffies s' = env_now e"
    and "clock_granularity s' = clock_granularity s" and "task_all_nums s' = 1"
    and "used (tid_bitmap s') = {0}" and "bits_cap (tid_bitmap s') = 1000800" and "uExitFlag s' = 0"
proof -
  obtain s1 tt1 where s1: "console_init s tt = (s1, tt1)" by (cases "console_init s tt")
  then have "s1 = lock_init s Console_lock" by (simp add: console_init_def)
  then have f1: "tasks s1 = Map.empty" "nodes s1 = list_init (nodes s) (clist_of (Waiters Console_lock))"
    "locks s1 Console_lock = fresh_lock" "kstate.more s1 = kstate.more s"
    using fresh(1) by (simp_all add: lock_init_result)
  have q1: "queues (nodes s1) [Waiters Console_lock \<mapsto> []]"
    unfolding f1(2) by (rule queues_list_init) (simp add: queues_def)
  let ?Q = "[Waiters Console_lock \<mapsto> [], Ready_list \<mapsto> [], All_list \<mapsto> [t], Pool_list \<mapsto> [], Waiters Tid_lock \<mapsto> []]"
  obtain s2 where s2: "task_init s1 (Some t) (env_stack e) = Inr (Returned (), s2)" "sched_inv s2 ?Q" "tid_pool_ok s2 ?Q"
    "current_task s2 = Some t" "main_task s2 = Some t" "live_tids s2 = {1}" "tasks s2 = [t \<mapsto> main_struct (env_stack e)]"
    "task_all_nums s2 = 1" "kstate.more s2 = kstate.more s1" "\<forall>l. l \<noteq> Tid_lock \<longrightarrow> locks s2 l = locks s1 l"
    "used (tid_bitmap s2) = {0}" "bits_cap (tid_bitmap s2) = 1000800"
    by (rule task_init_result [OF f1(1) q1, of t "env_stack e"]) (auto split: if_split_asm)
  have f2: "timers s2 = Map.empty" "0 < clock_granularity s2" "clock_granularity s2 = clock_granularity s"
    using more_fields [of s2 s] s2(9) f1(4) fresh(2,3) by auto
  have Q: "?Q(Waiters Timer_lock \<mapsto> []) = boot_queues t" "?Q (Waiters Timer_lock) = None"
    by (auto simp: boot_queues_def)
  obtain s3 R where s3: "timer_init s2 True (env_now e) (Some m) = Inr (Returned (), s3)" "wheel {} [] s3 R"
    "timer_idle s3 (?Q(Waiters Timer_lock \<mapsto> []))" "uJiffies s3 = env_now e"
    "timers s3 = [m \<mapsto> \<lparr>uExpires = env_now e + 150000, uPeriod = 150000, timerFn = Fn_clean_dead_task, pParam = Manager_param\<rparr>]"
    "clock_granularity s3 = clock_granularity s2" "rest_kernel s2 s3" "uExitFlag s3 = 0"
    by (rule timer_init_result [OF s2(2) Q(2) f2(1,2) e(4)])
  have "init e s tt = Inr (Returned (), s3, tt1)"
    using s1 s2(1) s3(1) e(1-3) by (simp add: init_def)
  moreover have "tid_pool_ok s3 (boot_queues t)"
    using s2(3) s3(7) Q(1) by (auto simp: tid_pool_ok_def rest_kernel_def boot_queues_def)
  ultimately show ?thesis
    using s2 s3 Q(1) f1(3) f2(3) fresh_lock_free
    by (intro that [of s3 tt1 R]) (simp_all add: rest_kernel_def clean_timer_def live_tids_def)
qed

text \<open>
  C9. Start-up: on a fresh process \<open>init\<close> returns with the caller as the running main task, number 1, alone
  on the list of all tasks, the ready queue and the pool empty, every lock free and the scheduler's
  invariant established, the number pool usable, and a timing wheel in order that holds one timer,
  the cleaning of the pool every 150 seconds.
\<close>

theorem init_establishes:
  assumes "tasks s = Map.empty" "timers s = Map.empty" "0 < clock_granularity s"
    and "env_main e = Some t" "env_mgr e" "env_timer e = Some m" "unat (env_now e) + 150000 < 2 ^ 32"
  shows "\<exists>s' tt' R. init e s tt = Inr (Returned (), s', tt') \<and> sched_inv s' (boot_queues t)
    \<and> tid_pool_ok s' (boot_queues t) \<and> current_task s' = Some t \<and> main_task s' = Some t
    \<and> live_tids s' = {1} \<and> tid (the (tasks s' t)) = 1 \<and> task_all_nums s' = 1
    \<and> (\<forall>l\<in>{Console_lock, Tid_lock, Timer_lock}. lock_free (locks s' l))
    \<and> wheel {} [] s' R \<and> timers s' = [m \<mapsto> clean_timer (env_now e)]"
proof -
  obtain s' tt' R where s': "init e s tt = Inr (Returned (), s', tt')" "timer_idle s' (boot_queues t)"
    "tid_pool_ok s' (boot_queues t)" "lock_free (locks s' Console_lock)" "current_task s' = Some t"
    "main_task s' = Some t" "live_tids s' = {1}" "tasks s' = [t \<mapsto> main_struct (env_stack e)]"
    "wheel {} [] s' R" "timers s' = [m \<mapsto> clean_timer (env_now e)]" "task_all_nums s' = 1"
    by (rule init_result [OF assms])
  then show ?thesis
    by (intro exI [of _ s'] exI [of _ tt'] exI [of _ R]) (simp add: timer_idle_def tid_pool_ok_def main_struct_def)
qed

definition fresh_process :: tstate where
  "fresh_process = \<lparr>nodes = Map.empty, tasks = Map.empty, main_task = None, current_task = None, task_all_nums = 0,
     tid_bitmap = \<lparr>btmp_bytes_len = 0, bits = []\<rparr>, tid_start = 0, locks = (\<lambda>_. fresh_lock), sigmask = {}, regs = demo_regs,
     timer_manager = Mgr_null, uExitFlag = 0, uJiffies = 0, theap = Map.empty, timers = Map.empty, clock_granularity = 10\<rparr>"

definition demo_env :: start_env where
  "demo_env = \<lparr>env_main = Some 0, env_stack = 4096, env_mgr = True, env_now = 5000, env_timer = Some 7\<rparr>"

definition empty_tty :: tty where
  "empty_tty = \<lparr>tty_out = [], stdio_buf = [], tty_nonblock = {}\<rparr>"

theorem init_establishes_witness:
  "\<exists>s' tt'. init demo_env fresh_process empty_tty = Inr (Returned (), s', tt')
    \<and> current_task s' = Some 0 \<and> live_tids s' = {1}"
  using init_establishes [of fresh_process demo_env 0 7 empty_tty] by (auto simp: fresh_process_def demo_env_def)

section \<open>Timers at work on the state after start-up\<close>

text \<open>User callbacks that do nothing.\<close>

definition idle_code :: "unit user_code" where
  "idle_code = (\<lambda>i p s. Inr s)"

lemma idle_code_quiet: "quiet_user idle_code"
  by (simp add: quiet_user_def idle_code_def quiet_ret)

lemma booted:
  obtains s :: tstate and R where "timer_idle s (boot_queues 0)" and "wheel {} [] s R" and "uJiffies s = 5000"
    and "timers s = [7 \<mapsto> clean_timer 5000]" and "clock_granularity s = 10"
    and "init demo_env fresh_process empty_tty = Inr (Returned (), s, snd (console_init s empty_tty))"
proof -
  obtain s tt' R where s: "init demo_env fresh_process empty_tty = Inr (Returned (), s, tt')" "timer_idle s (boot_queues 0)"
    "wheel {} [] s R" "timers s = [7 \<mapsto> clean_timer (env_now demo_env)]" "uJiffies s = env_now demo_env"
    "clock_granularity s = clock_granularity fresh_process"
    by (rule init_result [of fresh_process demo_env 0 7 empty_tty]) (simp_all add: fresh_process_def demo_env_def)
  have "tt' = snd (console_init s empty_tty)"
    using s(1) by (auto simp: init_def console_init_def Let_def elim!: bnd_InrE split: flow.split_asm)
  then show ?thesis using that s by (simp add: fresh_process_def demo_env_def)
qed

theorem run_timer_refines_witness:
  "\<exists>(s :: tstate) s1 r. timers s = [7 \<mapsto> clean_timer 5000] \<and> lock_acquire s Timer_lock = Inr (Returned (), s1)
    \<and> serves idle_code 200000 (forget s1) (with_heap Map.empty r)"
proof -
  obtain s :: tstate and R where s: "timer_idle s (boot_queues 0)" "wheel {} [] s R" "timers s = [7 \<mapsto> clean_timer 5000]"
    by (rule booted)
  have "periods_fit 200000 s" using s(3) by (simp add: periods_fit_def clean_timer_def)
  from run_timer_refines [OF s(1,2) idle_code_quiet this] s(3) show ?thesis by auto
qed

theorem timer_create_delete_witness:
  "\<exists>(s :: tstate) s1 s2. create_timer s (Some Fn_collaborative_helper) (Task_param (Some 0)) 1000 0 (Some 8)
      = Inr (Returned (Some 8), s1)
    \<and> timers s1 8 \<noteq> None \<and> delete_timer s1 (Some 8) = Inr (Returned 0, s2) \<and> timers s2 = timers s"
proof -
  obtain s :: tstate and R where s: "timer_idle s (boot_queues 0)" "wheel {} [] s R" "timers s = [7 \<mapsto> clean_timer 5000]"
    "uJiffies s = 5000" by (rule booted)
  then show ?thesis
    using timer_create_delete [OF s(1,2), of 8 1000 Fn_collaborative_helper "Task_param (Some 0)" 0] by fastforce
qed

end
