(* ===== verification/Alarm.thy ===== *)
theory Alarm
  imports UtsInterrupts Startup
begin

text \<open>
  The timing wheel as the alarm clock of sleeping tasks: what \<open>collaborative_schedule_helper\<close> does to
  the scheduler, and which tasks one call of \<open>run_timer\<close> wakes.
\<close>

section \<open>Waking one task\<close>

definition woken :: "task_struct \<Rightarrow> task_struct" where
  "woken t = t\<lparr>ticks := priority t, status := TASK_READY, is_collaborative_schedule := False, sleep_millisecond := 0\<rparr>"

lemma woken_simps [simp]:
  "status (woken t) = TASK_READY" "ticks (woken t) = priority t" "is_collaborative_schedule (woken t) = False"
  "sleep_millisecond (woken t) = 0" "stack_magic (woken t) = stack_magic t" "woken (woken t) = woken t"
  by (simp_all add: woken_def)

text \<open>More tasks at the end of the ready queue.\<close>

definition ready_more :: "queue_view \<Rightarrow> task list \<Rightarrow> queue_view" where
  "ready_more Q ws = Q(Ready_list \<mapsto> the (Q Ready_list) @ ws)"

lemma ready_more_simps [simp]:
  "ready_more (ready_more Q ws) vs = ready_more Q (ws @ vs)"
  "L \<noteq> Ready_list \<Longrightarrow> ready_more Q ws L = Q L"
  "ready_more Q ws Ready_list = Some (the (Q Ready_list) @ ws)"
  by (simp_all add: ready_more_def)

lemma ready_more_Nil [simp]: "Q Ready_list = Some rs \<Longrightarrow> ready_more Q [] = Q"
  by (auto simp: ready_more_def)

lemma unqueued_ready_more:
  assumes "Q Ready_list \<noteq> None"
  shows "unqueued (ready_more Q ws) General_tag p \<longleftrightarrow> unqueued Q General_tag p \<and> p \<notin> set ws"
proof -
  obtain rs where rs: "Q Ready_list = Some rs" using assms by auto
  show ?thesis
  proof
    assume l: "unqueued (ready_more Q ws) General_tag p"
    have "p \<notin> set (rs @ ws)" using unqueuedD [OF l, of Ready_list] rs by simp
    moreover have "p \<notin> set xs" if "Q L = Some xs" "tag_of L = General_tag" for L xs
      using unqueuedD [OF l, of L] that calculation rs by (cases "L = Ready_list") auto
    ultimately show "unqueued Q General_tag p \<and> p \<notin> set ws" by (auto simp: unqueued_def)
  next
    assume r: "unqueued Q General_tag p \<and> p \<notin> set ws"
    then show "unqueued (ready_more Q ws) General_tag p"
      using rs unqueuedD [of Q General_tag p Ready_list rs]
      by (auto simp: unqueued_def ready_more_def split: if_split_asm)
  qed
qed

text \<open>What one serving of the timers does to the scheduler's state.\<close>

definition woke :: "task list \<Rightarrow> 'a tstate_scheme \<Rightarrow> 'a tstate_scheme \<Rightarrow> bool" where
  "woke ws s s' \<longleftrightarrow> tasks s' = (\<lambda>p. if p \<in> set ws then map_option woken (tasks s p) else tasks s p)
     \<and> current_task s' = current_task s \<and> locks s' = locks s \<and> task_all_nums s' = task_all_nums s
     \<and> uExitFlag s' = uExitFlag s"

lemma woke_trans: "woke ws s s1 \<Longrightarrow> woke vs s1 s2 \<Longrightarrow> woke (ws @ vs) s s2"
  by (auto simp: woke_def fun_eq_iff option.map_comp o_def)

lemma woke_Nil [simp]: "woke [] s s"
  by (simp add: woke_def)

lemma helper_result:
  fixes s :: "'a tstate_scheme"
  assumes inv: "sched_inv s Q" and p: "p \<in> set (the (Q All_list))" "unqueued Q General_tag p" "current_task s \<noteq> Some p"
  obtains s' where "collaborative_schedule_helper s (Some p) = Inr s'" and "sched_inv s' (ready_more Q [p])"
    and "woke [p] s s'"
proof -
  obtain c tc rs as where c: "lists_ok s Q" "current_task s = Some c" "tasks s c = Some tc" "status tc = TASK_RUNNING"
    "unqueued Q General_tag c" "Q Ready_list = Some rs" "Q All_list = Some as" "c \<in> set as"
    using inv by (rule sched_invE)
  note q = lists_ok_queues [OF c(1)]
  obtain t where t: "tasks s p = Some t" "status t \<noteq> TASK_DIED"
    using lists_ok_memberD [OF c(1,7), of p] p(1) c(7) by auto
  have nin: "p \<notin> set rs" using unqueuedD [OF p(2) c(6)] by simp
  obtain h where h: "k_append s Ready_list p = Inr (s\<lparr>nodes := h\<rparr>)" "queues h (Q(Ready_list \<mapsto> rs @ [p]))" "dom h = dom (nodes s)"
    by (rule k_append_spec [OF q c(6), of p]) (use p(2) lists_ok_tag [OF c(1) t(1)] in auto)
  let ?s = "s\<lparr>nodes := h, tasks := (tasks s)(p \<mapsto> woken t)\<rparr>"
  have pc: "p \<noteq> c" using p(3) c(2) by simp
  have "collaborative_schedule_helper s (Some p) = Inr ?s"
    using t(1) h(1) k_find_spec [OF q c(6), of p] nin by (simp add: collaborative_schedule_helper_def woken_def)
  moreover have "sched_inv ?s (ready_more Q [p])"
  proof -
    have Q': "ready_more Q [p] = Q(Ready_list \<mapsto> rs @ [p])" using c(6) by (simp add: ready_more_def)
    have ok': "lists_ok ?s (Q(Ready_list \<mapsto> rs @ [p]))"
    proof (rule lists_ok_step [OF c(1)])
      fix L xs r assume L: "(Q(Ready_list \<mapsto> rs @ [p])) L = Some xs" "r \<in> set xs"
      show "\<exists>ts. tasks ?s r = Some ts \<and> list_status L (status ts)"
      proof (cases "r = p")
        case True
        have "list_status L TASK_READY"
          using L t True unqueuedD [OF p(2), of L xs] lists_ok_memberD [OF c(1), of L xs p]
          by (cases L) (auto split: if_split_asm)
        then show ?thesis using True by simp
      next
        case False
        then obtain ys where "Q L = Some ys" "r \<in> set ys" using L c(6) by (cases "L = Ready_list") auto
        then show ?thesis using lists_ok_memberD [OF c(1)] False by auto
      qed
    next
      fix L xs r assume "(Q(Ready_list \<mapsto> rs @ [p])) L = Some xs" "tag_of L = General_tag" "r \<in> set xs"
      then show "r \<in> set (the (Q All_list))"
        using lists_ok_known [OF c(1), of L xs r] lists_ok_known [OF c(1,6), of r] p(1)
        by (cases "L = Ready_list") auto
    qed (use h t(1) c in \<open>auto simp: lists_ok_def\<close>)
    have "runs ?s (Q(Ready_list \<mapsto> rs @ [p])) c"
      using c pc current_unqueued [OF ok', of c tc] by (simp add: runs_def)
    with ok' show ?thesis unfolding Q' sched_inv_def by blast
  qed
  moreover have "woke [p] s ?s" using t(1) by (auto simp: woke_def)
  ultimately show ?thesis by (rule that)
qed

section \<open>The sleepers\<close>

text \<open>The task the timer \<open>n\<close> will wake.\<close>

definition sleeper :: "'a tstate_scheme \<Rightarrow> nat \<Rightarrow> task option" where
  "sleeper s n = (case timers s n of None \<Rightarrow> None
     | Some t \<Rightarrow> (if timerFn t = Fn_collaborative_helper then (case pParam t of Task_param p \<Rightarrow> p | _ \<Rightarrow> None) else None))"

text \<open>User callbacks that leave timers and scheduler alone and return.\<close>

definition calm :: "'a user_code \<Rightarrow> bool" where
  "calm uc \<longleftrightarrow> quiet_user uc \<and> (\<forall>i p s. \<exists>s'. uc i p s = Inr s' \<and> woke [] s s' \<and> nodes s' = nodes s)"

text \<open>
  The state of the sleepers: the timer of a sleeping task is a one-shot timer, the task is alive, on
  no queue, not running, and has no second timer. The cleaning of the pool, when it is pending,
  has nothing to clean.
\<close>

definition asleep_ok :: "'a tstate_scheme \<Rightarrow> queue_view \<Rightarrow> bool" where
  "asleep_ok s Q \<longleftrightarrow>
     (\<forall>n t. timers s n = Some t \<longrightarrow> timerFn t = Fn_collaborative_helper \<longrightarrow>
        uPeriod t = 0 \<and> (\<exists>p. pParam t = Task_param (Some p) \<and> p \<in> set (the (Q All_list))
          \<and> unqueued Q General_tag p \<and> current_task s \<noteq> Some p))
     \<and> (\<forall>n m p. sleeper s n = Some p \<longrightarrow> sleeper s m = Some p \<longrightarrow> n = m)
     \<and> (\<forall>n t. timers s n = Some t \<longrightarrow> timerFn t = Fn_clean_dead_task \<longrightarrow>
          Q Pool_list = Some [] \<or> 8 \<le> sint (task_all_nums s))"

lemma asleep_okD:
  assumes "asleep_ok s Q" and "timers s n = Some t"
  shows "timerFn t = Fn_collaborative_helper \<Longrightarrow> uPeriod t = 0 \<and> (\<exists>p. pParam t = Task_param (Some p)
      \<and> p \<in> set (the (Q All_list)) \<and> unqueued Q General_tag p \<and> current_task s \<noteq> Some p)"
    and "timerFn t = Fn_clean_dead_task \<Longrightarrow> Q Pool_list = Some [] \<or> 8 \<le> sint (task_all_nums s)"
  using assms unfolding asleep_ok_def by blast+

lemma asleep_inj: "asleep_ok s Q \<Longrightarrow> sleeper s n = Some p \<Longrightarrow> sleeper s m = Some p \<Longrightarrow> n = m"
  unfolding asleep_ok_def by blast

text \<open>The sleepers of a state some of whose timers have gone.\<close>

lemma asleep_less:
  assumes ok: "asleep_ok s Q" and r: "Q Ready_list \<noteq> None"
    and s': "\<And>m t. timers s' m = Some t \<Longrightarrow> sleeper s' m \<noteq> None \<or> timerFn t = Fn_collaborative_helper
        \<Longrightarrow> timers s m = Some t \<and> sleeper s m \<notin> Some ` set ws"
    and cl: "\<And>m t. timers s' m = Some t \<Longrightarrow> timerFn t = Fn_clean_dead_task
        \<Longrightarrow> \<exists>t. timers s m = Some t \<and> timerFn t = Fn_clean_dead_task"
    and same: "current_task s' = current_task s" "task_all_nums s' = task_all_nums s"
  shows "asleep_ok s' (ready_more Q ws)"
  unfolding asleep_ok_def
proof (intro conjI allI impI)
  have old: "sleeper s m = Some p" if "sleeper s' m = Some p" for m p
    using that s' [of m] by (auto simp: sleeper_def split: option.split_asm if_split_asm)
  show "n = m" if "sleeper s' n = Some p" "sleeper s' m = Some p" for n m p
    using asleep_inj [OF ok old old] that by blast
  show "ready_more Q ws Pool_list = Some [] \<or> 8 \<le> sint (task_all_nums s')"
    if "timers s' n = Some t" "timerFn t = Fn_clean_dead_task" for n t
    using cl [OF that] asleep_okD(2) [OF ok] same by fastforce
  fix n t assume t: "timers s' n = Some t" "timerFn t = Fn_collaborative_helper"
  have o: "timers s n = Some t" "sleeper s n \<notin> Some ` set ws" using s' t by blast+
  then show "uPeriod t = 0" using asleep_okD(1) [OF ok] t by blast
  obtain p where p: "pParam t = Task_param (Some p)" "p \<in> set (the (Q All_list))" "unqueued Q General_tag p" "current_task s \<noteq> Some p"
    using asleep_okD(1) [OF ok o(1) t(2)] by blast
  moreover have "p \<notin> set ws" using o t p(1) by (auto simp: sleeper_def)
  ultimately show "\<exists>p. pParam t = Task_param (Some p) \<and> p \<in> set (the (ready_more Q ws All_list))
      \<and> unqueued (ready_more Q ws) General_tag p \<and> current_task s' \<noteq> Some p"
    using same(1) using unqueued_ready_more [of Q ws p] r by simp
qed

section \<open>Serving the timers wakes the sleepers\<close>

definition woken_by :: "'a tstate_scheme \<Rightarrow> nat \<Rightarrow> task list" where
  "woken_by s n = (case sleeper s n of None \<Rightarrow> [] | Some p \<Rightarrow> [p])"

lemma call_wakes:
  assumes inv: "sched_inv s Q" and ok: "asleep_ok s Q" and uc: "calm uc" and t: "timers s n = Some t"
  obtains s' where "call_timer_fn uc s (timerFn t) (pParam t) = Inr s'" and "sched_inv s' (ready_more Q (woken_by s n))"
    and "woke (woken_by s n) s s'"
proof -
  obtain rs where rs: "Q Ready_list = Some rs" using inv by (auto simp: sched_inv_def lists_ok_def)
  show ?thesis
  proof (cases "timerFn t")
    case Fn_clean_dead_task
    have "clean_dead_task s = Inr s" by (rule clean_nothing [OF inv asleep_okD(2) [OF ok t Fn_clean_dead_task]])
    then show ?thesis using that [of s] inv rs Fn_clean_dead_task t
      by (simp add: call_timer_fn_def woken_by_def sleeper_def)
  next
    case Fn_collaborative_helper
    obtain p where p: "pParam t = Task_param (Some p)" "p \<in> set (the (Q All_list))" "unqueued Q General_tag p" "current_task s \<noteq> Some p"
      using asleep_okD(1) [OF ok t Fn_collaborative_helper] by blast
    have w: "woken_by s n = [p]" using t Fn_collaborative_helper p(1) by (simp add: woken_by_def sleeper_def)
    obtain s' where "collaborative_schedule_helper s (Some p) = Inr s'" "sched_inv s' (ready_more Q [p])" "woke [p] s s'"
      by (rule helper_result [OF inv p(2-4)])
    then show ?thesis using that [of s'] Fn_collaborative_helper p(1) w by (simp add: call_timer_fn_def param_task_def)
  next
    case (Fn_user i)
    obtain s' where s': "uc i (pParam t) s = Inr s'" "woke [] s s'" "nodes s' = nodes s"
      using uc unfolding calm_def by blast
    have w: "woken_by s n = []" using t Fn_user by (simp add: woken_by_def sleeper_def)
    have "sched_inv s' Q" using inv s' sched_inv_cong [of s' s Q] by (simp add: woke_def)
    then show ?thesis using that [of s'] s' w rs Fn_user by (simp add: call_timer_fn_def)
  qed
qed

lemma serve_wakes:
  assumes inv: "sched_inv s Q" and ok: "asleep_ok s Q" and uc: "calm uc" and t: "timers s n = Some t"
  obtains s' where "serve uc s n = Inr s'" and "sched_inv s' (ready_more Q (woken_by s n))"
    and "woke (woken_by s n) s s'" and "asleep_ok s' (ready_more Q (woken_by s n))"
    and "timers s' = (timers s)(n := if uPeriod t \<noteq> 0 then Some (t\<lparr>uExpires := uJiffies s + uPeriod t\<rparr>) else None)"
    and "uJiffies s' = uJiffies s" and "clock_granularity s' = clock_granularity s"
proof -
  obtain s1 where s1: "call_timer_fn uc s (timerFn t) (pParam t) = Inr s1" "sched_inv s1 (ready_more Q (woken_by s n))"
    "woke (woken_by s n) s s1" by (rule call_wakes [OF assms])
  have q: "quiet_user uc" using uc by (simp add: calm_def)
  have f: "timers s1 = timers s" "uJiffies s1 = uJiffies s" "clock_granularity s1 = clock_granularity s"
    using quietD(2) [OF call_quiet [OF q] s1(1)] by auto
  let ?v = "if uPeriod t \<noteq> 0 then Some (t\<lparr>uExpires := uJiffies s + uPeriod t\<rparr>) else None"
  let ?s = "s1\<lparr>timers := (timers s)(n := ?v)\<rparr>"
  have "serve uc s n = Inr ?s" using t s1(1) f by (simp add: serve_def)
  moreover have w: "woke (woken_by s n) s ?s" using s1(3) by (simp add: woke_def)
  moreover have "asleep_ok ?s (ready_more Q (woken_by s n))"
  proof (rule asleep_less [OF ok])
    show "Q Ready_list \<noteq> None" using inv by (auto simp: sched_inv_def lists_ok_def)
    show "current_task ?s = current_task s" "task_all_nums ?s = task_all_nums s" using w by (simp_all add: woke_def)
    fix m u assume u: "timers ?s m = Some u"
    show "\<exists>t. timers s m = Some t \<and> timerFn t = Fn_clean_dead_task" if "timerFn u = Fn_clean_dead_task"
      using u t that by (auto split: if_split_asm)
    assume sl: "sleeper ?s m \<noteq> None \<or> timerFn u = Fn_collaborative_helper"
    then have fn: "timerFn u = Fn_collaborative_helper" using u by (auto simp: sleeper_def split: if_split_asm)
    have m: "m \<noteq> n" using u fn asleep_okD(1) [OF ok t] by (auto split: if_split_asm)
    then have "timers s m = Some u" using u by simp
    moreover have "sleeper s m \<notin> Some ` set (woken_by s n)"
      using m asleep_inj [OF ok, of m _ n] by (cases "sleeper s n") (auto simp: woken_by_def)
    ultimately show "timers s m = Some u \<and> sleeper s m \<notin> Some ` set (woken_by s n)" by simp
  qed
  ultimately show ?thesis using s1(2) f by (intro that [of ?s]) simp_all
qed

text \<open>What is known after some timers were served: who was woken, and which timers are left.\<close>

definition wakes :: "32 word \<Rightarrow> 'a tstate_scheme \<Rightarrow> queue_view \<Rightarrow> task list \<Rightarrow> 'a tstate_scheme \<Rightarrow> bool" where
  "wakes now s Q ws s' \<longleftrightarrow> sched_inv s' (ready_more Q ws) \<and> asleep_ok s' (ready_more Q ws) \<and> woke ws s s'
     \<and> clock_granularity s' = clock_granularity s
     \<and> (\<forall>n p. sleeper s n = Some p \<longrightarrow> p \<in> set ws \<or> timers s' n = timers s n)
     \<and> (\<forall>p\<in>set ws. \<exists>n t. sleeper s n = Some p \<and> timers s n = Some t
          \<and> (clock_granularity s = 1 \<longrightarrow> uExpires t \<le> now))
     \<and> dom (timers s') \<subseteq> dom (timers s)"

lemma sleeper_same: "timers s' n = timers s n \<Longrightarrow> sleeper s' n = sleeper s n"
  by (simp add: sleeper_def)

text \<open>A sleeper's timer is never set again, so the sleepers only become fewer.\<close>

lemma wakes_trans:
  assumes a: "wakes now s Q ws s1" and b: "wakes now s1 (ready_more Q ws) vs s2"
    and old: "\<And>n p. sleeper s1 n = Some p \<Longrightarrow> timers s1 n = timers s n"
  shows "wakes now s Q (ws @ vs) s2"
  unfolding wakes_def
proof (intro conjI allI impI ballI)
  show "woke (ws @ vs) s s2" using a b woke_trans by (auto simp: wakes_def)
  show "p \<in> set (ws @ vs) \<or> timers s2 n = timers s n" if n: "sleeper s n = Some p" for n p
  proof (cases "p \<in> set ws")
    case False
    then have "timers s1 n = timers s n" using a n unfolding wakes_def by blast
    moreover from this have "p \<in> set vs \<or> timers s2 n = timers s1 n"
      using b n sleeper_same [of s1 n s] unfolding wakes_def by metis
    ultimately show ?thesis by auto
  qed simp
  show "\<exists>n t. sleeper s n = Some p \<and> timers s n = Some t \<and> (clock_granularity s = 1 \<longrightarrow> uExpires t \<le> now)"
    if p: "p \<in> set (ws @ vs)" for p
  proof (cases "p \<in> set ws")
    case True
    then show ?thesis using a unfolding wakes_def by blast
  next
    case False
    then obtain n t where n: "sleeper s1 n = Some p" "timers s1 n = Some t" "clock_granularity s1 = 1 \<longrightarrow> uExpires t \<le> now"
      using b p unfolding wakes_def by auto
    have "timers s n = Some t" "sleeper s n = Some p" using old [OF n(1)] n sleeper_same [of s1 n s] by simp_all
    moreover have "clock_granularity s1 = clock_granularity s" using a by (simp add: wakes_def)
    ultimately show ?thesis using n(3) by auto
  qed
  show "dom (timers s2) \<subseteq> dom (timers s)" using a b order_trans by (simp add: wakes_def) blast
qed (use a b in \<open>simp_all add: wakes_def\<close>)

lemma serve_all_wakes:
  assumes uc: "calm uc"
  shows "sched_inv s Q \<Longrightarrow> asleep_ok s Q \<Longrightarrow> distinct ns
    \<Longrightarrow> \<forall>n\<in>set ns. \<exists>t. timers s n = Some t \<and> (clock_granularity s = 1 \<longrightarrow> uExpires t \<le> now)
    \<Longrightarrow> \<exists>s' ws. serve_all uc s ns = Inr s' \<and> wakes now s Q ws s' \<and> uJiffies s' = uJiffies s
      \<and> (\<forall>n p. sleeper s' n = Some p \<longrightarrow> timers s' n = timers s n)"
proof (induction ns arbitrary: s Q)
  case Nil
  obtain rs where rs: "Q Ready_list = Some rs" using Nil(1) by (auto simp: sched_inv_def lists_ok_def)
  have "wakes now s Q [] s" using Nil rs by (simp add: wakes_def)
  then show ?case by auto
next
  case (Cons n ns)
  obtain t where t: "timers s n = Some t" "clock_granularity s = 1 \<longrightarrow> uExpires t \<le> now" using Cons.prems(4) by auto
  obtain s1 where s1: "serve uc s n = Inr s1" "sched_inv s1 (ready_more Q (woken_by s n))"
    "woke (woken_by s n) s s1" "asleep_ok s1 (ready_more Q (woken_by s n))"
    "timers s1 = (timers s)(n := if uPeriod t \<noteq> 0 then Some (t\<lparr>uExpires := uJiffies s + uPeriod t\<rparr>) else None)"
    "uJiffies s1 = uJiffies s" "clock_granularity s1 = clock_granularity s"
    by (rule serve_wakes [OF Cons.prems(1,2) uc t(1)])
  have others: "\<forall>m\<in>set ns. \<exists>t. timers s1 m = Some t \<and> (clock_granularity s1 = 1 \<longrightarrow> uExpires t \<le> now)"
    using Cons.prems(3,4) s1(5,7) by auto
  obtain s' ws where s': "serve_all uc s1 ns = Inr s'" "wakes now s1 (ready_more Q (woken_by s n)) ws s'" "uJiffies s' = uJiffies s1"
    "\<forall>n p. sleeper s' n = Some p \<longrightarrow> timers s' n = timers s1 n"
    using Cons.IH [OF s1(2,4) _ others] Cons.prems(3) by auto
  have old: "timers s1 m = timers s m" if m: "sleeper s1 m = Some p" for m p
  proof (cases "m = n")
    case True
    obtain u where u: "timers s1 n = Some u" "timerFn u = Fn_collaborative_helper"
      using m True by (auto simp: sleeper_def split: option.split_asm if_split_asm)
    have "uPeriod t \<noteq> 0" "timerFn t = Fn_collaborative_helper" using u s1(5) by (auto split: if_split_asm)
    then show ?thesis using asleep_okD(1) [OF Cons.prems(2) t(1)] by blast
  qed (simp add: s1(5))
  have "wakes now s Q (woken_by s n) s1"
    unfolding wakes_def
  proof (intro conjI allI impI ballI)
    show "p \<in> set (woken_by s n) \<or> timers s1 m = timers s m" if "sleeper s m = Some p" for m p
      using that by (cases "m = n") (simp_all add: woken_by_def s1(5))
    show "\<exists>m t. sleeper s m = Some p \<and> timers s m = Some t \<and> (clock_granularity s = 1 \<longrightarrow> uExpires t \<le> now)"
      if "p \<in> set (woken_by s n)" for p
      using that t by (auto simp: woken_by_def split: option.split_asm)
    show "dom (timers s1) \<subseteq> dom (timers s)" using t(1) by (auto simp: s1(5) split: if_split_asm)
  qed (use s1 in simp_all)
  from wakes_trans [OF this s'(2) old] have "wakes now s Q (woken_by s n @ ws) s'" .
  moreover have "timers s' m = timers s m" if "sleeper s' m = Some p" for m p
    using s'(4) [rule_format, OF that] old [of m p] that sleeper_same [of s' m s1] by simp
  ultimately show ?case using s1(1,6) s'(1,3) by auto
qed

lemma sleep_jiffies [simp]:
  "sleeper (s\<lparr>uJiffies := j\<rparr>) n = sleeper s n" "asleep_ok (s\<lparr>uJiffies := j\<rparr>) Q = asleep_ok s Q"
  "woke ws (s\<lparr>uJiffies := j\<rparr>) s' = woke ws s s'" "woke ws s' (s\<lparr>uJiffies := j\<rparr>) = woke ws s' s"
  "wakes now s' Q ws (s\<lparr>uJiffies := j\<rparr>) = wakes now s' Q ws s"
  by (simp_all add: sleeper_def asleep_ok_def woke_def wakes_def cong: if_cong)

lemma sleep_heap [simp]:
  "sleeper (s\<lparr>theap := h\<rparr>) n = sleeper s n" "asleep_ok (s\<lparr>theap := h\<rparr>) Q = asleep_ok s Q"
  "woke ws (s\<lparr>theap := h\<rparr>) s' = woke ws s s'" "woke ws s' (s\<lparr>theap := h\<rparr>) = woke ws s' s"
  "wakes now s' Q ws (s\<lparr>theap := h\<rparr>) = wakes now s' Q ws s" "wakes now (s\<lparr>theap := h\<rparr>) Q ws s' = wakes now s Q ws s'"
  by (simp_all add: sleeper_def asleep_ok_def woke_def wakes_def cong: if_cong)

lemma serves_wakes:
  assumes uc: "calm uc" and now: "unat now + 1 < 2 ^ 32"
  shows "serves uc now s r \<Longrightarrow> sched_inv s Q \<Longrightarrow> asleep_ok s Q
    \<Longrightarrow> \<exists>s' ws. r = Inr s' \<and> wakes now s Q ws s' \<and> uJiffies s' = (if now < uJiffies s then uJiffies s else now + 1)
      \<and> (\<forall>n p. sleeper s' n = Some p \<longrightarrow> timers s' n = timers s n)"
proof (induction arbitrary: Q rule: serves.induct)
  case (up_to_date s)
  obtain rs where "Q Ready_list = Some rs" using up_to_date.prems(1) by (auto simp: sched_inv_def lists_ok_def)
  then have "wakes now s Q [] s" using up_to_date by (simp add: wakes_def)
  then show ?case using up_to_date by auto
next
  case (tick s ns s' r)
  have "\<forall>n\<in>set ns. \<exists>t. timers s n = Some t \<and> (clock_granularity s = 1 \<longrightarrow> uExpires t \<le> now)"
    using tick.hyps(1,2) unfolding expiring_def by fastforce
  then obtain ws where ws: "wakes now s Q ws s'" "uJiffies s' = uJiffies s" "\<And>n p. sleeper s' n = Some p \<Longrightarrow> timers s' n = timers s n"
    using serve_all_wakes [OF uc tick.prems(1,2), of ns now] tick.hyps(2,3) by (auto simp: expiring_def)
  let ?s = "s'\<lparr>uJiffies := uJiffies s' + 1\<rparr>"
  have inv: "sched_inv ?s (ready_more Q ws)" "asleep_ok ?s (ready_more Q ws)" using ws(1) by (simp_all add: wakes_def)
  obtain s2 vs where s2: "r = Inr s2" "wakes now ?s (ready_more Q ws) vs s2"
    "uJiffies s2 = (if now < uJiffies ?s then uJiffies ?s else now + 1)" "\<forall>n p. sleeper s2 n = Some p \<longrightarrow> timers s2 n = timers ?s n"
    using tick.IH [OF inv] by blast
  have w: "wakes now s Q ws ?s" using ws(1) by simp
  have "wakes now s Q (ws @ vs) s2" by (rule wakes_trans [OF w s2(2)]) (use ws(3) in simp)
  moreover have "timers s2 n = timers s n" if "sleeper s2 n = Some p" for n p
    using s2(4) [rule_format, OF that] ws(3) [of n p] that sleeper_same [of s2 n s'] by simp
  moreover have "uJiffies s2 = (if now < uJiffies s then uJiffies s else now + 1)"
  proof -
    have le: "unat (uJiffies s) \<le> unat now" using tick.hyps(1) by (simp add: word_le_nat_alt)
    then have "unat (uJiffies s + 1) = unat (uJiffies s) + 1" using now by (simp add: unat_word_ariths)
    then have "now < uJiffies s + 1 \<Longrightarrow> uJiffies s = now"
      using le by (simp add: word_less_nat_alt word_unat_eq_iff)
    then show ?thesis using s2(3) ws(2) tick.hyps(1) by auto
  qed
  ultimately show ?case using s2(1) by blast
next
  case (fault s ns e)
  have "\<forall>n\<in>set ns. \<exists>t. timers s n = Some t \<and> (clock_granularity s = 1 \<longrightarrow> uExpires t \<le> now)"
    using fault.hyps(1,2) unfolding expiring_def by fastforce
  then show ?case
    using serve_all_wakes [OF uc fault.prems(1,2), of ns now] fault.hyps(2,3) by (auto simp: expiring_def)
qed

section \<open>run_timer as an alarm clock\<close>

lemma run_timer_wakes:
  assumes i: "timer_idle s Q" and w: "wheel {} [] s R" and ok: "asleep_ok s Q" and uc: "calm uc"
    and p: "periods_fit now s" and now: "unat now + 1 < 2 ^ 32"
  obtains s' ws R' where "run_timer uc now s = Inr (Returned (), s')" and "timer_idle s' (ready_more Q ws)"
    and "wheel {} [] s' R'" and "asleep_ok s' (ready_more Q ws)"
    and "tasks s' = (\<lambda>p. if p \<in> set ws then map_option woken (tasks s p) else tasks s p)"
    and "current_task s' = current_task s" and "task_all_nums s' = task_all_nums s" and "uExitFlag s' = uExitFlag s"
    and "clock_granularity s' = clock_granularity s"
    and "uJiffies s' = (if now < uJiffies s then uJiffies s else now + 1)"
    and "\<forall>n t p. timers s n = Some t \<longrightarrow> sleeper s n = Some p \<longrightarrow> p \<in> set ws \<or> timers s' n = Some t \<and> now < uExpires t"
    and "\<forall>p\<in>set ws. \<exists>n t. sleeper s n = Some p \<and> timers s n = Some t \<and> (clock_granularity s = 1 \<longrightarrow> uExpires t \<le> now)"
    and "dom (timers s') \<subseteq> dom (timers s)" and "distinct ws" and "\<forall>l. l \<noteq> Timer_lock \<longrightarrow> locks s' l = locks s l"
proof -
  let ?l = Timer_lock
  have inv: "sched_inv s Q" and free: "lock_free (locks s ?l)" and wt: "Q (Waiters ?l) = Some []"
    using i by (simp_all add: timer_idle_def)
  obtain s1 where s1: "lock_acquire s ?l = Inr (Returned (), s1)" "sched_inv s1 Q" "kstate.more s1 = kstate.more s"
    "holder (locks s1 ?l) = current_task s1" "holder_repeat_nr (locks s1 ?l) = 1" "sema_val s1 ?l = 0" "same_kernel ?l s s1"
    by (rule lock_take [OF inv free])
  have f1: "timers s1 = timers s" "clock_granularity s1 = clock_granularity s" "uJiffies s1 = uJiffies s" "uExitFlag s1 = uExitFlag s"
    "tasks s1 = tasks s" "current_task s1 = current_task s" "task_all_nums s1 = task_all_nums s"
    using more_fields [OF s1(3)] s1(7) by (simp_all add: same_kernel_def)
  have ok1: "asleep_ok s1 Q" using ok f1 by (simp add: asleep_ok_def sleeper_def)
  have w1: "wheel {} [] s1 R" by (rule wheel_same [OF w same_timers_more [OF s1(3)]])
  have q: "quiet_user uc" using uc by (simp add: calm_def)
  have p1: "periods_fit now s1" using p f1(1) by (simp add: periods_fit_def)
  obtain r where r: "run_jiffies uc now s1 = Some r" "serves uc now (forget s1) (with_heap Map.empty r)"
    "\<And>s2. r = Inr s2 \<Longrightarrow> now < uJiffies s2 \<and> (\<exists>R'. wheel {} [] s2 R')"
    using run_jiffies_wheel [OF q w1 p1 now] by (elim exE conjE) simp
  obtain x ws where x: "with_heap Map.empty r = Inr x" "wakes now s1 Q ws x"
    "uJiffies x = (if now < uJiffies s1 then uJiffies s1 else now + 1)" "\<forall>n p. sleeper x n = Some p \<longrightarrow> timers x n = timers s1 n"
    using serves_wakes [OF uc now r(2), of Q] s1(2) ok1 by auto
  obtain s2 where s2: "r = Inr s2" "x = forget s2" using x(1) by (cases r) auto
  obtain R' where R': "now < uJiffies s2" "wheel {} [] s2 R'" using r(3) [OF s2(1)] by auto
  have wk: "wakes now s1 Q ws s2" using x(2) s2(2) by simp
  have k2: "sched_inv s2 (ready_more Q ws)" "locks s2 = locks s1" "current_task s2 = current_task s1"
    using wk by (simp_all add: wakes_def woke_def)
  have "ready_more Q ws (Waiters ?l) = Some []" using wt by simp
  from lock_drop [OF k2(1) this] obtain s3 where s3: "lock_release s2 ?l = Inr s3" "sched_inv s3 (ready_more Q ws)"
    "kstate.more s3 = kstate.more s2" "lock_free (locks s3 ?l)" "same_kernel ?l s2 s3"
    using s1(4-6) k2(2,3) by (auto simp: sema_val_def)
  have f3: "timers s3 = timers s2" "clock_granularity s3 = clock_granularity s2" "uJiffies s3 = uJiffies s2" "uExitFlag s3 = uExitFlag s2"
    "tasks s3 = tasks s2" "current_task s3 = current_task s2" "task_all_nums s3 = task_all_nums s2"
    using more_fields [OF s3(3)] s3(5) by (simp_all add: same_kernel_def)
  have "run_timer uc now s = Inr (Returned (), s3)"
    using wheelD(1,10) [OF w] s1(1) r(1) s2(1) s3(1) by (simp add: run_timer_def)
  moreover have "wheel {} [] s3 R'" by (rule wheel_same [OF R'(2) same_timers_more [OF s3(3)]])
  moreover have "asleep_ok s3 (ready_more Q ws)" using wk f3 by (simp add: wakes_def asleep_ok_def sleeper_def)
  moreover have "p \<in> set ws \<or> timers s3 n = Some t \<and> now < uExpires t"
    if n: "timers s n = Some t" "sleeper s n = Some p" for n t p
  proof -
    have "sleeper s1 n = Some p" using n(2) f1(1) by (simp add: sleeper_def)
    then have "p \<in> set ws \<or> timers s2 n = timers s1 n" using wk unfolding wakes_def by blast
    moreover have "now < uExpires t" if "timers s2 n = Some t" using R'(1) wheel_future [OF R'(2) that] by (rule less_le_trans)
    ultimately show ?thesis using n(1) f1(1) f3(1) by auto
  qed
  moreover have "\<forall>m. m \<noteq> ?l \<longrightarrow> locks s3 m = locks s m"
    using s3(5) s1(7) k2(2) by (simp add: same_kernel_def)
  moreover have "distinct ws"
    using queues_distinct [OF lists_ok_queues, of s3 "ready_more Q ws" Ready_list] s3(2) by (simp add: sched_inv_def)
  moreover have "\<forall>p\<in>set ws. \<exists>n t. sleeper s n = Some p \<and> timers s n = Some t \<and> (clock_granularity s = 1 \<longrightarrow> uExpires t \<le> now)"
    using wk f1 by (auto simp: wakes_def sleeper_def)
  ultimately show ?thesis
    using s3(2,4) wt wk f1 f3 x(3) s2(2) by (intro that [of s3 ws R']) (simp_all add: timer_idle_def wakes_def woke_def cong: if_cong)
qed

end
