(* ===== verification/ClockTick.thy ===== *)
theory ClockTick
  imports Alarm
begin

text \<open>
  One tick of the user scheduler's clock: \<open>interrupt_timer_handler\<close> of interrupt/timer.c (the copy under
  src/User_Schedule) on every branch, and the invariant it keeps.
\<close>

section \<open>A tick of the clock\<close>

text \<open>
  The invariant of the user scheduler between two ticks: the timer lock free, the wheel in order, the
  sleepers as above, no request to remove the manager, and the guard words of the tasks intact.
\<close>

definition uts_ok :: "'a tstate_scheme \<Rightarrow> queue_view \<Rightarrow> bool" where
  "uts_ok s Q \<longleftrightarrow> timer_idle s Q \<and> (\<exists>R. wheel {} [] s R) \<and> asleep_ok s Q \<and> uExitFlag s = 0
     \<and> (\<forall>p t. tasks s p = Some t \<longrightarrow> stack_magic t = 0x19991120)"

text \<open>
  \<open>ws\<close> are the tasks a tick at \<open>now\<close> wakes: each sleeper whose time has come, no task that does not
  sleep, and with a granularity of one nobody early.
\<close>

definition wakes_at :: "32 word \<Rightarrow> 'a tstate_scheme \<Rightarrow> task list \<Rightarrow> bool" where
  "wakes_at now s ws \<longleftrightarrow> distinct ws
     \<and> (\<forall>n t p. timers s n = Some t \<longrightarrow> sleeper s n = Some p \<longrightarrow> uExpires t \<le> now \<longrightarrow> p \<in> set ws)
     \<and> (\<forall>p\<in>set ws. \<exists>n t. sleeper s n = Some p \<and> timers s n = Some t \<and> (clock_granularity s = 1 \<longrightarrow> uExpires t \<le> now))"

definition alarm_of :: "task \<Rightarrow> 32 word \<Rightarrow> timer_node" where
  "alarm_of c e = \<lparr>uExpires = e, uPeriod = 0, timerFn = Fn_collaborative_helper, pParam = Task_param (Some c)\<rparr>"

lemma sleeper_alarm: "timers s n = Some (alarm_of p e) \<Longrightarrow> sleeper s n = Some p"
  by (simp add: sleeper_def alarm_of_def)

lemma sleeper_is_alarm:
  assumes "asleep_ok s Q" and "timers s n = Some t" and "sleeper s n = Some p"
  shows "t = alarm_of p (uExpires t) \<and> p \<in> set (the (Q All_list)) \<and> unqueued Q General_tag p \<and> current_task s \<noteq> Some p"
proof -
  have fn: "timerFn t = Fn_collaborative_helper" "pParam t = Task_param (Some p)"
    using assms(2,3) by (auto simp: sleeper_def split: if_split_asm param.split_asm)
  with asleep_okD(1) [OF assms(1,2) fn(1)] show ?thesis by (cases t) (simp add: alarm_of_def)
qed

text \<open>The scheduler may change the ready queue as long as it does not touch a sleeper.\<close>

lemma asleep_switch:
  assumes ok: "asleep_ok s Q" and t: "timers s' = timers s" and n: "task_all_nums s' = task_all_nums s"
    and rs: "Q Ready_list = Some rs"
    and c: "\<And>p. p \<notin> set rs \<Longrightarrow> current_task s \<noteq> Some p \<Longrightarrow> p \<notin> set rs' \<and> current_task s' \<noteq> Some p"
  shows "asleep_ok s' (Q(Ready_list \<mapsto> rs'))"
  unfolding asleep_ok_def
proof (intro conjI allI impI)
  have sl: "sleeper s' m = sleeper s m" for m using t by (simp add: sleeper_def)
  show "a = b" if "sleeper s' a = Some p" "sleeper s' b = Some p" for a b p
    using asleep_inj [OF ok] that sl by simp
  show "(Q(Ready_list \<mapsto> rs')) Pool_list = Some [] \<or> 8 \<le> sint (task_all_nums s')"
    if "timers s' m = Some u" "timerFn u = Fn_clean_dead_task" for m u
    using asleep_okD(2) [OF ok, of m u] that t n by simp
  fix m u assume u: "timers s' m = Some u" "timerFn u = Fn_collaborative_helper"
  then have u0: "timers s m = Some u" using t by simp
  show "uPeriod u = 0" using asleep_okD(1) [OF ok u0 u(2)] by blast
  obtain p where p: "pParam u = Task_param (Some p)" "p \<in> set (the (Q All_list))" "unqueued Q General_tag p" "current_task s \<noteq> Some p"
    using asleep_okD(1) [OF ok u0 u(2)] by blast
  have "p \<notin> set rs' \<and> current_task s' \<noteq> Some p" using c [OF unqueuedD [OF p(3) rs] p(4)] by simp
  moreover have "unqueued (Q(Ready_list \<mapsto> rs')) General_tag p"
    using calculation p(3) by (auto simp: unqueued_def split: if_split_asm)
  ultimately show "\<exists>p. pParam u = Task_param (Some p) \<and> p \<in> set (the ((Q(Ready_list \<mapsto> rs')) All_list))
      \<and> unqueued (Q(Ready_list \<mapsto> rs')) General_tag p \<and> current_task s' \<noteq> Some p"
    using p(1,2) by simp
qed

text \<open>A running task gets its alarm and leaves the processor.\<close>

lemma asleep_new:
  assumes ok: "asleep_ok s Q" and t: "timers s' = (timers s)(m \<mapsto> alarm_of c e)" and m: "timers s m = None"
    and n: "task_all_nums s' = task_all_nums s" and cur: "current_task s = Some c" "current_task s' = Some d" "d \<noteq> c"
    and c: "c \<in> set (the (Q All_list))" "unqueued Q General_tag c" and rs: "Q Ready_list = Some (d # rs')"
  shows "asleep_ok s' (Q(Ready_list \<mapsto> rs'))"
  unfolding asleep_ok_def
proof (intro conjI allI impI)
  have sl: "sleeper s' k = (if k = m then Some c else sleeper s k)" for k using t by (simp add: sleeper_def alarm_of_def)
  have awake: "sleeper s k \<noteq> Some c" for k
    using sleeper_is_alarm [OF ok, of k _ c] cur(1) by (auto simp: sleeper_def split: option.split_asm)
  show "a = b" if "sleeper s' a = Some p" "sleeper s' b = Some p" for a b p
    using asleep_inj [OF ok, of a p b] awake that by (auto simp: sl split: if_split_asm)
  show "(Q(Ready_list \<mapsto> rs')) Pool_list = Some [] \<or> 8 \<le> sint (task_all_nums s')"
    if "timers s' k = Some u" "timerFn u = Fn_clean_dead_task" for k u
    using asleep_okD(2) [OF ok, of k u] that t n by (auto simp: alarm_of_def split: if_split_asm)
  have un: "unqueued (Q(Ready_list \<mapsto> rs')) General_tag p" if "unqueued Q General_tag p" for p
    using that unqueuedD [OF that rs] by (auto simp: unqueued_def split: if_split_asm)
  fix k u assume u: "timers s' k = Some u" "timerFn u = Fn_collaborative_helper"
  have "uPeriod u = 0 \<and> (\<exists>p. pParam u = Task_param (Some p) \<and> p \<in> set (the (Q All_list)) \<and> unqueued Q General_tag p \<and> p \<noteq> d)"
  proof (cases "k = m")
    case True
    then show ?thesis using u t c cur(3) by (auto simp: alarm_of_def)
  next
    case False
    then have "timers s k = Some u" using u t by simp
    with asleep_okD(1) [OF ok this u(2)] show ?thesis using unqueuedD [of Q General_tag _ Ready_list] rs by fastforce
  qed
  then show "uPeriod u = 0" "\<exists>p. pParam u = Task_param (Some p) \<and> p \<in> set (the ((Q(Ready_list \<mapsto> rs')) All_list))
      \<and> unqueued (Q(Ready_list \<mapsto> rs')) General_tag p \<and> current_task s' \<noteq> Some p"
    using un cur(2) by auto
qed

lemma service_result:
  assumes ok: "uts_ok s Q" and uc: "calm uc" and p: "periods_fit now s" and now: "unat now + 1 < 2 ^ 32"
  obtains s' ws where "service_timers uc s now = Inr (Returned (), s')" and "uts_ok s' (ready_more Q ws)" and "wakes_at now s ws"
    and "tasks s' = (\<lambda>p. if p \<in> set ws then map_option woken (tasks s p) else tasks s p)"
    and "current_task s' = current_task s" and "task_all_nums s' = task_all_nums s"
    and "uJiffies s' = (if now < uJiffies s then uJiffies s else now + 1)"
    and "\<forall>n t p. timers s n = Some t \<longrightarrow> sleeper s n = Some p \<longrightarrow> p \<in> set ws \<or> timers s' n = Some t \<and> now < uExpires t"
    and "dom (timers s') \<subseteq> dom (timers s)" and "\<forall>l. l \<noteq> Timer_lock \<longrightarrow> locks s' l = locks s l"
proof -
  obtain R where i: "timer_idle s Q" "wheel {} [] s R" "asleep_ok s Q" "uExitFlag s = 0"
    "\<forall>p t. tasks s p = Some t \<longrightarrow> stack_magic t = 0x19991120" using ok by (auto simp: uts_ok_def)
  obtain s' ws R' where r: "run_timer uc now s = Inr (Returned (), s')" "timer_idle s' (ready_more Q ws)"
    "wheel {} [] s' R'" "asleep_ok s' (ready_more Q ws)"
    "tasks s' = (\<lambda>p. if p \<in> set ws then map_option woken (tasks s p) else tasks s p)"
    "current_task s' = current_task s" "task_all_nums s' = task_all_nums s" "uExitFlag s' = uExitFlag s"
    "uJiffies s' = (if now < uJiffies s then uJiffies s else now + 1)"
    "\<forall>n t p. timers s n = Some t \<longrightarrow> sleeper s n = Some p \<longrightarrow> p \<in> set ws \<or> timers s' n = Some t \<and> now < uExpires t"
    "\<forall>p\<in>set ws. \<exists>n t. sleeper s n = Some p \<and> timers s n = Some t \<and> (clock_granularity s = 1 \<longrightarrow> uExpires t \<le> now)"
    "dom (timers s') \<subseteq> dom (timers s)" "distinct ws" "\<forall>l. l \<noteq> Timer_lock \<longrightarrow> locks s' l = locks s l"
    by (rule run_timer_wakes [OF i(1-3) uc p now])
  have "service_timers uc s now = Inr (Returned (), s')"
    using r(1) i(4) wheelD(1,10) [OF i(2)] by (simp add: service_timers_def)
  moreover have "stack_magic t = 0x19991120" if "tasks s' q = Some t" for q t
    using that i(5) r(5) by (auto split: if_split_asm)
  then have "uts_ok s' (ready_more Q ws)" using r(2-4,8) i(4) unfolding uts_ok_def by auto
  moreover have "wakes_at now s ws" unfolding wakes_at_def using r(10,11,13) leD by blast
  ultimately show ?thesis using r by (intro that [of s' ws]) simp_all
qed

text \<open>Who runs after a tick, and the ready queue: \<open>asleep\<close> and \<open>spent\<close> are the two tests of the handler.\<close>

definition tick_choice :: "bool \<Rightarrow> bool \<Rightarrow> task \<Rightarrow> task list \<Rightarrow> task \<times> task list" where
  "tick_choice asleep spent c ready =
     (if asleep then (hd ready, tl ready) else if spent then rr_step (c, ready) else (c, ready))"

text \<open>The marks that make a task sleep.\<close>

definition marked :: "'a tstate_scheme \<Rightarrow> task \<Rightarrow> bool option" where
  "marked s p = map_option is_collaborative_schedule (tasks s p)"

abbreviation same_flags :: "'a tstate_scheme \<Rightarrow> 'a tstate_scheme \<Rightarrow> bool" where
  "same_flags s s' \<equiv> \<forall>p. marked s' p = marked s p"

lemma uts_ok_more:
  assumes "timer_idle s' Q'" and "\<exists>R. wheel {} [] s' R" and "asleep_ok s' Q'" and "uExitFlag s' = 0"
    and "\<And>p t. tasks s' p = Some t \<Longrightarrow> stack_magic t = 0x19991120"
  shows "uts_ok s' Q'"
  using assms by (simp add: uts_ok_def)

lemma timer_idle_switch:
  "timer_idle s Q \<Longrightarrow> sched_inv s' (Q(Ready_list \<mapsto> rs)) \<Longrightarrow> locks s' = locks s \<Longrightarrow> timer_idle s' (Q(Ready_list \<mapsto> rs))"
  by (simp add: timer_idle_def)

text \<open>The three ways the handler goes on after the timers.\<close>

lemma tick_preempt:
  assumes ok: "uts_ok s Q" and c: "current_task s = Some c" "tasks s c = Some tc" and rs: "Q Ready_list = Some rs"
  obtains s' n rs' where "schedule s = Inr s'" and "rr_step (c, rs) = (n, rs')" and "current_task s' = Some n"
    and "uts_ok s' (Q(Ready_list \<mapsto> rs'))" and "timers s' = timers s" and "map_option ticks (tasks s' c) = Some (priority tc)"
    and "same_flags s s'" and "locks s' = locks s"
proof -
  obtain R where i: "timer_idle s Q" "wheel {} [] s R" "asleep_ok s Q" "uExitFlag s = 0"
    "\<forall>p t. tasks s p = Some t \<longrightarrow> stack_magic t = 0x19991120" using ok by (auto simp: uts_ok_def)
  have inv: "sched_inv s Q" using i(1) by (simp add: timer_idle_def)
  obtain s' n rs' where s': "schedule s = Inr s'" "rr_step (c, rs) = (n, rs')" "sched_inv s' (Q(Ready_list \<mapsto> rs'))"
    "current_task s' = Some n" "tasks s' = switch_tasks (tasks s) c (regs s) n" "locks s' = locks s"
    "kstate.more s' = kstate.more s" "task_all_nums s' = task_all_nums s"
    by (rule schedule_inv [OF inv c(1) rs])
  note same = more_fields [OF s'(7)]
  have set: "set (n # rs') = insert c (set rs)" "n = hd (rs @ [c])" "rs' = tl (rs @ [c])"
    using s'(2) by (cases rs; auto simp: rr_step_def)+
  have n: "n \<in> insert c (set rs)" using set(1) by auto
  obtain tn where tn: "tasks s n = Some tn"
    using n c(2) lists_ok_memberD [of s Q Ready_list rs n] rs i(1) by (auto simp: timer_idle_def sched_inv_def)
  have "stack_magic u = 0x19991120" if "tasks s' p = Some u" for p u
    using that i(5) c(2) tn by (auto simp: s'(5) switch_tasks_def Let_def preempted_def resumed_def split: if_split_asm)
  moreover have "asleep_ok s' (Q(Ready_list \<mapsto> rs'))"
    by (rule asleep_switch [OF i(3) _ s'(8) rs]) (use same s'(4) c(1) set(1) in auto)
  moreover have "wheel {} [] s' R" by (rule wheel_same [OF i(2) same_timers_more [OF s'(7)]])
  moreover have "map_option ticks (tasks s' c) = Some (priority tc)"
    using c(2) tn by (cases "n = c") (simp_all add: s'(5) switch_tasks_same switch_tasks_self)
  moreover have "same_flags s s'"
    using c(2) tn by (auto simp: s'(5) marked_def switch_tasks_def Let_def preempted_def resumed_def)
  ultimately show ?thesis
    using s' same i(4) timer_idle_switch [OF i(1) s'(3,6)] by (intro that [of s' n rs'] uts_ok_more) auto
qed

lemma tick_count:
  assumes ok: "uts_ok s Q" and c: "current_task s = Some c" "tasks s c = Some tc"
  obtains s' where "upd_task s (Some c) (\<lambda>t. t\<lparr>ticks := ticks t - 1\<rparr>) = Inr s'" and "current_task s' = Some c"
    and "uts_ok s' Q" and "timers s' = timers s" and "map_option ticks (tasks s' c) = Some (ticks tc - 1)"
    and "same_flags s s'" and "locks s' = locks s"
proof -
  let ?s = "s\<lparr>tasks := (tasks s)(c \<mapsto> tc\<lparr>ticks := ticks tc - 1\<rparr>)\<rparr>"
  obtain R where i: "timer_idle s Q" "wheel {} [] s R" "asleep_ok s Q" "uExitFlag s = 0"
    "\<forall>p t. tasks s p = Some t \<longrightarrow> stack_magic t = 0x19991120" using ok by (auto simp: uts_ok_def)
  have inv: "sched_inv s Q" using i(1) by (simp add: timer_idle_def)
  then have "lists_ok ?s Q"
  proof (elim sched_invE)
    fix k tk r a assume l: "lists_ok s Q" and al: "Q All_list = Some a" and r: "Q Ready_list = Some r"
    show ?thesis
    proof (rule lists_ok_step [OF l])
      show "\<exists>ts. tasks ?s q = Some ts \<and> list_status L (status ts)" if "Q L = Some xs" "q \<in> set xs" for L xs q
        using lists_ok_memberD [OF l that] c(2) by (cases "q = c") auto
    qed (use l c al r lists_ok_queues [OF l] lists_ok_known [OF l] in \<open>auto simp: lists_ok_def\<close>)
  qed
  moreover have "runs ?s Q c" using inv c by (auto simp: sched_inv_def runs_def)
  ultimately have "sched_inv ?s Q" unfolding sched_inv_def by blast
  then have "timer_idle ?s Q" using i(1) by (simp add: timer_idle_def)
  moreover have "wheel {} [] ?s R" by (rule wheel_same [OF i(2)]) (simp add: same_timers_def)
  moreover have "asleep_ok ?s Q" using i(3) by (simp add: asleep_ok_def sleeper_def)
  ultimately show ?thesis using i(4,5) c by (intro that [of ?s] uts_ok_more) (auto simp: marked_def split: if_split_asm)
qed

lemma tick_sleep:
  assumes ok: "uts_ok s Q" and c: "current_task s = Some c" and rs: "Q Ready_list = Some rs"
    and m: "timers s m = None" and due: "unat (uJiffies s) + unat ms < 2 ^ 32"
  obtains s1 where "create_timer s (Some Fn_collaborative_helper) (Task_param (Some c)) ms 0 (Some m) = Inr (Returned (Some m), s1)"
    and "rs = [] \<Longrightarrow> collaborative_schedule s1 = Inl Idle_spin"
    and "\<And>d rs'. rs = d # rs' \<Longrightarrow> \<exists>s'. collaborative_schedule s1 = Inr s' \<and> current_task s' = Some d
      \<and> uts_ok s' (Q(Ready_list \<mapsto> rs')) \<and> timers s' = (timers s)(m \<mapsto> alarm_of c (uJiffies s + ms)) \<and> same_flags s s'
      \<and> (\<forall>l. l \<noteq> Timer_lock \<longrightarrow> locks s' l = locks s l)"
proof -
  obtain R where i: "timer_idle s Q" "wheel {} [] s R" "asleep_ok s Q" "uExitFlag s = 0"
    "\<forall>p t. tasks s p = Some t \<longrightarrow> stack_magic t = 0x19991120" using ok by (auto simp: uts_ok_def)
  obtain s1 R1 where s1: "create_timer s (Some Fn_collaborative_helper) (Task_param (Some c)) ms 0 (Some m) = Inr (Returned (Some m), s1)"
    "timers s1 = (timers s)(m \<mapsto> \<lparr>uExpires = uJiffies s + ms, uPeriod = 0, timerFn = Fn_collaborative_helper, pParam = Task_param (Some c)\<rparr>)"
    "wheel {} [] s1 R1" "timer_idle s1 Q" "same_kernel Timer_lock s s1" "uExitFlag s1 = uExitFlag s"
    by (rule create_timer_wheel [OF i(1,2) m due])
  have k: "tasks s1 = tasks s" "current_task s1 = Some c" "task_all_nums s1 = task_all_nums s"
    using s1(5) c by (simp_all add: same_kernel_def)
  have inv: "sched_inv s1 Q" using s1(4) by (simp add: timer_idle_def)
  have go: "\<exists>s'. collaborative_schedule s1 = Inr s' \<and> current_task s' = Some d
      \<and> uts_ok s' (Q(Ready_list \<mapsto> rs')) \<and> timers s' = (timers s)(m \<mapsto> alarm_of c (uJiffies s + ms)) \<and> same_flags s s'
      \<and> (\<forall>l. l \<noteq> Timer_lock \<longrightarrow> locks s' l = locks s l)" if d: "rs = d # rs'" for d rs'
  proof -
    have rs': "Q Ready_list = Some (d # rs')" using rs d by simp
    obtain s' tc tn where s': "collaborative_schedule s1 = Inr s'" "sched_inv s' (Q(Ready_list \<mapsto> rs'))"
      "tasks s1 c = Some tc" "tasks s1 d = Some tn" "current_task s' = Some d"
      "tasks s' = (tasks s1)(d \<mapsto> resumed tn, c \<mapsto> tc\<lparr>task_context := regs s1\<rparr>)" "locks s' = locks s1"
      "kstate.more s' = kstate.more s1" "task_all_nums s' = task_all_nums s1"
      by (rule collaborative_schedule_inv [OF inv k(2) rs'])
    note same = more_fields [OF s'(8)]
    have cq: "c \<in> set (the (Q All_list))" "unqueued Q General_tag c" using inv k(2) by (auto simp: sched_inv_def runs_def)
    have dc: "d \<noteq> c" using unqueuedD [OF cq(2) rs'] by auto
    have t': "timers s' = (timers s)(m \<mapsto> alarm_of c (uJiffies s + ms))" using same s1(2) by (simp add: alarm_of_def)
    have "asleep_ok s' (Q(Ready_list \<mapsto> rs'))"
      by (rule asleep_new [OF i(3) t' m _ c s'(5) dc cq rs']) (use s'(9) k(3) in simp)
    moreover have "wheel {} [] s' R1" by (rule wheel_same [OF s1(3) same_timers_more [OF s'(8)]])
    moreover have "stack_magic u = 0x19991120" if "tasks s' p = Some u" for p u
      using that i(5) s'(3,4) k(1) by (auto simp: s'(6) resumed_def split: if_split_asm)
    ultimately have "uts_ok s' (Q(Ready_list \<mapsto> rs'))"
      using timer_idle_switch [OF s1(4) s'(2,7)] same s1(6) i(4) by (intro uts_ok_more) auto
    moreover have "same_flags s s'" using s'(3,4) k(1) dc by (auto simp: s'(6) marked_def resumed_def)
    moreover have "\<forall>l. l \<noteq> Timer_lock \<longrightarrow> locks s' l = locks s l" using s'(7) s1(5) by (simp add: same_kernel_def)
    ultimately show ?thesis using s'(1,5) t' by auto
  qed
  show ?thesis by (rule that [OF s1(1) _ go]) (use collaborative_schedule_idle [OF inv] rs in simp)
qed

text \<open>The time the alarm of a task counts from: the millisecond after the tick.\<close>

definition next_jiffy :: "32 word \<Rightarrow> 'a tstate_scheme \<Rightarrow> 32 word" where
  "next_jiffy now s = (if now < uJiffies s then uJiffies s else now + 1)"

text \<open>
  What a tick needs from its surroundings: callbacks that keep to themselves, a clock that has not
  wrapped and does not while timers wait, and a fresh block from \<open>malloc\<close>.
\<close>

definition tick_env :: "'a user_code \<Rightarrow> 32 word \<Rightarrow> nat \<Rightarrow> 'a tstate_scheme \<Rightarrow> bool" where
  "tick_env uc now m s \<longleftrightarrow> calm uc \<and> periods_fit now s \<and> unat now + 1 < 2 ^ 32 \<and> timers s m = None
     \<and> (\<forall>c tc. current_task s = Some c \<longrightarrow> tasks s c = Some tc \<longrightarrow> is_collaborative_schedule tc
          \<longrightarrow> unat (next_jiffy now s) + unat (sleep_millisecond tc) < 2 ^ 32)"

text \<open>The state after a tick that returns.\<close>

definition ticked ::
    "32 word \<Rightarrow> nat \<Rightarrow> 'a tstate_scheme \<Rightarrow> queue_view \<Rightarrow> task \<Rightarrow> task_struct \<Rightarrow> task list \<Rightarrow> 'a tstate_scheme \<Rightarrow> bool" where
  "ticked now m s Q c tc ws s' \<longleftrightarrow> (\<forall>p. marked s' p = (if p \<in> set ws then Some False else marked s p))
     \<and> (\<exists>next rest. tick_choice (is_collaborative_schedule tc) (ticks tc = 0) c (the (Q Ready_list) @ ws) = (next, rest)
        \<and> current_task s' = Some next \<and> uts_ok s' (Q(Ready_list \<mapsto> rest)))
     \<and> timers s' m = (if is_collaborative_schedule tc then Some (alarm_of c (next_jiffy now s + sleep_millisecond tc)) else None)
     \<and> (\<not> is_collaborative_schedule tc \<longrightarrow>
          map_option ticks (tasks s' c) = Some (if ticks tc = 0 then priority tc else ticks tc - 1))
     \<and> (\<forall>n t p. timers s n = Some t \<longrightarrow> sleeper s n = Some p \<longrightarrow> p \<in> set ws \<or> timers s' n = Some t \<and> now < uExpires t)
     \<and> dom (timers s') \<subseteq> insert m (dom (timers s)) \<and> (\<forall>l. l \<noteq> Timer_lock \<longrightarrow> locks s' l = locks s l)"

text \<open>The state when the timers are served, before the handler looks at the task that runs.\<close>

definition served :: "32 word \<Rightarrow> 'a tstate_scheme \<Rightarrow> queue_view \<Rightarrow> task list \<Rightarrow> 'a tstate_scheme \<Rightarrow> bool" where
  "served now s Q ws s1 \<longleftrightarrow> uts_ok s1 (ready_more Q ws) \<and> wakes_at now s ws
     \<and> current_task s1 = current_task s \<and> uJiffies s1 = next_jiffy now s
     \<and> (\<forall>p. marked s1 p = (if p \<in> set ws then Some False else marked s p))
     \<and> (\<forall>n t p. timers s n = Some t \<longrightarrow> sleeper s n = Some p \<longrightarrow> p \<in> set ws \<or> timers s1 n = Some t \<and> now < uExpires t)
     \<and> dom (timers s1) \<subseteq> dom (timers s) \<and> (\<forall>l. l \<noteq> Timer_lock \<longrightarrow> locks s1 l = locks s l)"

lemma service_served:
  assumes ok: "uts_ok s Q" and uc: "calm uc" and p: "periods_fit now s" and now: "unat now + 1 < 2 ^ 32"
    and c: "current_task s = Some c" "tasks s c = Some tc"
  obtains s1 ws where "service_timers uc s now = Inr (Returned (), s1)" and "served now s Q ws s1" and "tasks s1 c = Some tc"
proof -
  obtain s1 ws where s1: "service_timers uc s now = Inr (Returned (), s1)" "uts_ok s1 (ready_more Q ws)" "wakes_at now s ws"
    "tasks s1 = (\<lambda>p. if p \<in> set ws then map_option woken (tasks s p) else tasks s p)"
    "current_task s1 = current_task s" "task_all_nums s1 = task_all_nums s" "uJiffies s1 = next_jiffy now s"
    "\<forall>n t p. timers s n = Some t \<longrightarrow> sleeper s n = Some p \<longrightarrow> p \<in> set ws \<or> timers s1 n = Some t \<and> now < uExpires t"
    "dom (timers s1) \<subseteq> dom (timers s)" "\<forall>l. l \<noteq> Timer_lock \<longrightarrow> locks s1 l = locks s l"
    unfolding next_jiffy_def by (rule service_result [OF ok uc p now])
  have "c \<notin> set ws"
  proof
    assume "c \<in> set ws"
    then obtain n t where "sleeper s n = Some c" "timers s n = Some t" using s1(3) by (auto simp: wakes_at_def)
    then show False using sleeper_is_alarm [of s Q n t c] ok c(1) by (simp add: uts_ok_def)
  qed
  then have "tasks s1 c = Some tc" using s1(4) c(2) by simp
  have "sched_inv s1 (ready_more Q ws)" using s1(2) by (simp add: uts_ok_def timer_idle_def)
  then have live: "tasks s p \<noteq> None" if "p \<in> set ws" for p
    using lists_ok_memberD [of s1 "ready_more Q ws" Ready_list _ p] that s1(4) by (auto simp: sched_inv_def)
  have "marked s1 p = (if p \<in> set ws then Some False else marked s p)" for p
    using s1(4) live [of p] by (auto simp: marked_def)
  then have "served now s Q ws s1" unfolding served_def using s1(2,3,5,7-10) by simp
  then show ?thesis by (rule that [OF s1(1) _ \<open>tasks s1 c = Some tc\<close>])
qed

lemma served_ticked:
  assumes sv: "served now s Q ws s1" and rs: "Q Ready_list = Some rs" and m: "timers s m = None"
    and "tick_choice (is_collaborative_schedule tc) (ticks tc = 0) c (rs @ ws) = (n, rest)"
    and "current_task s' = Some n" and "uts_ok s' ((ready_more Q ws)(Ready_list \<mapsto> rest))"
    and "timers s' = (if is_collaborative_schedule tc
        then (timers s1)(m \<mapsto> alarm_of c (uJiffies s1 + sleep_millisecond tc)) else timers s1)"
    and "\<not> is_collaborative_schedule tc \<Longrightarrow>
        map_option ticks (tasks s' c) = Some (if ticks tc = 0 then priority tc else ticks tc - 1)"
    and "same_flags s1 s'" and "\<And>l. l \<noteq> Timer_lock \<Longrightarrow> locks s' l = locks s1 l"
  shows "ticked now m s Q c tc ws s'"
proof -
  have "timers s1 m = None" using sv m by (auto simp: served_def)
  moreover have "(ready_more Q ws)(Ready_list \<mapsto> rest) = Q(Ready_list \<mapsto> rest)" using rs by (simp add: ready_more_def)
  ultimately show ?thesis using assms unfolding ticked_def served_def by auto
qed

lemma tick_result:
  assumes ok: "uts_ok s Q" and env: "tick_env uc now m s" and c: "current_task s = Some c" "tasks s c = Some tc" and rs: "Q Ready_list = Some rs"
  obtains ws where "wakes_at now s ws"
    and "if is_collaborative_schedule tc \<and> rs @ ws = [] then uts_timer_handler uc s now (Some m) = Inl Idle_spin
      else \<exists>s'. uts_timer_handler uc s now (Some m) = Inr (Returned (), s') \<and> ticked now m s Q c tc ws s'"
proof -
  have a: "uts_ok s Q" "calm uc" "periods_fit now s" "unat now + 1 < 2 ^ 32" "timers s m = None"
    "is_collaborative_schedule tc \<longrightarrow> unat (next_jiffy now s) + unat (sleep_millisecond tc) < 2 ^ 32" using ok env c by (auto simp: tick_env_def)
  obtain s1 ws where s1: "service_timers uc s now = Inr (Returned (), s1)" "served now s Q ws s1" "tasks s1 c = Some tc"
    by (rule service_served [OF a(1-4) c])
  have ok1: "uts_ok s1 (ready_more Q ws)" and ws: "wakes_at now s ws" and c1: "current_task s1 = Some c"
    and m: "timers s1 m = None" and j: "uJiffies s1 = next_jiffy now s"
    using s1(2) c(1) a(5) by (auto simp: served_def)
  have rs1: "ready_more Q ws Ready_list = Some (rs @ ws)" using rs by simp
  note fin = served_ticked [OF s1(2) rs a(5)]
  have magic: "stack_magic tc = 0x19991120" using a(1) c(2) by (simp add: uts_ok_def)
  note run = uts_timer_handler_def c c1 s1(1,3) magic
  consider "is_collaborative_schedule tc" | "\<not> is_collaborative_schedule tc" "ticks tc = 0"
    | "\<not> is_collaborative_schedule tc" "ticks tc \<noteq> 0" by blast
  then show ?thesis
  proof cases
    case 1
    have due: "unat (uJiffies s1) + unat (sleep_millisecond tc) < 2 ^ 32" using a(6) j 1 by simp
    obtain s2 where s2: "create_timer s1 (Some Fn_collaborative_helper) (Task_param (Some c)) (sleep_millisecond tc) 0 (Some m)
        = Inr (Returned (Some m), s2)" "rs @ ws = [] \<Longrightarrow> collaborative_schedule s2 = Inl Idle_spin"
      "\<And>d rs'. rs @ ws = d # rs' \<Longrightarrow> \<exists>s'. collaborative_schedule s2 = Inr s' \<and> current_task s' = Some d
        \<and> uts_ok s' ((ready_more Q ws)(Ready_list \<mapsto> rs')) \<and> timers s' = (timers s1)(m \<mapsto> alarm_of c (uJiffies s1 + sleep_millisecond tc))
        \<and> same_flags s1 s' \<and> (\<forall>l. l \<noteq> Timer_lock \<longrightarrow> locks s' l = locks s1 l)"
      using tick_sleep [OF ok1 c1 rs1 m due] by blast
    have h: "uts_timer_handler uc s now (Some m) = bnd (collaborative_schedule s2) (\<lambda>s. Inr (Returned (), s))"
      using 1 s2(1) by (simp add: run)
    show ?thesis
    proof (cases "rs @ ws")
      case Nil
      then show ?thesis using h s2(2) 1 by (intro that [OF ws]) simp
    next
      case (Cons d rs')
      from s2(3) [OF this] obtain s' where s': "collaborative_schedule s2 = Inr s'" "current_task s' = Some d"
        "uts_ok s' ((ready_more Q ws)(Ready_list \<mapsto> rs'))" "timers s' = (timers s1)(m \<mapsto> alarm_of c (uJiffies s1 + sleep_millisecond tc))"
        "same_flags s1 s'" "\<forall>l. l \<noteq> Timer_lock \<longrightarrow> locks s' l = locks s1 l" by blast
      have "ticked now m s Q c tc ws s'" by (rule fin [OF _ s'(2,3)]) (use 1 Cons s' in \<open>simp_all add: tick_choice_def\<close>)
      then show ?thesis using h s'(1) Cons by (intro that [OF ws]) simp
    qed
  next
    case 2
    obtain s' n rs' where s': "schedule s1 = Inr s'" "rr_step (c, rs @ ws) = (n, rs')" "current_task s' = Some n"
      "uts_ok s' ((ready_more Q ws)(Ready_list \<mapsto> rs'))" "timers s' = timers s1" "map_option ticks (tasks s' c) = Some (priority tc)"
      "same_flags s1 s'" "locks s' = locks s1"
      by (rule tick_preempt [OF ok1 c1 s1(3) rs1])
    have "ticked now m s Q c tc ws s'" by (rule fin [OF _ s'(3,4)]) (use 2 s' in \<open>simp_all add: tick_choice_def\<close>)
    then show ?thesis using 2 s'(1) by (intro that [OF ws]) (simp add: run)
  next
    case 3
    obtain s' where s': "upd_task s1 (Some c) (\<lambda>t. t\<lparr>ticks := ticks t - 1\<rparr>) = Inr s'" "current_task s' = Some c"
      "uts_ok s' (ready_more Q ws)" "timers s' = timers s1" "map_option ticks (tasks s' c) = Some (ticks tc - 1)"
      "same_flags s1 s'" "locks s' = locks s1"
      by (rule tick_count [OF ok1 c1 s1(3)])
    have "(ready_more Q ws)(Ready_list \<mapsto> rs @ ws) = ready_more Q ws" using rs by (simp add: ready_more_def)
    then have "uts_ok s' ((ready_more Q ws)(Ready_list \<mapsto> rs @ ws))" using s'(3) by (simp only:)
    then have "ticked now m s Q c tc ws s'" by (intro fin [OF _ s'(2)]) (use 3 s' in \<open>simp_all add: tick_choice_def\<close>)
    then show ?thesis using 3 s'(1) by (intro that [OF ws]) (simp add: run)
  qed
qed

text \<open>
  C5. One tick of the user scheduler's clock, on every branch: the timers wake each sleeper whose time
  has come (with a granularity of one nobody else) at the end of the ready queue; then a task that
  asked to sleep gets a timer for the time it asked for and the head of the ready queue runs; one
  whose time slice is used up goes behind all others; any other goes on with one tick less. The
  invariant holds again, and a sleeper that was not woken still has its timer, due in the
  future. When a task goes to sleep and nobody is ready, the handler never returns.
\<close>

theorem uts_tick_spec:
  assumes "uts_ok s Q" and "tick_env uc now m s" and "current_task s = Some c" and "tasks s c = Some tc" and "Q Ready_list = Some rs"
  shows "\<exists>ws. wakes_at now s ws
    \<and> (if is_collaborative_schedule tc \<and> rs @ ws = [] then uts_timer_handler uc s now (Some m) = Inl Idle_spin
       else \<exists>s'. uts_timer_handler uc s now (Some m) = Inr (Returned (), s') \<and> ticked now m s Q c tc ws s')"
  by (rule tick_result [OF assms]) blast

text \<open>
  C20. Sleepers wake early: with the granularity of ten that the library sets, a task that asks for
  256 up to 2559 milliseconds is woken after its time modulo 256, because \<open>add_timer\<close> divides the time left by the
  granularity to choose the level but not to choose the element. The task gets its timer and leaves the
  processor as the clock handler has it; the timers are then served up to that time, which is before the timer is due:
  the call returns, the timer is gone, the mark the sleeper waits on is cleared, and the sleeper is ready.
  A task that sleeps for a second is woken after 232 milliseconds.
\<close>

theorem early_expiry:
  fixes ms :: "32 word"
  assumes ok: "uts_ok s Q" and c: "current_task s = Some c" and rs: "Q Ready_list = Some (d # rs)"
    and m: "timers s m = None" and uc: "calm uc" and g: "clock_granularity s = 10"
    and ms: "256 \<le> ms" "ms < 2560" "unat (uJiffies s) + unat ms < 2 ^ 32" and p: "periods_fit (uJiffies s + ms mod 256) s"
  shows "\<exists>s1 s2 s3 ws. create_timer s (Some Fn_collaborative_helper) (Task_param (Some c)) ms 0 (Some m) = Inr (Returned (Some m), s1)
    \<and> collaborative_schedule s1 = Inr s2 \<and> current_task s2 = Some d
    \<and> timers s2 m = Some (alarm_of c (uJiffies s + ms)) \<and> uJiffies s + ms mod 256 < uJiffies s + ms
    \<and> run_timer uc (uJiffies s + ms mod 256) s2 = Inr (Returned (), s3)
    \<and> timers s3 m = None \<and> marked s3 c = Some False \<and> c \<in> set ws \<and> sched_inv s3 (Q(Ready_list \<mapsto> rs @ ws))"
proof -
  let ?now = "uJiffies s + ms mod 256"
  note slot = early_slot [OF ms]
  obtain R where i: "timer_idle s Q" "wheel {} [] s R" using ok by (auto simp: uts_ok_def)
  obtain s1 R1 where s1: "create_timer s (Some Fn_collaborative_helper) (Task_param (Some c)) ms 0 (Some m) = Inr (Returned (Some m), s1)"
    "timers s1 = (timers s)(m \<mapsto> alarm_of c (uJiffies s + ms))" "uJiffies s1 = uJiffies s" "wheel {} [] s1 R1" "timer_idle s1 Q"
    "same_kernel Timer_lock s s1" "\<exists>xs. R1 (Slot 1 (unat ?now mod 256)) = Some xs \<and> m \<in> set xs"
    using create_timer_wheel [OF i m ms(3)] unfolding g slot(1) alarm_of_def by metis
  obtain s2 where s2: "collaborative_schedule s1 = Inr s2" "current_task s2 = Some d" "uts_ok s2 (Q(Ready_list \<mapsto> rs))"
    "timers s2 = (timers s)(m \<mapsto> alarm_of c (uJiffies s + ms))"
    using tick_sleep [OF ok c rs m ms(3)] s1(1) by (metis Inr_inject prod.inject)
  have "current_task s1 = Some c" "sched_inv s1 Q" using s1(5,6) c by (simp_all add: same_kernel_def timer_idle_def)
  then have more: "kstate.more s2 = kstate.more s1"
    using collaborative_schedule_inv [of s1 Q c d rs] rs s2(1) by (metis Inr_inject)
  have w2: "wheel {} [] s2 R1" by (rule wheel_same [OF s1(4) same_timers_more [OF more]])
  have "uJiffies s \<le> ?now" by (simp add: word_le_nat_alt slot(2))
  then have l: "leaves_by ?now m s2 R1"
    using s1(3,7) s2(4) more_fields [OF more] by (auto simp: leaves_by_def alarm_of_def)
  have nb: "unat ?now + 1 < 2 ^ 32"
  proof -
    have "256 \<le> unat ms" using ms(1) by (simp add: word_le_nat_alt)
    moreover have "unat ms mod 256 < 256" by simp
    ultimately show ?thesis unfolding slot(2) using ms(3) by linarith
  qed
  have p2: "periods_fit ?now s2" using p s2(4) nb by (auto simp: periods_fit_def alarm_of_def)
  have ok2: "timer_idle s2 (Q(Ready_list \<mapsto> rs))" "asleep_ok s2 (Q(Ready_list \<mapsto> rs))" using s2(3) by (simp_all add: uts_ok_def)
  have q: "quiet_user uc" using uc by (simp add: calm_def)
  obtain s3 ws where s3: "run_timer uc ?now s2 = Inr (Returned (), s3)" "timer_idle s3 (ready_more (Q(Ready_list \<mapsto> rs)) ws)"
    "tasks s3 = (\<lambda>p. if p \<in> set ws then map_option woken (tasks s2 p) else tasks s2 p)"
    "\<forall>n t p. timers s2 n = Some t \<longrightarrow> sleeper s2 n = Some p \<longrightarrow> p \<in> set ws \<or> timers s3 n = Some t \<and> ?now < uExpires t"
    by (rule run_timer_wakes [OF ok2(1) w2 ok2(2) uc p2 nb])
  have gone: "timers s3 m = None" by (rule run_timer_gone [OF ok2(1) w2 q l p2 nb s3(1)])
  have a: "timers s2 m = Some (alarm_of c (uJiffies s + ms))" using s2(4) by simp
  have cw: "c \<in> set ws" using s3(4) [rule_format, OF a sleeper_alarm [OF a]] gone by simp
  have inv: "sched_inv s3 (Q(Ready_list \<mapsto> rs @ ws))" using s3(2) by (simp add: timer_idle_def ready_more_def)
  then have "tasks s3 c \<noteq> None"
    using lists_ok_memberD [of s3 "Q(Ready_list \<mapsto> rs @ ws)" Ready_list "rs @ ws" c] cw by (auto simp: sched_inv_def)
  then have "marked s3 c = Some False" using cw by (auto simp: marked_def s3(3))
  then show ?thesis using s1(1) s2(1,2) a slot(3) s3(1) gone cw inv by blast
qed

end
