(* ===== verification/HookProps.thy ===== *)
theory HookProps
  imports Hook Demo
begin

text \<open>
  What the hooked library calls do to a task: the flags it sees and the way it sleeps.
\<close>

lemma create_attributes:
  assumes "0 \<le> fd" and "fd < attributes_length"
  obtains A' a where "create_fd_attributes A True fd = Inr (True, A')" and "A' fd = Some a"
proof (cases "A fd")
  case None
  then show ?thesis using that assms by (simp add: create_fd_attributes_def)
next
  case (Some a)
  then show ?thesis using that assms by (simp add: create_fd_attributes_def)
qed

lemma nonblock_survives:
  fixes M :: int
  assumes "M AND O_NONBLOCK = O_NONBLOCK"
  shows "((f AND NOT M) OR ((arg OR O_NONBLOCK) AND M)) AND O_NONBLOCK = O_NONBLOCK"
proof (rule bit_eqI)
  fix n
  have "bit (M AND O_NONBLOCK) n = bit O_NONBLOCK n" by (simp only: assms)
  then show "bit (((f AND NOT M) OR ((arg OR O_NONBLOCK) AND M)) AND O_NONBLOCK) n = bit O_NONBLOCK n"
    by (auto simp: bit_simps)
qed

text \<open>
  C38. Flags a hooked task sets on a descriptor: the C library gets them with \<open>O_NONBLOCK\<close> added, the
  table remembers the task's own, but \<open>F_GETFL\<close> gives back what the C library has, so a task that
  did not set \<open>O_NONBLOCK\<close> reads it; it is hidden from \<open>F_GETFD\<close>, which reports other flags. Of the C
  library the theorem uses what its manual says: \<open>F_GETFL\<close> returns the access mode and the status
  flags, and a successful \<open>F_SETFL\<close> replaces those of a set \<open>M\<close>, \<open>O_NONBLOCK\<close> among them, and keeps the
  others. A descriptor beyond the table is a wild access whatever the command is.
\<close>

theorem hook_flags_visible:
  assumes hook: "current_is_hook k = Inr True" and fd: "0 \<le> fd" "fd < attributes_length"
    and get: "\<And>os. real fd F_GETFL None os = (flags os, os)"
    and set: "real fd F_SETFL (Some (arg OR O_NONBLOCK)) os = (0, os')"
    and kept: "flags os' = (flags os AND NOT M) OR ((arg OR O_NONBLOCK) AND M)" and M: "M AND O_NONBLOCK = O_NONBLOCK"
  shows "\<exists>A'. hook_fcntl real k True A fd F_SETFL arg os = Inr (0, A', os')
    \<and> map_option fd_flag (A' fd) = Some arg
    \<and> hook_fcntl real k True A' fd F_GETFL 0 os' = Inr (flags os', A', os')
    \<and> flags os' AND O_NONBLOCK = O_NONBLOCK
    \<and> (arg AND O_NONBLOCK = 0 \<longrightarrow> hook_fcntl real k True A' fd F_GETFD 0 os'
        = Inr (fst (real fd F_GETFD None os') AND NOT O_NONBLOCK, A', snd (real fd F_GETFD None os')))
    \<and> hook_fcntl real k True A (attributes_length + fd) cmd arg os = Inl Wild_deref"
proof -
  obtain A1 a where A1: "create_fd_attributes A True fd = Inr (True, A1)" "A1 fd = Some a"
    by (rule create_attributes [OF fd])
  let ?A = "set_fd_flag A1 fd arg"
  have A2: "?A fd = Some (a\<lparr>fd_flag := arg\<rparr>)" using A1(2) by (simp add: set_fd_flag_def)
  then have c: "create_fd_attributes ?A True fd = Inr (True, ?A)" using fd by (simp add: create_fd_attributes_def)
  have "hook_fcntl real k True ?A fd F_GETFD 0 os'
      = Inr (fst (real fd F_GETFD None os') AND NOT O_NONBLOCK, ?A, snd (real fd F_GETFD None os'))" if "arg AND O_NONBLOCK = 0"
    using A2 c fd that by (simp add: hook_fcntl_def split: prod.split)
  moreover have "flags os' AND O_NONBLOCK = O_NONBLOCK" unfolding kept by (rule nonblock_survives [OF M])
  moreover have "create_fd_attributes A True (attributes_length + fd) = Inl Wild_deref"
    using fd by (simp add: create_fd_attributes_def attributes_length_def check_def)
  ultimately show ?thesis
    using A1 A2 c fd hook set get by (intro exI [of _ ?A]) (simp add: hook_fcntl_def attributes_length_def)
qed

text \<open>
  A C library whose state is the flags of each descriptor: \<open>F_SETFL\<close> changes \<open>O_APPEND\<close> and
  \<open>O_NONBLOCK\<close> and ignores the rest, so the access mode stays.
\<close>

definition flag_store :: "(int \<Rightarrow> int) real_fcntl" where
  "flag_store fd cmd arg os =
     (case cmd of
        F_SETFL \<Rightarrow> (0, os(fd := (os fd AND NOT 0xC00) OR (the arg AND 0xC00)))
      | F_GETFL \<Rightarrow> (os fd, os)
      | _ \<Rightarrow> (0, os))"

definition hooked_demo :: kstate where
  "hooked_demo = demo3\<lparr>tasks := [0 \<mapsto> (demo_task 0 TASK_RUNNING)\<lparr>is_hook := True\<rparr>]\<rparr>"

text \<open>A descriptor opened for reading and writing (2); the task asks for \<open>O_APPEND\<close> (0x400).\<close>

theorem hook_flags_visible_witness:
  "\<exists>A. hook_fcntl flag_store hooked_demo True Map.empty 5 F_SETFL 0x400 (\<lambda>_. 2) = Inr (0, A, (\<lambda>_. 2)(5 := 0xC02))
    \<and> map_option fd_flag (A 5) = Some 0x400
    \<and> hook_fcntl flag_store hooked_demo True A 5 F_GETFL 0 ((\<lambda>_. 2)(5 := 0xC02)) = Inr (0xC02, A, (\<lambda>_. 2)(5 := 0xC02))"
proof -
  have "current_is_hook hooked_demo = Inr True"
    by (simp add: current_is_hook_def get_task_def hooked_demo_def)
  from hook_flags_visible [OF this, of 5 flag_store "\<lambda>os. os 5" "0x400" "\<lambda>_. 2" "(\<lambda>_. 2)(5 := 0xC02)" "0xC00" Map.empty F_GETFL]
  show ?thesis by (simp add: flag_store_def O_NONBLOCK_def attributes_length_def) blast
qed

lemma narrow_sum: "(ucast (ucast (a :: 32 word) + word_of_int i :: 64 word) :: 32 word) = a + word_of_int i"
  by transfer (simp add: take_bit_eq_mod mod_mod_cancel mod_add_left_eq)

text \<open>
  Sleeping: \<open>sleep\<close> always marks the running task for a cooperative switch, hooked or not (the
  test is on the address of the function \<open>current_is_hook\<close>); \<open>usleep\<close> and \<open>nanosleep\<close> mark a hooked task
  only, with the time cut to whole milliseconds. Nothing else of the state changes.
\<close>

lemma hook_sleep_spec:
  assumes c: "current_task k = Some c" and t: "tasks k c = Some t" and ms: "0 \<le> sint ns"
  shows "hook_sleep k True found s = Inr (None, k\<lparr>tasks := (tasks k)(c \<mapsto>
        t\<lparr>is_collaborative_schedule := True, sleep_millisecond := s * 1000\<rparr>)\<rparr>)
    \<and> hook_usleep k ret us = Inr (if is_hook t then (None, k\<lparr>tasks := (tasks k)(c \<mapsto>
        t\<lparr>is_collaborative_schedule := True, sleep_millisecond := us div 1000\<rparr>)\<rparr>) else (Some ret, k))
    \<and> hook_nanosleep k ret sec ns = Inr (if is_hook t then (None, k\<lparr>tasks := (tasks k)(c \<mapsto>
        t\<lparr>is_collaborative_schedule := True,
          sleep_millisecond := ucast (sec * 1000) + word_of_int (sint ns div 1000000)\<rparr>)\<rparr>) else (Some ret, k))"
proof -
  have "c_div (sint ns) 1000000 = sint ns div 1000000" using ms by (simp add: c_div_nonneg)
  then show ?thesis
    using c t by (simp add: hook_sleep_def hook_usleep_def hook_nanosleep_def mark_sleeper_def upd_task_def
        current_is_hook_def get_task_def narrow_sum)
qed

end
