(* ===== verification/Sleeping.thy ===== *)
theory Sleeping
  imports ClockTick HookProps
begin

text \<open>
  Sleeping across the components: hook.c marks the task, the clock handler turns the mark into a
  timer and switches the task away, the timing wheel calls \<open>collaborative_schedule_helper\<close> when the
  time has come. Histories of computing, sleeping and ticking; the handlers of the user scheduler
  and of src/Thread as two instances of one contract.
\<close>

section \<open>Histories\<close>

text \<open>
  What happens between the start and a task's end: the running task computes, it calls \<open>sleep\<close>, the
  clock signal is handled. \<open>H\<close> is the handler, \<open>E\<close> what it needs from its surroundings.
\<close>

datatype os_event = Compute sigcontext | Call_sleep "32 word" | Tick "32 word" nat

type_synonym 'a tick_handler = "32 word \<Rightarrow> nat \<Rightarrow> 'a tstate_scheme \<Rightarrow> (unit flow \<times> 'a tstate_scheme) res"

inductive os_step ::
    "(32 word \<Rightarrow> nat \<Rightarrow> 'a tstate_scheme \<Rightarrow> bool) \<Rightarrow> 'a tick_handler \<Rightarrow> 'a tstate_scheme \<Rightarrow> os_event \<Rightarrow> 'a tstate_scheme \<Rightarrow> bool"
  for E H where
  compute: "os_step E H s (Compute r) (s\<lparr>regs := r\<rparr>)"
| call_sleep: "hook_sleep s True True sec = Inr (v, s') \<Longrightarrow> os_step E H s (Call_sleep sec) s'"
| tick: "E now m s \<Longrightarrow> H now m s = Inr (fl, s') \<Longrightarrow> os_step E H s (Tick now m) s'"

inductive_cases compute_step: "os_step E H s (Compute r) s'"
inductive_cases sleep_step: "os_step E H s (Call_sleep sec) s'"
inductive_cases tick_step: "os_step E H s (Tick now m) s'"

text \<open>A history with the state after each event.\<close>

inductive os_path ::
    "(32 word \<Rightarrow> nat \<Rightarrow> 'a tstate_scheme \<Rightarrow> bool) \<Rightarrow> 'a tick_handler \<Rightarrow> 'a tstate_scheme \<Rightarrow> (os_event \<times> 'a tstate_scheme) list \<Rightarrow> bool"
  for E H where
  stop: "os_path E H s []"
| more: "os_step E H s ev s1 \<Longrightarrow> os_path E H s1 xs \<Longrightarrow> os_path E H s ((ev, s1) # xs)"

text \<open>Changing registers and marks of the running task.\<close>

lemma uts_ok_regs: "uts_ok s Q \<Longrightarrow> uts_ok (s\<lparr>regs := r\<rparr>) Q"
  using sched_inv_cong [of "s\<lparr>regs := r\<rparr>" s Q] wheel_same [of "{}" "[]" s _ "s\<lparr>regs := r\<rparr>"]
  by (auto simp: uts_ok_def timer_idle_def asleep_ok_def sleeper_def same_timers_def)

lemma uts_ok_mark:
  assumes ok: "uts_ok s Q" and c: "tasks s c = Some tc" and t: "status t = status tc" "stack_magic t = stack_magic tc"
  shows "uts_ok (s\<lparr>tasks := (tasks s)(c \<mapsto> t)\<rparr>) Q"
proof -
  let ?s = "s\<lparr>tasks := (tasks s)(c \<mapsto> t)\<rparr>"
  obtain R where i: "timer_idle s Q" "wheel {} [] s R" "asleep_ok s Q" "uExitFlag s = 0"
    "\<forall>p t. tasks s p = Some t \<longrightarrow> stack_magic t = 0x19991120" using ok by (auto simp: uts_ok_def)
  have inv: "sched_inv s Q" using i(1) by (simp add: timer_idle_def)
  obtain d where d: "lists_ok s Q" "runs s Q d" using inv by (auto simp: sched_inv_def)
  have "lists_ok ?s Q"
  proof (rule lists_ok_step [OF d(1)])
    show "\<exists>ts. tasks ?s q = Some ts \<and> list_status L (status ts)" if "Q L = Some xs" "q \<in> set xs" for L xs q
      using lists_ok_memberD [OF d(1) that] c t by (cases "q = c") auto
  qed (use d(1) c lists_ok_queues [OF d(1)] lists_ok_known [OF d(1)] in \<open>auto simp: lists_ok_def\<close>)
  moreover have "runs ?s Q d" using d(2) c t by (auto simp: runs_def)
  ultimately have "sched_inv ?s Q" unfolding sched_inv_def by blast
  then have "timer_idle ?s Q" using i(1) by (simp add: timer_idle_def)
  moreover have "wheel {} [] ?s R" by (rule wheel_same [OF i(2)]) (simp add: same_timers_def)
  moreover have "asleep_ok ?s Q" using i(3) by (simp add: asleep_ok_def sleeper_def)
  ultimately show ?thesis using i(4,5) c t by (intro uts_ok_more) (auto split: if_split_asm)
qed

text \<open>A call of \<open>sleep\<close> marks the running task and changes nothing else.\<close>

lemma sleep_step_state:
  assumes "uts_ok s Q" and "os_step E H s (Call_sleep sec) s1"
  obtains c tc where "current_task s = Some c" and "tasks s c = Some tc"
    and "s1 = s\<lparr>tasks := (tasks s)(c \<mapsto> tc\<lparr>is_collaborative_schedule := True, sleep_millisecond := sec * 1000\<rparr>)\<rparr>"
    and "uts_ok s1 Q"
proof -
  obtain c tc where c: "current_task s = Some c" "tasks s c = Some tc"
    using assms(1) by (auto simp: uts_ok_def timer_idle_def elim!: sched_invE)
  let ?s = "s\<lparr>tasks := (tasks s)(c \<mapsto> tc\<lparr>is_collaborative_schedule := True, sleep_millisecond := sec * 1000\<rparr>)\<rparr>"
  have "s1 = ?s" using assms(2) c by (auto elim!: sleep_step simp: hook_sleep_def mark_sleeper_def)
  moreover have "uts_ok ?s Q" using uts_ok_mark [OF assms(1) c(2)] by simp
  ultimately show ?thesis using that [OF c] by simp
qed

section \<open>Two clocks\<close>

text \<open>
  The contract of a clock handler: it keeps the invariant, and a sleeper keeps its alarm until its mark
  is cleared.
\<close>

locale clock_handler =
  fixes E :: "32 word \<Rightarrow> nat \<Rightarrow> 'a tstate_scheme \<Rightarrow> bool" and H :: "'a tick_handler"
  assumes keeps: "uts_ok s Q \<Longrightarrow> E now m s \<Longrightarrow> H now m s = Inr (fl, s') \<Longrightarrow> \<exists>Q'. uts_ok s' Q'"
    and alarms: "uts_ok s Q \<Longrightarrow> E now m s \<Longrightarrow> H now m s = Inr (fl, s') \<Longrightarrow> timers s n = Some (alarm_of p e)
      \<Longrightarrow> timers s' n = Some (alarm_of p e) \<or> marked s' p = Some False"
begin

lemma step_ok: "uts_ok s Q \<Longrightarrow> os_step E H s ev s1 \<Longrightarrow> \<exists>Q1. uts_ok s1 Q1"
  by (cases ev) (auto elim!: compute_step tick_step intro: uts_ok_regs keeps sleep_step_state)

lemma step_alarm:
  assumes "uts_ok s Q" and "os_step E H s ev s1" and "timers s n = Some (alarm_of p e)"
  shows "timers s1 n = Some (alarm_of p e) \<or> marked s1 p = Some False"
proof (cases ev)
  case (Compute r)
  then show ?thesis using assms(2,3) by (auto elim: compute_step)
next
  case (Call_sleep sec)
  then obtain T where "s1 = s\<lparr>tasks := T\<rparr>" using sleep_step_state [OF assms(1)] assms(2) by metis
  then show ?thesis using assms(3) by simp
next
  case (Tick now m)
  then obtain fl where "E now m s" "H now m s = Inr (fl, s1)" using assms(2) by (auto elim: tick_step)
  then show ?thesis by (rule alarms [OF assms(1) _ _ assms(3)])
qed

lemma path_ok: "os_path E H s xs \<Longrightarrow> uts_ok s Q \<Longrightarrow> (ev, s') \<in> set xs \<Longrightarrow> \<exists>Q'. uts_ok s' Q'"
proof (induction arbitrary: Q rule: os_path.induct)
  case (more s ev s1 xs)
  obtain Q1 where "uts_ok s1 Q1" using step_ok [OF more.prems(1) more.hyps(1)] by blast
  then show ?case using more.IH more.prems(2) by auto
qed simp

end

text \<open>A clock that wakes each sleeper whose time has come.\<close>

locale punctual_clock = clock_handler +
  assumes punctual: "uts_ok s Q \<Longrightarrow> E now m s \<Longrightarrow> H now m s = Inr (fl, s') \<Longrightarrow> timers s n = Some (alarm_of p e)
    \<Longrightarrow> e \<le> now \<Longrightarrow> marked s' p = Some False"
begin

lemma path_wakes:
  "os_path E H s xs \<Longrightarrow> uts_ok s Q \<Longrightarrow> timers s n = Some (alarm_of p e) \<Longrightarrow> (Tick now m, s') \<in> set xs \<Longrightarrow> e \<le> now
    \<Longrightarrow> \<exists>(ev, s2) \<in> set xs. marked s2 p = Some False"
proof (induction arbitrary: Q rule: os_path.induct)
  case (more s ev s1 xs)
  obtain Q1 where Q1: "uts_ok s1 Q1" using step_ok [OF more.prems(1) more.hyps(1)] by blast
  show ?case
  proof (cases "marked s1 p = Some False")
    case False
    have a: "timers s1 n = Some (alarm_of p e)" using step_alarm [OF more.prems(1) more.hyps(1) more.prems(2)] False by simp
    have "ev \<noteq> Tick now m"
      using more.hyps(1) punctual [OF more.prems(1) _ _ more.prems(2,4)] False by (auto elim!: tick_step)
    then have "(Tick now m, s') \<in> set xs" using more.prems(3) by auto
    with more.IH [OF Q1 a this more.prems(4)] show ?thesis by auto
  qed auto
qed simp

end

text \<open>A clock that never looks at the timers.\<close>

locale deaf_clock = clock_handler +
  assumes deaf: "uts_ok s Q \<Longrightarrow> E now m s \<Longrightarrow> H now m s = Inr (fl, s') \<Longrightarrow> timers s n = Some (alarm_of p e)
    \<Longrightarrow> timers s' n = Some (alarm_of p e)"
begin

lemma path_sleeps:
  "os_path E H s xs \<Longrightarrow> uts_ok s Q \<Longrightarrow> timers s n = Some (alarm_of p e) \<Longrightarrow> (ev, s') \<in> set xs
    \<Longrightarrow> timers s' n = Some (alarm_of p e) \<and> current_task s' \<noteq> Some p"
proof (induction arbitrary: Q rule: os_path.induct)
  case (more s ev1 s1 xs)
  obtain Q1 where Q1: "uts_ok s1 Q1" using step_ok [OF more.prems(1) more.hyps(1)] by blast
  have a: "timers s1 n = Some (alarm_of p e)"
  proof (cases ev1)
    case (Compute r)
    then show ?thesis using more.hyps(1) more.prems(2) by (auto elim: compute_step)
  next
    case (Call_sleep sec)
    then obtain T where "s1 = s\<lparr>tasks := T\<rparr>" using sleep_step_state [OF more.prems(1)] more.hyps(1) by metis
    then show ?thesis using more.prems(2) by simp
  next
    case (Tick now m)
    then show ?thesis using deaf [OF more.prems(1) _ _ more.prems(2)] more.hyps(1) by (auto elim!: tick_step)
  qed
  have "current_task s1 \<noteq> Some p"
    using sleeper_is_alarm [OF _ a sleeper_alarm [OF a]] Q1 by (auto simp: uts_ok_def)
  then show ?case using more.IH [OF Q1 a] more.prems(3) a by auto
qed simp

end

section \<open>The clock of the user scheduler\<close>

definition uts_clock :: "'a user_code \<Rightarrow> 'a tick_handler" where
  "uts_clock uc now m s = uts_timer_handler uc s now (Some m)"

lemma uts_clock_ticked:
  assumes ok: "uts_ok s Q" and env: "tick_env uc now m s" and h: "uts_clock uc now m s = Inr (fl, s')"
  obtains c tc ws where "ticked now m s Q c tc ws s'"
proof -
  obtain c tc rs where c: "current_task s = Some c" "tasks s c = Some tc" "Q Ready_list = Some rs"
    using ok by (auto simp: uts_ok_def timer_idle_def elim!: sched_invE)
  obtain ws where "if is_collaborative_schedule tc \<and> rs @ ws = [] then uts_timer_handler uc s now (Some m) = Inl Idle_spin
      else \<exists>s'. uts_timer_handler uc s now (Some m) = Inr (Returned (), s') \<and> ticked now m s Q c tc ws s'"
    by (rule tick_result [OF ok env c])
  then show ?thesis using h that by (auto simp: uts_clock_def split: if_split_asm)
qed

lemma uts_clock_alarm:
  assumes "uts_ok s Q" and "tick_env uc now m s" and "uts_clock uc now m s = Inr (fl, s')" and a: "timers s n = Some (alarm_of p e)"
  shows "timers s' n = Some (alarm_of p e) \<and> now < e \<or> marked s' p = Some False"
proof -
  obtain c tc ws where t: "ticked now m s Q c tc ws s'" by (rule uts_clock_ticked [OF assms(1-3)])
  then have "p \<in> set ws \<or> timers s' n = Some (alarm_of p e) \<and> now < uExpires (alarm_of p e)"
    using a sleeper_alarm [OF a] unfolding ticked_def by blast
  then show ?thesis using t by (auto simp: ticked_def alarm_of_def)
qed

interpretation uts: punctual_clock "tick_env uc" "uts_clock uc" for uc :: "'a user_code"
proof
  fix s s' :: "'a tstate_scheme" and Q now m fl n p e
  assume a: "uts_ok s Q" "tick_env uc now m s" "uts_clock uc now m s = Inr (fl, s')"
  show "\<exists>Q'. uts_ok s' Q'" by (rule uts_clock_ticked [OF a]) (auto simp: ticked_def)
  assume t: "timers s n = Some (alarm_of p e)"
  show "timers s' n = Some (alarm_of p e) \<or> marked s' p = Some False" using uts_clock_alarm [OF a t] by blast
  show "marked s' p = Some False" if "e \<le> now" using uts_clock_alarm [OF a t] that by auto
qed

text \<open>
  C6. No sleeper is forgotten: on every history of the user scheduler, whatever the tasks compute and
  whoever else goes to sleep, once the clock ticks at or after the time a sleeping task's timer is
  due, the task's mark has been cleared, which the loop inside its call of \<open>sleep\<close> waits for.
\<close>

theorem sleeper_wakes:
  assumes "os_path (tick_env uc) (uts_clock uc) s xs" and "uts_ok s Q" and "timers s n = Some (alarm_of p e)"
    and "(Tick now m, s') \<in> set xs" and "e \<le> now"
  shows "\<exists>(ev, s2) \<in> set xs. marked s2 p = Some False"
  by (rule uts.path_wakes [OF assms])

text \<open>
  C21. A task that sleeps while no other task is ready or asleep hangs the process, however short
  the time it asked for: the next tick sets its timer and then spins inside the signal handler,
  where the clock signal is blocked, so no later tick can serve the timer.
\<close>

theorem lone_sleeper_hangs:
  assumes ok: "uts_ok s Q" and rs: "Q Ready_list = Some []" and none: "\<And>n. sleeper s n = None"
    and call: "os_step (tick_env uc) (uts_clock uc) s (Call_sleep sec) s1" and env: "tick_env uc now m s1"
  shows "uts_clock uc now m s1 = Inl Idle_spin"
proof -
  obtain c tc where c: "current_task s = Some c" "tasks s c = Some tc"
    "s1 = s\<lparr>tasks := (tasks s)(c \<mapsto> tc\<lparr>is_collaborative_schedule := True, sleep_millisecond := sec * 1000\<rparr>)\<rparr>" "uts_ok s1 Q"
    by (rule sleep_step_state [OF ok call])
  have c1: "current_task s1 = Some c" "tasks s1 c = Some (tc\<lparr>is_collaborative_schedule := True, sleep_millisecond := sec * 1000\<rparr>)"
    using c by simp_all
  have no: "sleeper s1 n = None" for n using none [of n] by (simp add: c(3) sleeper_def)
  obtain ws where ws: "wakes_at now s1 ws" "ws = [] \<longrightarrow> uts_timer_handler uc s1 now (Some m) = Inl Idle_spin"
    by (rule tick_result [OF c(4) env c1 rs]) auto
  have "set ws = {}" using ws(1) no by (auto simp: wakes_at_def)
  then show ?thesis using ws(2) by (simp add: uts_clock_def)
qed

section \<open>The clock of src/Thread\<close>

definition thread_env :: "32 word \<Rightarrow> nat \<Rightarrow> 'a tstate_scheme \<Rightarrow> bool" where
  "thread_env now m s \<longleftrightarrow> timers s m = None
     \<and> (\<forall>c tc. current_task s = Some c \<longrightarrow> tasks s c = Some tc \<longrightarrow> is_collaborative_schedule tc
          \<longrightarrow> unat (uJiffies s) + unat (sleep_millisecond tc) < 2 ^ 32)"

definition thread_clock :: "'a tick_handler" where
  "thread_clock now m s = interrupt_timer_handler s (Some m)"

lemma thread_clock_result:
  assumes ok: "uts_ok s Q" and env: "thread_env now m s" and h: "thread_clock now m s = Inr (fl, s')"
  shows "(\<exists>Q'. uts_ok s' Q') \<and> (timers s n = Some t \<longrightarrow> timers s' n = Some t)"
proof -
  obtain c tc rs where c: "current_task s = Some c" "tasks s c = Some tc" "Q Ready_list = Some rs"
    using ok by (auto simp: uts_ok_def timer_idle_def elim!: sched_invE)
  have magic: "stack_magic tc = 0x19991120" using ok c(2) by (simp add: uts_ok_def)
  have e: "timers s m = None" "is_collaborative_schedule tc \<longrightarrow> unat (uJiffies s) + unat (sleep_millisecond tc) < 2 ^ 32"
    using env c by (auto simp: thread_env_def)
  show ?thesis
  proof (cases "is_collaborative_schedule tc")
    case False
    obtain s1 k rs' where "schedule s = Inr s1" "uts_ok s1 (Q(Ready_list \<mapsto> rs'))" "timers s1 = timers s"
      by (rule tick_preempt [OF ok c])
    then show ?thesis using h c magic False by (auto simp: thread_clock_def interrupt_timer_handler_def)
  next
    case True
    then have due: "unat (uJiffies s) + unat (sleep_millisecond tc) < 2 ^ 32" using e(2) by simp
    obtain s1 where s1: "create_timer s (Some Fn_collaborative_helper) (Task_param (Some c)) (sleep_millisecond tc) 0 (Some m)
        = Inr (Returned (Some m), s1)" "rs = [] \<Longrightarrow> collaborative_schedule s1 = Inl Idle_spin"
      "\<And>d rs'. rs = d # rs' \<Longrightarrow> \<exists>s'. collaborative_schedule s1 = Inr s' \<and> current_task s' = Some d
        \<and> uts_ok s' (Q(Ready_list \<mapsto> rs')) \<and> timers s' = (timers s)(m \<mapsto> alarm_of c (uJiffies s + sleep_millisecond tc))
        \<and> same_flags s s' \<and> (\<forall>l. l \<noteq> Timer_lock \<longrightarrow> locks s' l = locks s l)"
      using tick_sleep [OF ok c(1,3) e(1) due] by blast
    then show ?thesis using h c magic True e(1)
      by (cases rs) (auto simp: thread_clock_def interrupt_timer_handler_def)
  qed
qed

interpretation thread: deaf_clock thread_env thread_clock
  by unfold_locales (use thread_clock_result in blast)+

text \<open>
  C22. In src/Thread the clock never wakes a task that went to sleep: its handler of the clock
  signal creates the timer and switches away, but the call of \<open>run_timer\<close> is commented out. So on
  every history in which the tasks compute and call \<open>sleep\<close> and the clock ticks, without the count
  of milliseconds wrapping round, the timer stays where it is and the task is never the running
  one. Only a call of \<open>task_unblock\<close> by another task, which is not a step of these histories,
  could make it run.
\<close>

theorem thread_sleepers_stay_asleep:
  assumes "os_path thread_env thread_clock s xs" and "uts_ok s Q" and "timers s n = Some (alarm_of p e)" and "(ev, s') \<in> set xs"
  shows "timers s' n = Some (alarm_of p e) \<and> current_task s' \<noteq> Some p"
  by (rule thread.path_sleeps [OF assms])

section \<open>Example processes\<close>

text \<open>A state made from a description of its queues, with an empty wheel.\<close>

definition uts_demo :: "(list_id \<times> task list) list \<Rightarrow> (task \<times> task_status) list \<Rightarrow> tstate" where
  "uts_demo qs ts =
     (let k = demo_state qs ts 0;
          k = k\<lparr>tasks := (\<lambda>p. map_option (\<lambda>t. t\<lparr>stack_magic := 0x19991120\<rparr>) (tasks k p))\<rparr>
      in kstate.extend k \<lparr>timer_manager = Mgr_live, uExitFlag = 0, uJiffies = 5000,
           theap = init_wheel Map.empty, timers = Map.empty, clock_granularity = 10\<rparr>)"

lemma uts_demo_simps [simp]:
  "current_task (uts_demo qs ts) = Some 0" "timers (uts_demo qs ts) = Map.empty" "uJiffies (uts_demo qs ts) = 5000"
  "tasks (uts_demo qs ts) p = map_option (\<lambda>t. t\<lparr>stack_magic := 0x19991120\<rparr>) (tasks (demo_state qs ts 0) p)"
  "uExitFlag (uts_demo qs ts) = 0" "nodes (uts_demo qs ts) = nodes (demo_state qs ts 0)"
  by (simp_all add: uts_demo_def Let_def kstate.extend_def demo_state_def)

lemma uts_demo_ok:
  assumes "demo_ok qs ts 0" and w: "map_of qs (Waiters Timer_lock) = Some []"
  shows "uts_ok (uts_demo qs ts) (map_of qs)"
proof -
  let ?k = "demo_state qs ts 0" and ?s = "uts_demo qs ts"
  have inv: "sched_inv ?k (map_of qs)" by (rule demo_inv [OF assms(1)])
  have ok: "lists_ok ?k (map_of qs)" and run: "runs ?k (map_of qs) 0"
    using inv by (auto simp: sched_inv_def runs_def demo_state_def)
  have "lists_ok ?s (map_of qs)"
  proof (rule lists_okI)
    show "\<exists>ts'. tasks ?s q = Some ts' \<and> list_status L (status ts')" if "map_of qs L = Some xs" "q \<in> set xs" for L xs q
      using lists_ok_memberD [OF ok that] by auto
    show "Tag g t \<in> dom (nodes ?s)" if "tasks ?s t = Some u" for t u g
      using that lists_ok_tag [OF ok, of t] by auto
  qed (use ok lists_ok_queues [OF ok] lists_ok_known [OF ok] in \<open>auto simp: lists_ok_def\<close>)
  moreover have "runs ?s (map_of qs) 0" using run by (auto simp: runs_def)
  ultimately have "sched_inv ?s (map_of qs)" unfolding sched_inv_def by blast
  then have "timer_idle ?s (map_of qs)"
    using w by (simp add: timer_idle_def uts_demo_def kstate.extend_def demo_state_def Let_def lock_free_def demo_lock_def)
  moreover have "wheel {} [] ?s empty_rings"
    by (rule wheel_init) (simp_all add: uts_demo_def Let_def kstate.extend_def)
  moreover have "asleep_ok ?s (map_of qs)" by (simp add: asleep_ok_def sleeper_def)
  ultimately show ?thesis by (intro uts_ok_more) auto
qed

definition two_queues :: queue_view where
  "two_queues = map_of [(Ready_list, [1]), (All_list, [0, 1]), (Pool_list, []), (Waiters Timer_lock, [])]"

definition two_tasks :: tstate where
  "two_tasks = uts_demo [(Ready_list, [1]), (All_list, [0, 1]), (Pool_list, []), (Waiters Timer_lock, [])]
     [(0, TASK_RUNNING), (1, TASK_READY)]"

lemma two_tasks_ok: "uts_ok two_tasks two_queues"
  unfolding two_tasks_def two_queues_def by (rule uts_demo_ok) (simp_all add: demo_ok_def general_members_def)

lemma two_tasks_simps [simp]:
  "current_task two_tasks = Some 0" "timers two_tasks = Map.empty" "uJiffies two_tasks = 5000"
  "tasks two_tasks p = map_option (\<lambda>s. (demo_task p s)\<lparr>stack_magic := 0x19991120\<rparr>)
     (if p = 0 then Some TASK_RUNNING else if p = 1 then Some TASK_READY else None)"
  "two_queues Ready_list = Some [1]"
  by (simp_all add: two_tasks_def two_queues_def) (simp add: demo_state_def)

definition lone_queues :: queue_view where
  "lone_queues = map_of [(Ready_list, []), (All_list, [0]), (Pool_list, []), (Waiters Timer_lock, [])]"

definition lone_task :: tstate where
  "lone_task = uts_demo [(Ready_list, []), (All_list, [0]), (Pool_list, []), (Waiters Timer_lock, [])] [(0, TASK_RUNNING)]"

lemma lone_task_ok: "uts_ok lone_task lone_queues"
  unfolding lone_task_def lone_queues_def by (rule uts_demo_ok) (simp_all add: demo_ok_def general_members_def)

lemma idle_code_calm: "calm idle_code"
  by (simp add: calm_def idle_code_quiet) (simp add: idle_code_def)

lemma no_wakes: "timers s = Map.empty \<Longrightarrow> wakes_at now s ws \<Longrightarrow> ws = []"
  by (auto simp: wakes_at_def)

lemma two_tasks_env: "now < 4294967295 \<Longrightarrow> tick_env idle_code now m two_tasks"
  by (auto simp: tick_env_def idle_code_calm periods_fit_def demo_task_def task_zero_def word_less_nat_alt split: if_split_asm)

theorem uts_tick_spec_witness:
  "\<exists>s'. uts_timer_handler idle_code two_tasks 5000 (Some 8) = Inr (Returned (), s') \<and> current_task s' = Some 1"
proof -
  have "tick_env idle_code 5000 8 two_tasks" by (rule two_tasks_env) simp
  from uts_tick_spec [OF two_tasks_ok this, of 0 "(demo_task 0 TASK_RUNNING)\<lparr>stack_magic := 0x19991120\<rparr>" "[1]"]
  obtain ws s' where "wakes_at 5000 two_tasks ws" "uts_timer_handler idle_code two_tasks 5000 (Some 8) = Inr (Returned (), s')"
    "ticked 5000 8 two_tasks two_queues 0 ((demo_task 0 TASK_RUNNING)\<lparr>stack_magic := 0x19991120\<rparr>) ws s'"
    by auto
  moreover from this have "ws = []" by (intro no_wakes) simp_all
  ultimately show ?thesis by (auto simp: ticked_def tick_choice_def rr_step_def demo_task_def task_zero_def)
qed

text \<open>Task 0 calls \<open>sleep(1)\<close> and the clock ticks: task 1 runs, task 0 has an alarm.\<close>

lemma one_asleep:
  obtains s Q where "uts_ok s Q" and "timers s 8 = Some (alarm_of 0 6001)" and "tick_env idle_code 7000 9 s" and "thread_env 7000 9 s"
    and "marked s 1 = Some False" and "current_task s = Some 1" and "dom (timers s) = {8}"
proof -
  obtain v s1 where call: "hook_sleep two_tasks True True 1 = Inr (v, s1)" by (simp add: hook_sleep_def mark_sleeper_def)
  then have st: "os_step (tick_env idle_code) (uts_clock idle_code) two_tasks (Call_sleep 1) s1" by (rule os_step.call_sleep)
  obtain c tc where c: "current_task two_tasks = Some c" "tasks two_tasks c = Some tc"
    "s1 = two_tasks\<lparr>tasks := (tasks two_tasks)(c \<mapsto> tc\<lparr>is_collaborative_schedule := True, sleep_millisecond := 1 * 1000\<rparr>)\<rparr>"
    "uts_ok s1 two_queues"
    by (rule sleep_step_state [OF two_tasks_ok st])
  let ?tc = "tc\<lparr>is_collaborative_schedule := True, sleep_millisecond := 1000\<rparr>"
  have c0: "c = 0" using c(1) by simp
  have s1: "current_task s1 = Some 0" "tasks s1 0 = Some ?tc" "timers s1 = Map.empty" "uJiffies s1 = 5000"
    using c by simp_all
  have "tick_env idle_code 5000 8 s1"
    using s1 by (auto simp: tick_env_def idle_code_calm periods_fit_def next_jiffy_def)
  then obtain ws s2 where s2: "wakes_at 5000 s1 ws" "ticked 5000 8 s1 two_queues 0 ?tc ws s2"
    by (rule tick_result [OF c(4) _ s1(1,2), of _ _ _ "[1]"]) auto
  have ws: "ws = []" by (rule no_wakes [OF s1(3) s2(1)])
  then have t: "current_task s2 = Some 1" "uts_ok s2 (two_queues(Ready_list \<mapsto> []))" "timers s2 8 = Some (alarm_of 0 6001)"
    "marked s2 1 = marked s1 1" "dom (timers s2) \<subseteq> {8}"
    using s2(2) s1(3,4) by (auto simp: ticked_def tick_choice_def next_jiffy_def)
  have m: "marked s2 1 = Some False" using t(4) c c0 by (simp add: marked_def demo_task_def task_zero_def)
  have d: "dom (timers s2) = {8}" using t(3,5) by blast
  then have f: "timers s2 n = Some u \<Longrightarrow> n = 8" for n u by auto
  have f9: "timers s2 9 = None" using f [of 9] by (cases "timers s2 9") auto
  have "uPeriod u = 0" if "timers s2 n = Some u" for n u using f [OF that] that t(3) by (auto simp: alarm_of_def)
  then have "periods_fit 7000 s2" by (simp add: periods_fit_def)
  then have "tick_env idle_code 7000 9 s2" "thread_env 7000 9 s2"
    using f9 t(1) m by (auto simp: tick_env_def thread_env_def idle_code_calm marked_def)
  with t(1-3) m d show ?thesis by (intro that [of s2]) auto
qed

theorem early_expiry_witness:
  "\<exists>s1 s2 s3. create_timer two_tasks (Some Fn_collaborative_helper) (Task_param (Some 0)) 1000 0 (Some 8) = Inr (Returned (Some 8), s1)
    \<and> collaborative_schedule s1 = Inr s2 \<and> timers s2 8 = Some (alarm_of 0 6000)
    \<and> run_timer idle_code 5232 s2 = Inr (Returned (), s3) \<and> marked s3 0 = Some False"
proof -
  have "clock_granularity two_tasks = 10" by (simp add: two_tasks_def uts_demo_def Let_def kstate.extend_def)
  moreover have "periods_fit (uJiffies two_tasks + 1000 mod 256) two_tasks" by (simp add: periods_fit_def)
  ultimately show ?thesis
    using early_expiry [OF two_tasks_ok _ _ _ idle_code_calm, of 0 1 "[]" 8 1000] by auto
qed

theorem sleeper_wakes_witness:
  "\<exists>s s'. timers s 8 = Some (alarm_of 0 6001) \<and> os_path (tick_env idle_code) (uts_clock idle_code) s [(Tick 7000 9, s')]
    \<and> marked s' 0 = Some False"
proof -
  obtain s Q where s: "uts_ok s Q" "timers s 8 = Some (alarm_of 0 6001)" "tick_env idle_code 7000 9 s"
    "marked s 1 = Some False" "current_task s = Some 1"
    by (rule one_asleep)
  obtain tc where tc: "tasks s 1 = Some tc" "\<not> is_collaborative_schedule tc" using s(4) by (auto simp: marked_def)
  obtain rs where rs: "Q Ready_list = Some rs"
    using s(1) by (auto simp: uts_ok_def timer_idle_def elim!: sched_invE)
  obtain s' where s': "uts_timer_handler idle_code s 7000 (Some 9) = Inr (Returned (), s')"
    by (rule tick_result [OF s(1,3,5) tc(1) rs]) (use tc(2) in auto)
  have p: "os_path (tick_env idle_code) (uts_clock idle_code) s [(Tick 7000 9, s')]"
    using s(3) s' by (intro os_path.intros os_step.tick) (auto simp: uts_clock_def)
  from sleeper_wakes [OF p s(1,2), of 7000 9 s'] have "marked s' 0 = Some False" by simp
  then show ?thesis using p s(2) by blast
qed

theorem thread_sleepers_stay_asleep_witness:
  "\<exists>(s :: tstate) s'. timers s 8 = Some (alarm_of 0 6001) \<and> os_path thread_env thread_clock s [(Tick 7000 9, s')]
    \<and> timers s' 8 = Some (alarm_of 0 6001) \<and> current_task s' \<noteq> Some 0"
proof -
  obtain s :: tstate and Q where s: "uts_ok s Q" "timers s 8 = Some (alarm_of 0 6001)" "thread_env 7000 9 s"
    "marked s 1 = Some False" "current_task s = Some 1"
    by (rule one_asleep)
  obtain tc where tc: "tasks s 1 = Some tc" "\<not> is_collaborative_schedule tc" using s(4) by (auto simp: marked_def)
  obtain rs where rs: "Q Ready_list = Some rs"
    using s(1) by (auto simp: uts_ok_def timer_idle_def elim!: sched_invE)
  obtain s' n rs' where s': "schedule s = Inr s'" by (rule tick_preempt [OF s(1,5) tc(1) rs])
  have magic: "stack_magic tc = 0x19991120" using s(1) tc(1) by (simp add: uts_ok_def)
  have "thread_clock 7000 9 s = Inr (Returned (), s')"
    using s(5) tc magic s' by (simp add: thread_clock_def interrupt_timer_handler_def)
  then have p: "os_path thread_env thread_clock s [(Tick 7000 9, s')]"
    using s(3) by (intro os_path.intros os_step.tick)
  from thread_sleepers_stay_asleep [OF p s(1,2), of "Tick 7000 9" s'] p s(2) show ?thesis by auto
qed

theorem lone_sleeper_hangs_witness:
  "\<exists>s1. os_step (tick_env idle_code) (uts_clock idle_code) lone_task (Call_sleep 1) s1 \<and> uts_clock idle_code 5000 8 s1 = Inl Idle_spin"
proof -
  let ?t = "(demo_task 0 TASK_RUNNING)\<lparr>stack_magic := 0x19991120\<rparr>"
  have t: "tasks lone_task 0 = Some ?t" "current_task lone_task = Some 0" "timers lone_task = Map.empty" "uJiffies lone_task = 5000"
    by (simp_all add: lone_task_def) (simp add: demo_state_def)
  let ?s = "lone_task\<lparr>tasks := (tasks lone_task)(0 \<mapsto> ?t\<lparr>is_collaborative_schedule := True, sleep_millisecond := 1000\<rparr>)\<rparr>"
  have "hook_sleep lone_task True True 1 = Inr (None, ?s)" using t by (simp add: hook_sleep_def mark_sleeper_def)
  then have call: "os_step (tick_env idle_code) (uts_clock idle_code) lone_task (Call_sleep 1) ?s" by (rule os_step.call_sleep)
  have env: "tick_env idle_code 5000 8 ?s"
    using t by (auto simp: tick_env_def idle_code_calm periods_fit_def next_jiffy_def)
  have "uts_clock idle_code 5000 8 ?s = Inl Idle_spin"
    by (rule lone_sleeper_hangs [OF lone_task_ok _ _ call env]) (simp_all add: lone_queues_def sleeper_def t)
  then show ?thesis using call by blast
qed

end
