(* ===== verification/Mutex.thy ===== *)
theory Mutex
  imports SyncInv
begin

text \<open>
  Locks under preemption. The lock functions of task/sync.c are cut at every load and every store of
  a field of the lock, so that a clock signal can arrive between any two of them while the signal is
  let in: \<open>value--\<close> is a load and a store. The functions on the waiting list and the scheduler's
  \<open>task_block\<close> and \<open>task_unblock\<close> are one piece each. A step relation interleaves the
  pieces of all tasks with preemptions, a second one also with every other activity of the library
  that leaves the lock alone. A task whose assertion fails has no step of its own any more (it spins)
  but can still be preempted.
\<close>

section \<open>The pieces\<close>

text \<open>
  Where a task is with respect to one lock. The flag of \<open>Acq_test\<close> and of \<open>Rel_test\<close> records
  whether the call was made inside the critical section; the constructors with a number hold what
  was loaded and is about to be stored, changed by one.
\<close>

datatype lpc = Outside | Inside
  | Acq_test bool | Acq_more | Acq_more_store "32 word"
  | Down_entry | Down_test | Down_queue | Down_block | Down_load | Down_store "8 word" | Down_check | Down_leave
  | Set_holder | Check_nr | Set_nr
  | Rel_test bool | Rel_count | Rel_less | Rel_less_store "32 word" | Rel_one | Rel_holder | Rel_nr
  | Up_wake | Up_load | Up_store "8 word" | Up_check | Up_leave

text \<open>One piece of the running task; after \<open>Down_block\<close> another task runs.\<close>

fun piece :: "lock_id \<Rightarrow> lpc \<Rightarrow> 'a kstate_scheme \<Rightarrow> (lpc \<times> 'a kstate_scheme) res" where
  "piece l (Acq_test b) k =
     Inr (if holder (locks k l) \<noteq> current_task k then Down_entry else Acq_more, k)"
| "piece l Acq_more k = Inr (Acq_more_store (holder_repeat_nr (locks k l)), k)"
| "piece l (Acq_more_store n) k = Inr (Inside, upd_lock k l (\<lambda>x. x\<lparr>holder_repeat_nr := n + 1\<rparr>))"
| "piece l Down_entry k = Inr (Down_test, interrupt_disable k)"
| "piece l Down_test k = Inr (if sema_val k l = 0 then Down_queue else Down_load, k)"
| "piece l Down_queue k =
     bnd (running k) (\<lambda>c.
     bnd (k_find k (Waiters l) c) (\<lambda>waiting.
     bnd (assert_c (\<not> waiting)) (\<lambda>_.
     bnd (k_find k (Waiters l) c) (\<lambda>waiting.
     if waiting then Inl Panic_spin else
     bnd (k_append k (Waiters l) c) (\<lambda>k. Inr (Down_block, k))))))"
| "piece l Down_block k = bnd (task_block k TASK_BLOCKED) (\<lambda>k. Inr (Down_test, k))"
| "piece l Down_load k = Inr (Down_store (sema_val k l), k)"
| "piece l (Down_store v) k = Inr (Down_check, upd_lock k l (set_value (v - 1)))"
| "piece l Down_check k = bnd (assert_c (sema_val k l = 0)) (\<lambda>_. Inr (Down_leave, k))"
| "piece l Down_leave k = Inr (Set_holder, interrupt_enable k)"
| "piece l Set_holder k = Inr (Check_nr, upd_lock k l (\<lambda>x. x\<lparr>holder := current_task k\<rparr>))"
| "piece l Check_nr k = bnd (assert_c (holder_repeat_nr (locks k l) = 0)) (\<lambda>_. Inr (Set_nr, k))"
| "piece l Set_nr k = Inr (Inside, upd_lock k l (\<lambda>x. x\<lparr>holder_repeat_nr := 1\<rparr>))"
| "piece l (Rel_test b) k =
     bnd (assert_c (holder (locks k l) = current_task k)) (\<lambda>_. Inr (Rel_count, k))"
| "piece l Rel_count k = Inr (if holder_repeat_nr (locks k l) > 1 then Rel_less else Rel_one, k)"
| "piece l Rel_less k = Inr (Rel_less_store (holder_repeat_nr (locks k l)), k)"
| "piece l (Rel_less_store n) k = Inr (Inside, upd_lock k l (\<lambda>x. x\<lparr>holder_repeat_nr := n - 1\<rparr>))"
| "piece l Rel_one k = bnd (assert_c (holder_repeat_nr (locks k l) = 1)) (\<lambda>_. Inr (Rel_holder, k))"
| "piece l Rel_holder k = Inr (Rel_nr, upd_lock k l (\<lambda>x. x\<lparr>holder := None\<rparr>))"
| "piece l Rel_nr k = Inr (Up_wake, upd_lock k l (\<lambda>x. x\<lparr>holder_repeat_nr := 0\<rparr>))"
| "piece l Up_wake k = bnd (sema_up_wake k l) (\<lambda>k. Inr (Up_load, k))"
| "piece l Up_load k = Inr (Up_store (sema_val k l), k)"
| "piece l (Up_store v) k = Inr (Up_check, upd_lock k l (set_value (v + 1)))"
| "piece l Up_check k = bnd (assert_c (sema_val k l = 1)) (\<lambda>_. Inr (Up_leave, k))"
| "piece l Up_leave k = Inr (Outside, interrupt_enable k)"
| "piece l Outside k = Inr (Outside, k)"
| "piece l Inside k = Inr (Inside, k)"

text \<open>The pieces in sequence, without preemption, until the call returns or switches away.\<close>

fun run_pieces :: "nat \<Rightarrow> lock_id \<Rightarrow> lpc \<Rightarrow> 'a kstate_scheme \<Rightarrow> (lpc \<times> 'a kstate_scheme) res" where
  "run_pieces 0 l p k = Inr (p, k)"
| "run_pieces (Suc n) l p k =
     bnd (piece l p k) (\<lambda>(q, k).
     if q = Outside \<or> q = Inside \<or> p = Down_block then Inr (q, k) else run_pieces n l q k)"

definition flow_of :: "lpc \<Rightarrow> unit flow" where
  "flow_of p = (if p = Down_test then Switched else Returned ())"

section \<open>Interleaving\<close>

type_synonym 'a cfg = "'a kstate_scheme \<times> (task \<Rightarrow> lpc)"

text \<open>
  \<^item> \<open>own\<close>: the running task executes its next piece;
  \<^item> \<open>acquire\<close>, \<open>release\<close>: it calls a lock function, rightly or wrongly;
  \<^item> \<open>preempt\<close>: the clock signal arrives and its handler calls \<open>schedule\<close>. The signal must be let in;
    \<open>W\<close> are the pieces it may arrive before, all of them (\<open>UNIV\<close>) in the code as it is.
\<close>

inductive code_step :: "lpc set \<Rightarrow> lock_id \<Rightarrow> 'a cfg \<Rightarrow> 'a cfg \<Rightarrow> bool" for W l where
  own: "current_task k = Some c \<Longrightarrow> piece l (pcs c) k = Inr (p, k') \<Longrightarrow>
        code_step W l (k, pcs) (k', pcs(c := p))"
| acquire: "current_task k = Some c \<Longrightarrow> pcs c = Outside \<or> pcs c = Inside \<Longrightarrow>
        code_step W l (k, pcs) (k, pcs(c := Acq_test (pcs c = Inside)))"
| release: "current_task k = Some c \<Longrightarrow> pcs c = Outside \<or> pcs c = Inside \<Longrightarrow>
        code_step W l (k, pcs) (k, pcs(c := Rel_test (pcs c = Inside)))"
| preempt: "irq_on k \<Longrightarrow> current_task k = Some c \<Longrightarrow> pcs c \<in> W \<Longrightarrow> schedule k = Inr k' \<Longrightarrow>
        code_step W l (k, pcs) (k', pcs)"

abbreviation code_reach :: "lpc set \<Rightarrow> lock_id \<Rightarrow> 'a cfg \<Rightarrow> 'a cfg \<Rightarrow> bool" where
  "code_reach W l \<equiv> (code_step W l)\<^sup>*\<^sup>*"

text \<open>
  \<open>other\<close>: anything else a task does while it is in none of the lock's functions, and that leaves the
  lock's fields alone: computing, creating and ending tasks, sleeping, calls on other locks.
\<close>

inductive lock_step :: "lpc set \<Rightarrow> lock_id \<Rightarrow> 'a cfg \<Rightarrow> 'a cfg \<Rightarrow> bool" for W l where
  code: "code_step W l s s' \<Longrightarrow> lock_step W l s s'"
| other: "current_task k = Some c \<Longrightarrow> pcs c = Outside \<or> pcs c = Inside \<Longrightarrow> locks k' l = locks k l \<Longrightarrow>
        lock_step W l (k, pcs) (k', pcs)"

abbreviation lock_reach :: "lpc set \<Rightarrow> lock_id \<Rightarrow> 'a cfg \<Rightarrow> 'a cfg \<Rightarrow> bool" where
  "lock_reach W l \<equiv> (lock_step W l)\<^sup>*\<^sup>*"

definition lock_start :: "lock_id \<Rightarrow> 'a cfg \<Rightarrow> bool" where
  "lock_start l s \<longleftrightarrow> lock_free (locks (fst s) l) \<and> snd s = (\<lambda>_. Outside)"

text \<open>Between the test of the semaphore's value and the store of the lowered one.\<close>

definition window :: "lpc set" where
  "window = insert Down_load (range Down_store)"

text \<open>Between taking the semaphore and giving it back; and while named as holder.\<close>

fun owns :: "lpc \<Rightarrow> bool" where
  "owns Down_check = True" | "owns Down_leave = True" | "owns Set_holder = True" | "owns Check_nr = True"
| "owns Set_nr = True" | "owns Inside = True" | "owns (Acq_test b) = b" | "owns Acq_more = True"
| "owns (Acq_more_store n) = True" | "owns (Rel_test b) = b" | "owns Rel_count = True" | "owns Rel_less = True"
| "owns (Rel_less_store n) = True" | "owns Rel_one = True" | "owns Rel_holder = True" | "owns Rel_nr = True"
| "owns Up_wake = True" | "owns Up_load = True" | "owns (Up_store v) = True" | "owns _ = False"

fun named :: "lpc \<Rightarrow> bool" where
  "named Check_nr = True" | "named Set_nr = True" | "named Inside = True" | "named (Acq_test b) = b"
| "named Acq_more = True" | "named (Acq_more_store n) = True" | "named (Rel_test b) = b" | "named Rel_count = True"
| "named Rel_less = True" | "named (Rel_less_store n) = True" | "named Rel_one = True" | "named Rel_holder = True"
| "named _ = False"

text \<open>
  The value is zero exactly while a task owns the semaphore, and there is at most one; the holder is
  the task that is named; only the running task is in the window, and what it has loaded is the value.
\<close>

definition lock_inv :: "lock_id \<Rightarrow> 'a cfg \<Rightarrow> bool" where
  "lock_inv l s \<longleftrightarrow> (case s of (k, pcs) \<Rightarrow>
     (\<forall>t u. owns (pcs t) \<longrightarrow> owns (pcs u) \<longrightarrow> t = u)
     \<and> sema_val k l = (if \<exists>t. owns (pcs t) then 0 else 1)
     \<and> (\<forall>t. holder (locks k l) = Some t \<longleftrightarrow> named (pcs t))
     \<and> (\<forall>t. pcs t \<in> window \<longrightarrow> current_task k = Some t \<and> sema_val k l = 1)
     \<and> (\<forall>t v. pcs t = Down_store v \<longrightarrow> v = 1) \<and> (\<forall>t v. pcs t = Up_store v \<longrightarrow> v = 0))"

section \<open>What the operations leave alone\<close>

lemma upd_task_kept: "upd_task k p f = Inr k' \<Longrightarrow> locks k' = locks k \<and> current_task k' = current_task k"
  by (auto simp: upd_task_def elim!: bnd_InrE)

lemma k_append_kept: "k_append k L t = Inr k' \<Longrightarrow> locks k' = locks k \<and> current_task k' = current_task k"
  by (auto simp: k_append_def bnd_eq_Inr)

lemma k_push_kept: "k_push k L t = Inr k' \<Longrightarrow> locks k' = locks k \<and> current_task k' = current_task k"
  by (auto simp: k_push_def bnd_eq_Inr)

lemma k_pop_kept: "k_pop k L = Inr (p, k') \<Longrightarrow> locks k' = locks k \<and> current_task k' = current_task k"
  by (auto simp: k_pop_def bnd_eq_Inr)

lemma get_next_task_kept: "get_next_task k = Inr (n, k') \<Longrightarrow> locks k' = locks k \<and> current_task k' = current_task k"
  unfolding get_next_task_def by (auto elim!: bnd_InrE dest!: k_pop_kept upd_task_kept)

lemma switch_frame_kept: "switch_frame k n = Inr k' \<Longrightarrow> locks k' = locks k"
  unfolding switch_frame_def by (auto elim!: bnd_InrE dest!: upd_task_kept)

lemma schedule_kept:
  assumes "schedule k = Inr k'"
  shows "locks k' = locks k"
  using assms unfolding schedule_def
  by (auto simp: Let_def elim!: bnd_InrE split: if_split_asm
      dest!: k_append_kept upd_task_kept get_next_task_kept switch_frame_kept)

lemma block_task_schedule_kept: "block_task_schedule k = Inr k' \<Longrightarrow> locks k' = locks k"
  unfolding block_task_schedule_def context_swap_def context_set_def
  by (auto simp: Let_def elim!: bnd_InrE split: if_split_asm dest!: k_pop_kept upd_task_kept)

lemma task_block_kept: "task_block k s = Inr k' \<Longrightarrow> locks k' = locks k"
  unfolding task_block_def by (auto simp: Let_def elim!: bnd_InrE dest!: upd_task_kept block_task_schedule_kept)

lemma task_unblock_kept: "task_unblock k p = Inr k' \<Longrightarrow> locks k' = locks k \<and> current_task k' = current_task k"
  unfolding task_unblock_def
  by (auto simp: Let_def elim!: bnd_InrE split: if_split_asm dest!: k_push_kept upd_task_kept)

lemma sema_up_wake_kept: "sema_up_wake k l = Inr k' \<Longrightarrow> locks k' = locks k \<and> current_task k' = current_task k"
  unfolding sema_up_wake_def
  by (auto simp: Let_def elim!: bnd_InrE split: if_split_asm dest!: k_pop_kept task_unblock_kept)

section \<open>The invariant\<close>

lemma named_owns: "named p \<Longrightarrow> owns p"
  by (cases p) simp_all

lemma window_simps [simp]:
  "Down_load \<in> window" "Down_store v \<in> window" "owns p \<Longrightarrow> p \<notin> window" "Outside \<notin> window" "Inside \<notin> window"
  "Acq_test b \<notin> window" "Rel_test b \<notin> window" "Down_entry \<notin> window" "Down_test \<notin> window" "Down_queue \<notin> window"
  "Down_block \<notin> window" "Up_check \<notin> window" "Up_leave \<notin> window"
  by (auto simp: window_def)

lemma lock_invD:
  assumes "lock_inv l (k, pcs)"
  shows "owns (pcs t) \<Longrightarrow> owns (pcs u) \<Longrightarrow> t = u" and "owns (pcs t) \<Longrightarrow> sema_val k l = 0"
    and "holder (locks k l) = Some t \<longleftrightarrow> named (pcs t)"
    and "pcs t \<in> window \<Longrightarrow> current_task k = Some t \<and> sema_val k l = 1"
    and "pcs t = Down_store v \<Longrightarrow> v = 1" and "pcs t = Up_store w \<Longrightarrow> w = 0"
    and "(\<And>t. \<not> owns (pcs t)) \<Longrightarrow> sema_val k l = 1" and "sema_val k l = 0 \<or> sema_val k l = 1"
proof -
  note I = assms [unfolded lock_inv_def prod.case]
  have v: "sema_val k l = (if \<exists>t. owns (pcs t) then 0 else 1)" using I by (elim conjE)
  show "owns (pcs t) \<Longrightarrow> owns (pcs u) \<Longrightarrow> t = u" using I by blast
  show "owns (pcs t) \<Longrightarrow> sema_val k l = 0" "(\<And>t. \<not> owns (pcs t)) \<Longrightarrow> sema_val k l = 1" "sema_val k l = 0 \<or> sema_val k l = 1"
    unfolding v by auto
  show "holder (locks k l) = Some t \<longleftrightarrow> named (pcs t)" "pcs t \<in> window \<Longrightarrow> current_task k = Some t \<and> sema_val k l = 1"
    "pcs t = Down_store v \<Longrightarrow> v = 1" "pcs t = Up_store w \<Longrightarrow> w = 0"
    using I by (elim conjE; blast)+
qed

text \<open>The running task \<open>c\<close> moves to \<open>p\<close>: the value and the holder follow.\<close>

lemma lock_inv_move:
  assumes inv: "lock_inv l (k, pcs)" and c: "current_task k = Some c"
    and v: "sema_val k' l = (if owns p then 0 else if owns (pcs c) then 1 else sema_val k l)"
    and own: "owns p \<Longrightarrow> owns (pcs c) \<or> pcs c \<in> window"
    and h: "holder (locks k' l) = (if named p then Some c else if named (pcs c) then None else holder (locks k l))"
    and nm: "named p \<Longrightarrow> owns (pcs c)"
    and w: "p \<in> window \<Longrightarrow> current_task k' = Some c \<and> sema_val k' l = 1"
    and st: "\<And>v. p = Down_store v \<Longrightarrow> v = 1" "\<And>v. p = Up_store v \<Longrightarrow> v = 0"
  shows "lock_inv l (k', pcs(c := p))"
proof -
  note I = lock_invD [OF inv]
  have alone: "\<not> owns (pcs t)" if "t \<noteq> c" "owns p \<or> owns (pcs c)" for t
    using that I(1) [of t c] I(2) [of t] I(4) [of c] own by auto
  have still: "pcs t \<notin> window" if "t \<noteq> c" for t using I(4) [of t] c that by auto
  have old: "sema_val k l = (if \<exists>t. owns (pcs t) then 0 else 1)" using I(2,7) by auto
  have val: "sema_val k' l = (if \<exists>t. owns ((pcs(c := p)) t) then 0 else 1)"
  proof (cases "owns p \<or> owns (pcs c)")
    case True
    then have "(\<exists>t. owns ((pcs(c := p)) t)) \<longleftrightarrow> owns p" using alone by (auto simp: fun_upd_def split: if_split_asm)
    then show ?thesis using v True by auto
  next
    case False
    then have "owns ((pcs(c := p)) t) \<longleftrightarrow> owns (pcs t)" for t by simp
    then show ?thesis using v old False by simp
  qed
  have one: "t = u" if "owns ((pcs(c := p)) t)" "owns ((pcs(c := p)) u)" for t u
    using that alone I(1) by (auto split: if_split_asm)
  have holds: "holder (locks k' l) = Some t \<longleftrightarrow> named ((pcs(c := p)) t)" for t
  proof (cases "t = c")
    case True
    then show ?thesis using I(3) [of c] h by auto
  next
    case False
    have "\<not> named (pcs t)" if "named p \<or> named (pcs c)" using alone [OF False] nm that named_owns by blast
    then show ?thesis using False I(3) [of t] h by auto
  qed
  have inside: "current_task k' = Some t \<and> sema_val k' l = 1" if "(pcs(c := p)) t \<in> window" for t
    using that still [of t] w by (cases "t = c") auto
  have "v = 1" if "(pcs(c := p)) t = Down_store v" for t v
    using that st(1) still [of t] by (cases "t = c") auto
  moreover have "v = 0" if "(pcs(c := p)) t = Up_store v" for t v
    using that st(2) I(6) [of t] by (cases "t = c") auto
  ultimately show ?thesis
    unfolding lock_inv_def prod.case using val one holds inside by (intro conjI allI impI) blast+
qed

lemma own_piece_inv:
  assumes inv: "lock_inv l (k, pcs)" and c: "current_task k = Some c"
    and pc: "piece l (pcs c) k = Inr (p, k')"
  shows "lock_inv l (k', pcs(c := p))"
proof -
  note I = lock_invD [OF inv] and move = lock_inv_move [OF inv c]
  have hc: "holder (locks k l) = current_task k \<longleftrightarrow> named (pcs c)" using I(3) [of c] c by auto
  have nh: "\<not> named (pcs c) \<Longrightarrow> holder (locks k l) \<noteq> Some c" using I(3) by auto
  have hd: "named (pcs c) \<Longrightarrow> holder (locks k l) = Some c" using I(3) by simp
  have v: "owns (pcs c) \<Longrightarrow> sema_val k l = 0" "pcs c \<in> window \<Longrightarrow> sema_val k l = 1" using I(2,4) by auto
  show ?thesis
  proof (cases "pcs c")
    case Down_queue
    then show ?thesis using pc nh
      by (intro move) (auto elim!: bnd_InrE split: if_split_asm dest!: k_append_kept simp: sema_val_def)
  next
    case Down_block
    then show ?thesis using pc by (intro move) (auto elim!: bnd_InrE dest!: task_block_kept simp: sema_val_def)
  next
    case Up_wake
    then show ?thesis using pc v by (intro move) (auto elim!: bnd_InrE dest!: sema_up_wake_kept simp: sema_val_def)
  next
    case Down_test
    then show ?thesis using pc c I(8) by (intro move) (auto split: if_split_asm)
  next
    case (Acq_test b)
    then show ?thesis using pc c hc v by (intro move) (auto split: if_split_asm)
  next
    case (Rel_test b)
    then show ?thesis using pc c hc v by (intro move) (auto elim!: bnd_InrE split: if_split_asm)
  next
    case (Up_store x)
    then show ?thesis using pc v I(6) [of c x] by (intro move) auto
  next
    case (Down_store x)
    then show ?thesis using pc I(5) [of c x] by (intro move) auto
  next
    case Set_holder
    then show ?thesis using pc c v by (intro move) auto
  next
    case Rel_holder
    then show ?thesis using pc v by (intro move) auto
  qed (use pc c v hd in \<open>(intro move; auto elim!: bnd_InrE split: if_split_asm)+\<close>)
qed

lemma code_step_inv:
  assumes "code_step W l s s'" and "lock_inv l s" and "W \<inter> window = {}"
  shows "lock_inv l s'"
  using assms
proof (induction rule: code_step.induct)
  case (own k c pcs p k')
  then show ?case using own_piece_inv by blast
next
  case (acquire k c pcs)
  then show ?case using lock_invD [OF acquire.prems(1)]
    by (intro lock_inv_move [OF acquire.prems(1) acquire.hyps(1)]) auto
next
  case (release k c pcs)
  then show ?case using lock_invD [OF release.prems(1)]
    by (intro lock_inv_move [OF release.prems(1) release.hyps(1)]) auto
next
  case (preempt k c pcs k')
  then have "pcs t \<notin> window" for t using lock_invD(4) [OF preempt.prems(1), of t] by auto
  then show ?case using preempt.prems(1) schedule_kept [OF preempt.hyps(4)]
    by (simp add: lock_inv_def sema_val_def)
qed

lemma lock_step_inv:
  assumes "lock_step W l s s'" and "lock_inv l s" and "W \<inter> window = {}"
  shows "lock_inv l s'"
  using assms
proof (induction rule: lock_step.induct)
  case (code s s')
  then show ?case using code_step_inv by blast
next
  case (other k c pcs k')
  then have "pcs t \<notin> window" for t using lock_invD(4) [OF other.prems(1), of t] by auto
  then show ?case using other by (simp add: lock_inv_def sema_val_def)
qed

lemma lock_start_inv: "lock_start l s \<Longrightarrow> lock_inv l s"
  by (cases s) (simp add: lock_start_def lock_inv_def lock_free_def sema_val_def)

lemma lock_reach_inv: "lock_reach W l s0 s \<Longrightarrow> lock_start l s0 \<Longrightarrow> W \<inter> window = {} \<Longrightarrow> lock_inv l s"
  by (induction rule: rtranclp_induct) (auto intro: lock_start_inv lock_step_inv)

section \<open>Compound runs\<close>

text \<open>
  Runs of several pieces of one task from a state that satisfies the scheduler's invariant, for
  the schedules below.
\<close>

lemma reach_own:
  assumes "code_reach W l s0 (k, pcs)" and "current_task k = Some c" and "piece l (pcs c) k = Inr (p, k')"
  shows "code_reach W l s0 (k', pcs(c := p))"
  using assms(1) code_step.own [where pcs = pcs and W = W, OF assms(2,3)] by (rule rtranclp.rtrancl_into_rtrancl)

lemma piece_current:
  "piece l p k = Inr (q, k') \<Longrightarrow> p \<noteq> Down_block \<Longrightarrow> current_task k' = current_task k"
  by (cases p)
    (auto simp: bnd_eq_Inr split: if_splits dest: k_append_kept sema_up_wake_kept)

lemma reach_run:
  assumes "code_reach W l s0 (k, pcs)" and "current_task k = Some c" and "pcs c = p"
    and "p \<noteq> Outside" and "p \<noteq> Inside" and "run_pieces n l p k = Inr (q, k')" and "0 < n"
  shows "code_reach W l s0 (k', pcs(c := q))"
  using assms
proof (induction n arbitrary: p k pcs)
  case 0
  then show ?case by simp
next
  case (Suc n)
  obtain q1 k1 where q1: "piece l p k = Inr (q1, k1)"
    "(if q1 = Outside \<or> q1 = Inside \<or> p = Down_block then Inr (q1, k1) else run_pieces n l q1 k1) = Inr (q, k')"
    using Suc.prems(6) by (auto simp: bnd_eq_Inr split: prod.splits)
  have r1: "code_reach W l s0 (k1, pcs(c := q1))"
    by (rule reach_own [OF Suc.prems(1,2)]) (simp add: Suc.prems(3) q1(1))
  show ?case
  proof (cases "q1 = Outside \<or> q1 = Inside \<or> p = Down_block \<or> n = 0")
    case True
    then have "q1 = q \<and> k1 = k'" using q1(2) by (auto split: if_split_asm)
    then show ?thesis using r1 by (simp only:)
  next
    case False
    have c1: "current_task k1 = Some c" using piece_current [OF q1(1)] False Suc.prems(2) by simp
    have "code_reach W l s0 (k', (pcs(c := q1))(c := q))"
      by (rule Suc.IH [OF r1 c1]) (use False q1(2) in auto)
    then show ?thesis by (simp only: fun_upd_upd)
  qed
qed

text \<open>The calls in one go are the pieces in sequence.\<close>

lemma upd_lock_count:
  "upd_lock k l (\<lambda>x. x\<lparr>holder_repeat_nr := g (holder_repeat_nr x)\<rparr>)
    = upd_lock k l (\<lambda>x. x\<lparr>holder_repeat_nr := g (holder_repeat_nr (locks k l))\<rparr>)"
  by (simp add: upd_lock_def)

lemmas upd_lock_more = upd_lock_count [where g = "\<lambda>n. n + 1"] and upd_lock_less = upd_lock_count [where g = "\<lambda>n. n - 1"]

lemma acquire_pieces:
  "lock_acquire k l = bnd (run_pieces 10 l (Acq_test b) k) (\<lambda>(p, k). Inr (flow_of p, k))"
proof (cases "holder (locks k l) \<noteq> current_task k \<and> sema_val k l = 0")
  case True
  then show ?thesis
    by (simp add: numeral_eq_Suc lock_acquire_def sema_down_def sema_down_loop_def flow_of_def bnd_assoc Let_def)
       (auto simp: bnd_def split: sum.splits)
next
  case False
  then show ?thesis
    by (auto simp: numeral_eq_Suc lock_acquire_def sema_down_def sema_down_loop_def flow_of_def
        upd_lock_more
        bnd_assoc Let_def lock_acquired_def bnd_def assert_c_def user_spin_def)
qed

lemma release_pieces:
  "lock_release k l = bnd (run_pieces 10 l (Rel_test b) k) (\<lambda>(p, k). Inr k)"
  by (auto simp: numeral_eq_Suc lock_release_def sema_up_def sema_up_post_def upd_lock_less bnd_assoc Let_def
      bnd_def assert_c_def user_spin_def split: sum.splits)

lemma acquire_end:
  assumes "run_pieces 10 l (Acq_test b) k = Inr (q, k')"
  shows "q = Inside \<or> q = Down_test"
  using assms by (cases "holder (locks k l) \<noteq> current_task k \<and> sema_val k l = 0")
    (auto simp: numeral_eq_Suc bnd_eq_Inr split: if_split_asm)

lemma reach_acquire:
  assumes r: "code_reach W l s0 (k, pcs)" and c: "current_task k = Some c" and o: "pcs c = Outside"
    and a: "lock_acquire k l = Inr (fl, k')"
  shows "code_reach W l s0 (k', pcs(c := if fl = Switched then Down_test else Inside))"
proof -
  obtain q where q: "run_pieces 10 l (Acq_test False) k = Inr (q, k')" "flow_of q = fl"
    using a unfolding acquire_pieces [of k l False] by (auto simp: bnd_eq_Inr)
  have r1: "code_reach W l s0 (k, pcs(c := Acq_test False))"
    using rtranclp.rtrancl_into_rtrancl [OF r code_step.acquire [of k c pcs W l]] c o by simp
  have "code_reach W l s0 (k', (pcs(c := Acq_test False))(c := q))"
    by (rule reach_run [OF r1 c _ _ _ q(1)]) simp_all
  moreover have "q = (if fl = Switched then Down_test else Inside)"
    using acquire_end [OF q(1)] q(2) by (auto simp: flow_of_def)
  ultimately show ?thesis by simp
qed

lemma reach_preempt:
  assumes r: "code_reach W l s0 (k, pcs)" and inv: "sched_inv k Q" and c: "current_task k = Some c"
    and rs: "Q Ready_list = Some (n # rs)" and on: "irq_on k" and w: "pcs c \<in> W"
  obtains k' where "schedule k = Inr k'" and "code_reach W l s0 (k', pcs)" and "sched_inv k' (Q(Ready_list \<mapsto> rs @ [c]))"
    and "current_task k' = Some n" and "locks k' = locks k" and "irq_on k'"
proof -
  obtain k' n' rs' where k': "schedule k = Inr k'" "rr_step (c, n # rs) = (n', rs')"
    "sched_inv k' (Q(Ready_list \<mapsto> rs'))" "current_task k' = Some n'" "locks k' = locks k"
    "sigmask k' = sigmask k"
    by (rule schedule_inv [OF inv c rs])
  have e: "n' = n" "rs' = rs @ [c]" using k'(2) by (simp_all add: rr_step_def)
  have "code_reach W l s0 (k', pcs)"
    by (rule rtranclp.rtrancl_into_rtrancl [OF r code_step.preempt [where pcs = pcs and l = l, OF on c w k'(1)]])
  with k' on show ?thesis unfolding e by (intro that [of k']) (simp_all add: irq_on_def)
qed


text \<open>The holder's release up to the point where the waiter has been woken, and its end.\<close>

lemma reach_wake:
  assumes r: "code_reach W l s0 (k, pcs)" and inv: "sched_inv k Q" and c: "current_task k = Some c"
    and p: "pcs c = Inside" and h: "lock_held (locks k l) c" and nr: "holder_repeat_nr (locks k l) = 1"
    and w: "Q (Waiters l) = Some (t # ws)" and rs: "Q Ready_list = Some rs"
  obtains k' where "code_reach W l s0 (k', pcs(c := Up_load))"
    and "sched_inv k' (Q(Waiters l \<mapsto> ws, Ready_list \<mapsto> t # rs))" and "current_task k' = Some c"
    and "holder (locks k' l) = None" and "sema_val k' l = 0" and "holder_repeat_nr (locks k' l) = 0" and "irq_on k'"
proof -
  let ?k = "upd_lock (upd_lock k l (\<lambda>x. x\<lparr>holder := None\<rparr>)) l (\<lambda>x. x\<lparr>holder_repeat_nr := 0\<rparr>)"
  have inv': "sched_inv ?k Q" and v: "sema_val ?k l = 0"
    using inv h by (simp_all add: lock_held_def sema_val_def)
  obtain k' where k': "sema_up_wake ?k l = Inr k'"
    "sched_inv k' (Q(Waiters l \<mapsto> ws, Ready_list \<mapsto> t # rs))" "irq_on k'"
    "current_task k' = current_task ?k" "locks k' = locks ?k"
    by (rule sema_up_wake_one [OF inv' w rs v])
  have r1: "code_reach W l s0 (k, pcs(c := Rel_test True))"
    using rtranclp.rtrancl_into_rtrancl [OF r code_step.release [of k c pcs W l]] c p by simp
  have run: "run_pieces 6 l (Rel_test True) k = Inr (Up_load, k')"
    using k'(1) h nr c by (simp add: numeral_eq_Suc lock_held_def)
  have "code_reach W l s0 (k', (pcs(c := Rel_test True))(c := Up_load))"
    by (rule reach_run [OF r1 c _ _ _ run]) simp_all
  then show ?thesis using k' c v sema_val_locks [OF k'(5), of l] by (intro that [of k']) simp_all
qed

lemma reach_post:
  assumes r: "code_reach W l s0 (k, pcs)" and c: "current_task k = Some c" and p: "pcs c = Up_load"
    and v: "sema_val k l = 0"
  shows "code_reach W l s0 (interrupt_enable (upd_lock k l (set_value 1)), pcs(c := Outside))"
proof -
  have run: "run_pieces 4 l Up_load k = Inr (Outside, interrupt_enable (upd_lock k l (set_value 1)))"
    using v by (simp add: numeral_eq_Suc)
  show ?thesis by (rule reach_run [OF r c p _ _ run]) simp_all
qed

section \<open>Two tasks and a lock\<close>

text \<open>The main task running, the other ready; nobody uses the lock yet.\<close>

definition demo2 :: kstate where
  "demo2 = demo_state [(Ready_list, [1]), (All_list, [0, 1]), (Pool_list, []),
     (Waiters Tid_lock, []), (Waiters (User_lock 0), [])] [(0, TASK_RUNNING), (1, TASK_READY)] 0"

definition demo2_queues :: queue_view where
  "demo2_queues = map_of [(Ready_list, [1]), (All_list, [0, 1]), (Pool_list, []),
     (Waiters Tid_lock, []), (Waiters (User_lock 0), [])]"

definition outside :: "task \<Rightarrow> lpc" where "outside = (\<lambda>_. Outside)"

lemma outside_simps [simp]: "outside t = Outside" "outside(t := Outside) = outside"
  by (auto simp: outside_def)

lemma demo2_inv: "sched_inv demo2 demo2_queues"
  unfolding demo2_def demo2_queues_def
  by (rule demo_inv) (simp add: demo_ok_def general_members_def)

lemma demo2_simps [simp]:
  "current_task demo2 = Some 0" "demo2_queues Ready_list = Some [1]"
  "demo2_queues (Waiters (User_lock 0)) = Some []" "locks demo2 l = demo_lock" "irq_on demo2"
  "lock_free demo_lock" "lock_ok demo_lock" "holder demo_lock = None"
  by (simp_all add: demo2_def demo_state_def demo2_queues_def irq_on_def lock_free_def demo_lock_def lock_ok_def)

lemma demo2_start: "lock_start l (demo2, outside)"
  by (simp add: lock_start_def outside_def)

text \<open>
  The main task takes the lock, is preempted, and the other task waits for the lock, which
  switches back to the main task. Nothing is preempted inside the functions.
\<close>

lemma demo_contended:
  assumes l: "l = User_lock 0" and w: "Inside \<in> W"
  obtains k where "code_reach W l (demo2, outside) (k, outside(0 := Inside, 1 := Down_test))"
    and "sched_inv k (demo2_queues(Ready_list \<mapsto> [], Waiters l \<mapsto> [1]))" and "current_task k = Some 0"
    and "lock_held (locks k l) 0" and "holder_repeat_nr (locks k l) = 1"
proof -
  let ?Q = demo2_queues
  obtain k1 where k1: "lock_acquire demo2 l = Inr (Returned (), k1)" "sched_inv k1 ?Q"
    "current_task k1 = Some 0" "lock_held (locks k1 l) 0" "holder_repeat_nr (locks k1 l) = 1" "irq_on k1"
    using lock_acquire_free [OF demo2_inv, of 0 l] demo2_inv by (simp add: lock_held_def)
  have r1: "code_reach W l (demo2, outside) (k1, outside(0 := Inside))"
    using reach_acquire [OF rtranclp.rtrancl_refl _ _ k1(1), of 0 outside W] by simp
  obtain k2 where k2: "code_reach W l (demo2, outside) (k2, outside(0 := Inside))"
    "sched_inv k2 (?Q(Ready_list \<mapsto> [] @ [0]))" "current_task k2 = Some 1" "locks k2 = locks k1"
    by (rule reach_preempt [OF r1 k1(2,3) _ k1(6), of 1 "[]"]) (use w in auto)
  let ?k = "interrupt_disable k2"
  have v: "sema_val ?k l = 0" using k1(4) k2(4) by (simp add: lock_held_def sema_val_def)
  obtain k3 where k3: "sema_down_loop ?k l = Inr (Switched, k3)"
    "sched_inv k3 ((?Q(Ready_list \<mapsto> [] @ [0]))(Waiters l \<mapsto> [] @ [1], Ready_list \<mapsto> []))"
    "current_task k3 = Some 0" "locks k3 = locks ?k"
    by (rule sema_down_loop_wait [of ?k "?Q(Ready_list \<mapsto> [] @ [0])" 1 l "[]" 0 "[]"])
      (use k2 v in \<open>simp_all add: l\<close>)
  have h2: "holder (locks k2 l) = Some 0" using k1(4) k2(4) by (simp add: lock_held_def)
  have a: "lock_acquire k2 l = Inr (Switched, k3)"
    using k3(1) k2(3) h2 by (simp add: lock_acquire_def sema_down_def)
  have r3: "code_reach W l (demo2, outside) (k3, (outside(0 := Inside))(1 := Down_test))"
    using reach_acquire [OF k2(1,3) _ a] by simp
  have "(?Q(Ready_list \<mapsto> [] @ [0]))(Waiters l \<mapsto> [] @ [1], Ready_list \<mapsto> [])
      = ?Q(Ready_list \<mapsto> [], Waiters l \<mapsto> [1])" by auto
  with r3 k3 k1(4,5) k2(4) show ?thesis by (intro that [of k3]) simp_all
qed

text \<open>
  The main task then gives the lock back, and the clock signal resumes the woken task at the head of
  its loop: the lock is free, and the signal is let in.
\<close>

lemma demo_woken:
  assumes l: "l = User_lock 0" and w: "Inside \<in> W" "Outside \<in> W"
  obtains k k' where "code_reach W l (demo2, outside) (k, outside(1 := Down_test))" and "irq_on k" and "current_task k = Some 0"
    and "schedule k = Inr k'" and "code_reach W l (demo2, outside) (k', outside(1 := Down_test))" and "current_task k' = Some 1"
    and "sched_inv k' (demo2_queues(Ready_list \<mapsto> [0], Waiters l \<mapsto> []))" and "lock_free (locks k' l)" and "irq_on k'"
proof -
  let ?pcs = "outside(0 := Inside, 1 := Down_test)" and ?s = "(demo2, outside)"
  let ?Q1 = "demo2_queues(Ready_list \<mapsto> [], Waiters l \<mapsto> [1])"
  obtain k1 where k1: "code_reach W l ?s (k1, ?pcs)" "sched_inv k1 ?Q1" "current_task k1 = Some 0"
    "lock_held (locks k1 l) 0" "holder_repeat_nr (locks k1 l) = 1"
    by (rule demo_contended [OF l w(1)])
  let ?Q2 = "?Q1(Waiters l \<mapsto> [], Ready_list \<mapsto> [1])"
  obtain k2 where k2: "code_reach W l ?s (k2, ?pcs(0 := Up_load))" "sched_inv k2 ?Q2"
    "current_task k2 = Some 0" "holder (locks k2 l) = None" "sema_val k2 l = 0"
    "holder_repeat_nr (locks k2 l) = 0" "irq_on k2"
    by (rule reach_wake [OF k1(1-3) _ k1(4,5), of 1 "[]" "[]"]) (simp_all add: l)
  let ?k3 = "interrupt_enable (upd_lock k2 l (set_value 1))"
  have "code_reach W l ?s (?k3, (?pcs(0 := Up_load))(0 := Outside))"
    by (rule reach_post [OF k2(1,3) _ k2(5)]) simp
  moreover have pcs: "(?pcs(0 := Up_load))(0 := Outside) = outside(1 := Down_test)" by auto
  ultimately have r3: "code_reach W l ?s (?k3, outside(1 := Down_test))" by (simp only:)
  have k3: "sched_inv ?k3 ?Q2" "current_task ?k3 = Some 0" "irq_on ?k3" using k2 by simp_all
  obtain k4 where k4: "schedule ?k3 = Inr k4" "code_reach W l ?s (k4, outside(1 := Down_test))"
    "sched_inv k4 (?Q2(Ready_list \<mapsto> [] @ [0]))" "current_task k4 = Some 1" "locks k4 = locks ?k3" "irq_on k4"
    by (rule reach_preempt [OF r3 k3(1,2) _ k3(3), of 1 "[]"]) (use w in auto)
  have "?Q2(Ready_list \<mapsto> [] @ [0]) = demo2_queues(Ready_list \<mapsto> [0], Waiters l \<mapsto> [])" by auto
  moreover have "lock_free (locks k4 l)" using k4(5) k2(4,6) by (simp add: lock_free_def)
  ultimately show ?thesis using r3 k3 k4 by (intro that [of ?k3 k4]) simp_all
qed

section \<open>Properties\<close>

lemma code_lock_reach: "code_reach W l s s' \<Longrightarrow> lock_reach W l s s'"
  by (induction rule: rtranclp_induct) (auto intro: lock_step.code rtranclp.rtrancl_into_rtrancl)

text \<open>
  C1. Mutual exclusion, as far as the code has it. Take any interleaving of the pieces of the lock
  functions of any number of tasks, with wrong calls (releasing without holding, recursive acquisition),
  with any other activity of tasks that are in none of these functions, and with preemptions between
  any two pieces except in one place: between the test of the semaphore's value in \<open>sema_down\<close> and the store of
  the lowered value. Then at most one task is inside the critical section of a lock that was free at
  first, it is the recorded holder, and the value is 0. The place excluded is the only one that matters:
  the races below are what a preemption there does.
\<close>

theorem mutual_exclusion:
  assumes "W \<inter> window = {}" and "lock_start l s0" and "lock_reach W l s0 (k, pcs)" and "pcs t = Inside"
  shows "holder (locks k l) = Some t \<and> sema_val k l = 0 \<and> {u. pcs u = Inside} = {t}"
proof -
  note inv = lock_invD [OF lock_reach_inv [OF assms(3,2,1)]]
  have "u = t" if "pcs u = Inside" for u using inv(1) [of u t] that assms(4) by simp
  then have "{u. pcs u = Inside} = {t}" using assms(4) by blast
  then show ?thesis using inv(2) [of t] inv(3) [of t] assms(4) by simp
qed

theorem mutual_exclusion_witness:
  "\<exists>k pcs. lock_reach (- window) (User_lock 0) (demo2, outside) (k, pcs) \<and> {u. pcs u = Inside} = {0} \<and> pcs 1 = Down_test"
proof -
  let ?pcs = "outside(0 := Inside, 1 := Down_test)"
  obtain k where k: "code_reach (- window) (User_lock 0) (demo2, outside) (k, ?pcs)"
    by (rule demo_contended [of "User_lock 0" "- window"]) simp_all
  have "- window \<inter> window = {}" "?pcs 0 = Inside" by auto
  from mutual_exclusion [OF this(1) demo2_start code_lock_reach [OF k] this(2)] code_lock_reach [OF k]
  show ?thesis by (intro exI [of _ k] exI [of _ ?pcs]) (simp add: fun_upd_def)
qed

text \<open>
  C16. Two tasks inside one critical section. A task that waited in \<open>sema_down\<close> and was woken is resumed
  by the clock signal, with the signal let in, although the code between the wait and the end of \<open>sema_down\<close>
  counts on it being blocked. It loads the value 1 and is preempted; the main task acquires the lock
  up to its last store; the woken task goes on with what it had loaded, passes its assertions and
  enters; the main task stores its count and is inside as well.
\<close>

theorem exclusion_broken:
  defines "l \<equiv> User_lock 0"
  shows "\<exists>k1 k2 k. lock_start l (demo2, outside) \<and> code_reach UNIV l (demo2, outside) (k1, outside(1 := Down_test))
    \<and> schedule k1 = Inr k2 \<and> current_task k2 = Some 1
    \<and> code_reach UNIV l (k2, outside(1 := Down_test)) (k, outside(0 := Inside, 1 := Inside))"
proof -
  obtain k1 k2 where k: "code_reach UNIV l (demo2, outside) (k1, outside(1 := Down_test))" "schedule k1 = Inr k2"
    "current_task k2 = Some 1" "sched_inv k2 (demo2_queues(Ready_list \<mapsto> [0], Waiters l \<mapsto> []))" "lock_free (locks k2 l)" "irq_on k2"
    by (rule demo_woken [of l UNIV]) (simp_all add: l_def)
  let ?s = "(k2, outside(1 := Down_test))" and ?Q = "demo2_queues(Ready_list \<mapsto> [0], Waiters l \<mapsto> [])"
  have "run_pieces 2 l Down_test k2 = Inr (Down_store 1, k2)"
    using k(5) by (simp add: numeral_eq_Suc sema_val_def lock_free_def)
  then have r2: "code_reach UNIV l ?s (k2, outside(1 := Down_store 1))"
    using reach_run [OF rtranclp.rtrancl_refl k(3), of "outside(1 := Down_test)" Down_test 2 l] by simp
  obtain k3 where k3: "code_reach UNIV l ?s (k3, outside(1 := Down_store 1))" "sched_inv k3 (?Q(Ready_list \<mapsto> [] @ [1]))"
    "current_task k3 = Some 0" "locks k3 = locks k2" "irq_on k3"
    by (rule reach_preempt [OF r2 k(4,3) _ k(6), of 0 "[]"]) simp_all
  have r3: "code_reach UNIV l ?s (k3, outside(1 := Down_store 1, 0 := Acq_test False))"
    using rtranclp.rtrancl_into_rtrancl [OF k3(1) code_step.acquire [of k3 0 "outside(1 := Down_store 1)" UNIV l]] k3(3) by simp
  let ?k4 = "upd_lock (interrupt_enable (upd_lock (interrupt_disable k3) l (set_value 0))) l (\<lambda>x. x\<lparr>holder := Some 0\<rparr>)"
  have "run_pieces 9 l (Acq_test False) k3 = Inr (Set_nr, ?k4)"
    using k3(3,4) k(5) by (simp add: numeral_eq_Suc lock_free_def) (simp add: sema_val_def)
  then have r4: "code_reach UNIV l ?s (?k4, outside(1 := Down_store 1, 0 := Set_nr))"
    using reach_run [OF r3 k3(3), of "Acq_test False" 9 Set_nr ?k4] by simp
  have k4: "sched_inv ?k4 (?Q(Ready_list \<mapsto> [] @ [1]))" "current_task ?k4 = Some 0" "irq_on ?k4" "holder_repeat_nr (locks ?k4 l) = 0"
    using k3 k(5) by (simp_all add: lock_free_def)
  obtain k5 where k5: "code_reach UNIV l ?s (k5, outside(1 := Down_store 1, 0 := Set_nr))" "sched_inv k5 (?Q(Ready_list \<mapsto> [0]))"
    "current_task k5 = Some 1" "locks k5 = locks ?k4" "irq_on k5"
    by (rule reach_preempt [OF r4 k4(1,2) _ k4(3), of 1 "[]"]) simp_all
  let ?k6 = "upd_lock (upd_lock (interrupt_enable (upd_lock k5 l (set_value 0))) l (\<lambda>x. x\<lparr>holder := Some 1\<rparr>)) l (\<lambda>x. x\<lparr>holder_repeat_nr := 1\<rparr>)"
  have "run_pieces 6 l (Down_store 1) k5 = Inr (Inside, ?k6)"
    using k4(4) k5(3,4) by (simp add: numeral_eq_Suc)
  then have r6: "code_reach UNIV l ?s (?k6, outside(1 := Inside, 0 := Set_nr))"
    using reach_run [OF k5(1,3), of "Down_store 1" 6 Inside ?k6] by (simp add: fun_upd_twist)
  have k6: "sched_inv ?k6 (?Q(Ready_list \<mapsto> [0]))" "current_task ?k6 = Some 1" "irq_on ?k6" using k5 by simp_all
  obtain k7 where k7: "code_reach UNIV l ?s (k7, outside(1 := Inside, 0 := Set_nr))" "current_task k7 = Some 0"
    by (rule reach_preempt [OF r6 k6(1,2) _ k6(3), of 0 "[]"]) simp_all
  let ?k8 = "upd_lock k7 l (\<lambda>x. x\<lparr>holder_repeat_nr := 1\<rparr>)"
  have "code_reach UNIV l ?s (?k8, outside(0 := Inside, 1 := Inside))"
    using reach_own [OF k7, of Inside ?k8] by (simp add: fun_upd_twist)
  then show ?thesis using k(1-3) demo2_start by blast
qed


text \<open>
  C19. The wait is not atomic for a woken task: when the clock signal (and not a blocking task)
  switches to it, it leaves the waiting loop with interrupts on. In the states shown it
  has been resumed that way, is preempted between testing and loading the value, the main task takes the
  lock again, and the second decrement makes the value 255: the assertion of the woken task
  fails, and so does the one in the holder's release. Where no preemption falls in that place
  the value is 0 or 1 whatever happens.
\<close>

theorem semaphore_double_decrement:
  defines "l \<equiv> User_lock 0"
  shows "(\<exists>k1 k2 k. code_reach UNIV l (demo2, outside) (k1, outside(1 := Down_test)) \<and> irq_on k1 \<and> schedule k1 = Inr k2
      \<and> current_task k2 = Some 1 \<and> code_reach UNIV l (k2, outside(1 := Down_test)) (k, outside(0 := Inside, 1 := Down_check))
      \<and> current_task k = Some 1 \<and> sema_val k l = 255 \<and> piece l Down_check k = Inl Assert_spin \<and> sema_up k l = Inl Assert_spin)
    \<and> (\<forall>W (k :: kstate) pcs. W \<inter> window = {} \<longrightarrow> lock_reach W l (demo2, outside) (k, pcs) \<longrightarrow> sema_val k l \<in> {0, 1})"
proof -
  obtain k1 k2 where k: "code_reach UNIV l (demo2, outside) (k1, outside(1 := Down_test))" "irq_on k1" "schedule k1 = Inr k2"
    "current_task k2 = Some 1" "sched_inv k2 (demo2_queues(Ready_list \<mapsto> [0], Waiters l \<mapsto> []))" "lock_free (locks k2 l)" "irq_on k2"
    by (rule demo_woken [of l UNIV]) (simp_all add: l_def)
  let ?s = "(k2, outside(1 := Down_test))" and ?Q = "demo2_queues(Ready_list \<mapsto> [0], Waiters l \<mapsto> [])"
  have "sema_val k2 l \<noteq> 0" using k(6) by (simp add: sema_val_def lock_free_def)
  then have r2: "code_reach UNIV l ?s (k2, outside(1 := Down_load))"
    using reach_own [OF rtranclp.rtrancl_refl k(4), of l "outside(1 := Down_test)" Down_load k2] by simp
  obtain k3 where k3: "code_reach UNIV l ?s (k3, outside(1 := Down_load))" "sched_inv k3 (?Q(Ready_list \<mapsto> [] @ [1]))"
    "current_task k3 = Some 0" "locks k3 = locks k2" "irq_on k3"
    by (rule reach_preempt [OF r2 k(5,4) _ k(7), of 0 "[]"]) simp_all
  have f3: "lock_free (locks k3 l)" using k(6) k3(4) by simp
  obtain k4 where k4: "lock_acquire k3 l = Inr (Returned (), k4)" "sched_inv k4 (?Q(Ready_list \<mapsto> [] @ [1]))"
    "current_task k4 = Some 0" "sema_val k4 l = 0" "irq_on k4"
    using lock_acquire_free [OF k3(2,3) f3] k3(2,3) by (simp add: sema_val_def)
  have r4: "code_reach UNIV l ?s (k4, outside(1 := Down_load, 0 := Inside))"
    using reach_acquire [OF k3(1,3) _ k4(1)] by simp
  obtain k5 where k5: "code_reach UNIV l ?s (k5, outside(1 := Down_load, 0 := Inside))" "current_task k5 = Some 1" "locks k5 = locks k4"
    by (rule reach_preempt [OF r4 k4(2,3) _ k4(5), of 1 "[]"]) simp_all
  let ?k6 = "upd_lock k5 l (set_value (- 1))"
  have "sema_val k5 l = 0" using k4(4) k5(3) by (simp add: sema_val_def)
  then have "run_pieces 2 l Down_load k5 = Inr (Down_check, ?k6)" by (simp add: numeral_eq_Suc)
  then have r6: "code_reach UNIV l ?s (?k6, outside(0 := Inside, 1 := Down_check))"
    using reach_run [OF k5(1,2), of Down_load 2 Down_check ?k6] by (simp add: fun_upd_twist)
  have "sema_up ?k6 l = Inl Assert_spin" by (simp add: sema_up_def sema_up_wake_def Let_def)
  moreover have "piece l Down_check ?k6 = Inl Assert_spin" by simp
  moreover have "current_task ?k6 = Some 1" using k5(2) by simp
  moreover have "sema_val ?k6 l = 255" by simp
  moreover have "sema_val k l \<in> {0, 1}"
    if "W \<inter> window = {}" "lock_reach W l (demo2, outside) (k, pcs)" for W and k :: kstate and pcs
    using lock_invD(8) [OF lock_reach_inv [OF that(2) demo2_start that(1)]] by simp
  ultimately show ?thesis using k(1-4) r6 by blast
qed

theorem semaphore_double_decrement_witness:
  "\<exists>(k :: kstate) pcs. lock_reach (- window) (User_lock 0) (demo2, outside) (k, pcs) \<and> pcs 0 = Inside \<and> sema_val k (User_lock 0) \<in> {0, 1}"
proof -
  let ?pcs = "outside(0 := Inside, 1 := Down_test)"
  obtain k where "code_reach (- window) (User_lock 0) (demo2, outside) (k, ?pcs)"
    by (rule demo_contended [of "User_lock 0" "- window"]) simp_all
  then have k: "lock_reach (- window) (User_lock 0) (demo2, outside) (k, ?pcs)" by (rule code_lock_reach)
  have "- window \<inter> window = {}" by auto
  then have "sema_val k (User_lock 0) \<in> {0, 1}" using semaphore_double_decrement k by blast
  then show ?thesis using k by (intro exI [of _ k] exI [of _ ?pcs]) simp
qed

end
