(* ===== verification/UtsLocks.thy ===== *)
theory UtsLocks
  imports Sleeping Mutex
begin

text \<open>
  Locks on the user scheduler. Its clock signal is SIGALRM, but \<open>interrupt_disable\<close> of its
  interrupt/analog_interrupt.c blocks SIGUSR1: the critical sections of task/sync.c are open to the
  clock.
\<close>

lemma uts_ok_irq: "uts_ok s Q \<Longrightarrow> uts_ok (interrupt_disable s) Q"
  using wheel_same [of "{}" "[]" s _ "interrupt_disable s"] more_fields [of "interrupt_disable s" s]
  by (auto simp: uts_ok_def timer_idle_def asleep_ok_def sleeper_def same_timers_def)

text \<open>A value that has wrapped: the task that checks it spins, and so does a release that gives the lock up.\<close>

lemma wrapped_take:
  assumes "sema_val s l = 0"
  shows "\<exists>s'. piece l Down_load s = Inr (Down_store 0, s) \<and> piece l (Down_store 0) s = Inr (Down_check, s')
    \<and> sema_val s' l = 255 \<and> piece l Down_check s' = Inl Assert_spin"
  using assms by (intro exI [of _ "upd_lock s l (set_value (- 1))"]) simp

lemma wrapped_release:
  assumes "sema_val k l = 255" and "holder_repeat_nr (locks k l) \<le> 1"
  shows "lock_release k l = Inl Assert_spin"
proof -
  have "\<not> holder_repeat_nr (locks k l) > 1" using assms(2) by simp
  then show ?thesis using assms(1)
    by (simp add: lock_release_def sema_up_def sema_up_wake_def Let_def bnd_def assert_c_def user_spin_def)
qed

text \<open>A clock signal that takes the processor from a task inside \<open>interrupt_disable\<close>.\<close>

lemma unshielded_tick:
  assumes ok: "uts_ok s Q" and c: "current_task s = Some c" "tasks s c = Some tc"
    and spent: "\<not> is_collaborative_schedule tc" "ticks tc = 0" and rs: "Q Ready_list = Some (n # rs)"
    and l: "l \<noteq> Timer_lock" and env: "tick_env uc now m (interrupt_disable s)"
    and d: "d SIGALRM = Signal_headler" "SIGALRM \<notin> sigmask s"
  obtains s2 rest where "deliver uc now (Some m) d SIGALRM (interrupt_disable s) = Some (Inr (Returned (), s2))"
    and "current_task s2 = Some n" and "sched_inv s2 (Q(Ready_list \<mapsto> rest))" and "locks s2 l = locks s l"
proof -
  let ?s = "interrupt_disable s"
  have c1: "current_task ?s = Some c" "tasks ?s c = Some tc" using c by simp_all
  obtain ws where "if is_collaborative_schedule tc \<and> (n # rs) @ ws = [] then uts_timer_handler uc ?s now (Some m) = Inl Idle_spin
      else \<exists>s'. uts_timer_handler uc ?s now (Some m) = Inr (Returned (), s') \<and> ticked now m ?s Q c tc ws s'"
    by (rule tick_result [OF uts_ok_irq [OF ok] env c1 rs])
  then obtain s2 where s2: "uts_timer_handler uc ?s now (Some m) = Inr (Returned (), s2)" "ticked now m ?s Q c tc ws s2" by auto
  obtain rest where "current_task s2 = Some n" "uts_ok s2 (Q(Ready_list \<mapsto> rest))" "locks s2 l = locks s l"
    using s2(2) spent rs l by (auto simp: ticked_def tick_choice_def rr_step_def)
  moreover have "SIGALRM \<notin> sigmask ?s"
    using d(2) by (simp add: interrupt_disable_def sigaddset_def sigemptyset_def SIGALRM_def SIGUSR1_def)
  then have "deliver uc now (Some m) d SIGALRM ?s = Some (Inr (Returned (), s2\<lparr>sigmask := sigmask ?s\<rparr>))"
    using d(1) s2(1) by (simp add: deliver_def signal_headler_def sigreturn_def)
  moreover have "sched_inv (s2\<lparr>sigmask := sigmask ?s\<rparr>) (Q(Ready_list \<mapsto> rest))"
    using sched_inv_cong [of "s2\<lparr>sigmask := sigmask ?s\<rparr>" s2] calculation(2) by (simp add: uts_ok_def timer_idle_def)
  ultimately show ?thesis by (intro that [of "s2\<lparr>sigmask := sigmask ?s\<rparr>" rest]) simp_all
qed

text \<open>
  C23. \<open>interrupt_disable\<close> does not shield the user scheduler from its clock. A task that has masked the
  signals and found a free lock's semaphore at one is interrupted by SIGALRM before it lowers it;
  the next task acquires the lock; when the first task goes on while the lock is held like that, the value wraps to 255 and
  its assertion fails. While the value is 255 every release that would give the lock up, the holder's
  at a repeat count of one included, fails its own assertion and spins; one at a higher count only lowers the count.
\<close>

theorem uts_locks_unshielded:
  assumes ok: "uts_ok s Q" and c: "current_task s = Some c" "tasks s c = Some tc"
    and spent: "\<not> is_collaborative_schedule tc" "ticks tc = 0" and rs: "Q Ready_list = Some (n # rs)"
    and l: "l \<noteq> Timer_lock" "lock_free (locks s l)" and env: "tick_env uc now m (interrupt_disable s)"
    and d: "d SIGALRM = Signal_headler" "SIGALRM \<notin> sigmask s"
  shows "\<exists>s2 s3. piece l Down_entry s = Inr (Down_test, interrupt_disable s)
    \<and> piece l Down_test (interrupt_disable s) = Inr (Down_load, interrupt_disable s)
    \<and> deliver uc now (Some m) d SIGALRM (interrupt_disable s) = Some (Inr (Returned (), s2)) \<and> current_task s2 = Some n
    \<and> lock_acquire s2 l = Inr (Returned (), s3) \<and> holder (locks s3 l) = Some n \<and> holder_repeat_nr (locks s3 l) = 1
    \<and> (\<forall>s4 :: 'a tstate_scheme. locks s4 l = locks s3 l \<longrightarrow> (\<exists>s5. piece l Down_load s4 = Inr (Down_store 0, s4)
         \<and> piece l (Down_store 0) s4 = Inr (Down_check, s5) \<and> sema_val s5 l = 255 \<and> piece l Down_check s5 = Inl Assert_spin))
    \<and> (\<forall>k :: 'a tstate_scheme. sema_val k l = 255 \<longrightarrow> holder_repeat_nr (locks k l) \<le> 1 \<longrightarrow> lock_release k l = Inl Assert_spin)"
proof -
  let ?s = "interrupt_disable s"
  obtain s2 rest where s2: "deliver uc now (Some m) d SIGALRM ?s = Some (Inr (Returned (), s2))" "current_task s2 = Some n"
    and inv: "sched_inv s2 (Q(Ready_list \<mapsto> rest))" and free: "locks s2 l = locks s l"
    by (rule unshielded_tick [where d = d, OF ok c spent rs l(1) env d])
  obtain s3 where s3: "lock_acquire s2 l = Inr (Returned (), s3)" "holder_repeat_nr (locks s3 l) = 1" "sema_val s3 l = 0"
    "holder (locks s3 l) = Some n"
    using lock_acquire_free [OF inv s2(2)] free l(2) by simp
  have "piece l Down_test ?s = Inr (Down_load, ?s)" using l(2) by (simp add: sema_val_def lock_free_def)
  moreover have "\<exists>s5. piece l Down_load s4 = Inr (Down_store 0, s4) \<and> piece l (Down_store 0) s4 = Inr (Down_check, s5)
      \<and> sema_val s5 l = 255 \<and> piece l Down_check s5 = Inl Assert_spin"
    if "locks s4 l = locks s3 l" for s4 :: "'a tstate_scheme"
    using s3(3) that by (intro wrapped_take) (simp add: sema_val_def)
  moreover have "\<forall>k :: 'a tstate_scheme. sema_val k l = 255 \<longrightarrow> holder_repeat_nr (locks k l) \<le> 1 \<longrightarrow> lock_release k l = Inl Assert_spin"
    by (intro allI impI wrapped_release)
  moreover have "piece l Down_entry s = Inr (Down_test, ?s)" by simp
  ultimately show ?thesis using s2 s3(1,2,4) by blast
qed

theorem uts_locks_unshielded_witness:
  "\<exists>(s2 :: tstate) s3. deliver idle_code 5000 (Some 8) (\<lambda>_. Signal_headler) SIGALRM (interrupt_disable two_tasks)
      = Some (Inr (Returned (), s2)) \<and> current_task s2 = Some 1 \<and> lock_acquire s2 (User_lock 0) = Inr (Returned (), s3)"
proof -
  let ?tc = "(demo_task 0 TASK_RUNNING)\<lparr>stack_magic := 0x19991120\<rparr>"
  have t: "tasks two_tasks 0 = Some ?tc" by simp
  have "lock_free (locks two_tasks (User_lock 0))" "SIGALRM \<notin> sigmask two_tasks"
    by (simp_all add: two_tasks_def uts_demo_def Let_def kstate.extend_def demo_state_def lock_free_def demo_lock_def)
  moreover have "timers (interrupt_disable two_tasks) = Map.empty" "uJiffies (interrupt_disable two_tasks) = 5000"
    using more_fields [of "interrupt_disable two_tasks" two_tasks] by simp_all
  then have "tick_env idle_code 5000 8 (interrupt_disable two_tasks)"
    by (auto simp: tick_env_def idle_code_calm periods_fit_def demo_task_def task_zero_def)
  ultimately show ?thesis
    using uts_locks_unshielded [OF two_tasks_ok _ t, of 1 "[]" "User_lock 0" idle_code 5000 8 "\<lambda>_. Signal_headler"]
    by (auto simp: demo_task_def task_zero_def)
qed

end
