(* ===== verification/ProgramRuns.thy ===== *)
theory ProgramRuns
  imports UserPrograms Sleeping Selection
begin

text \<open>
  Whole runs of the programs of the user scheduler, from a fresh process: the start of the library,
  of hundreds of tasks, and the wait for their end.
\<close>

section \<open>Starting many tasks\<close>

text \<open>
  What the start of the tasks \<open>i\<close> to \<open>i + n - 1\<close> needs: argument blocks and structures from \<open>malloc\<close>,
  at addresses \<open>tp\<close> that are free and distinct.
\<close>

definition can_start :: "uenv \<Rightarrow> task_mem \<Rightarrow> (nat \<Rightarrow> task) \<Rightarrow> nat \<Rightarrow> nat \<Rightarrow> 'a kstate_scheme \<Rightarrow> bool" where
  "can_start e mm tp i n k \<longleftrightarrow> inj_on tp {i..<i + n}
     \<and> (\<forall>j\<in>{i..<i + n}. u_args e j \<and> fst (mm j) = Some (tp j) \<and> tasks k (tp j) = None \<and> main_task k \<noteq> Some (tp j))"

definition joined :: "queue_view \<Rightarrow> task list \<Rightarrow> queue_view" where
  "joined Q ts = Q(Ready_list \<mapsto> the (Q Ready_list) @ ts, All_list \<mapsto> the (Q All_list) @ ts)"

lemma joined_simps [simp]:
  "joined (joined Q us) vs = joined Q (us @ vs)" "joined Q ts Ready_list = Some (the (Q Ready_list) @ ts)"
  "joined Q ts All_list = Some (the (Q All_list) @ ts)" "joined Q ts Pool_list = Q Pool_list"
  "joined Q ts (Waiters l) = Q (Waiters l)"
  by (auto simp: joined_def fun_eq_iff)

lemma joined_Nil: "Q Ready_list = Some rs \<Longrightarrow> Q All_list = Some as \<Longrightarrow> joined Q [] = Q"
  by (auto simp: joined_def fun_eq_iff)

text \<open>A scheduler with \<open>m\<close> task numbers given out, ready to start tasks.\<close>

definition ready_to_start :: "'a kstate_scheme \<Rightarrow> queue_view \<Rightarrow> nat \<Rightarrow> bool" where
  "ready_to_start k Q m \<longleftrightarrow> sched_inv k Q \<and> tid_pool_ok k Q \<and> Q Pool_list = Some [] \<and> used (tid_bitmap k) = {..<m}
     \<and> bits_cap (tid_bitmap k) = 1000800"

definition same_rest :: "'a kstate_scheme \<Rightarrow> 'a kstate_scheme \<Rightarrow> bool" where
  "same_rest k k' \<longleftrightarrow> kstate.more k' = kstate.more k \<and> locks k' = locks k \<and> current_task k' = current_task k
     \<and> main_task k' = main_task k"

lemma same_rest_trans: "same_rest k k1 \<Longrightarrow> same_rest k1 k2 \<Longrightarrow> same_rest k k2"
  by (simp add: same_rest_def)

text \<open>Task \<open>j\<close> of a program whose task \<open>i\<close> got the number \<open>m + 1\<close>.\<close>

definition nth_task ::
    "uenv \<Rightarrow> abi \<Rightarrow> task_mem \<Rightarrow> (nat \<Rightarrow> 64 word) \<Rightarrow> 64 word \<Rightarrow> string \<Rightarrow> nat \<Rightarrow> nat \<Rightarrow> task_struct" where
  "nth_task e a mm ap fp nm j num = new_task a nm (word_of_int (generate_random_priority (u_rnd e j))) (snd (mm j))
     (ucast (of_nat num :: 32 word)) fp (ap j)"

lemma lowest_free_upto: "used b = {..<m} \<Longrightarrow> lowest_free b = m"
  unfolding lowest_free_def by (rule Least_equality) (auto simp: not_less)

lemma task_start_ready:
  assumes s: "ready_to_start k Q m" and m: "m < 1000800" and nm: "length nm < 32"
    and t: "tasks k t = None" "main_task k \<noteq> Some t"
  obtains k' where "task_start k a (Some t) stk nm prio func arg = Inr (Returned (Some t), k')"
    and "ready_to_start k' (joined Q [t]) (Suc m)" and "same_rest k k'"
    and "tasks k' = (tasks k)(t \<mapsto> new_task a nm prio stk (ucast (of_nat (Suc m) :: 32 word)) func arg)"
proof -
  have inv: "sched_inv k Q" "tid_pool_ok k Q" "Q Pool_list = Some []" and u: "used (tid_bitmap k) = {..<m}"
    and cap: "bits_cap (tid_bitmap k) = 1000800"
    using s by (simp_all add: ready_to_start_def)
  obtain rs as where q: "Q Ready_list = Some rs" "Q All_list = Some as" using inv(1) by (elim sched_invE)
  have lf: "lowest_free (tid_bitmap k) = m" by (rule lowest_free_upto [OF u])
  have mi: "m < bits_cap (tid_bitmap k)" "m \<notin> used (tid_bitmap k)" using m cap u by simp_all
  obtain k' ti where k': "task_start k a (Some t) stk nm prio func arg = Inr (Returned (Some t), k')"
    "tasks k' = (tasks k)(t \<mapsto> new_task a nm prio stk ti func arg)"
    "ti = ucast (of_nat (lowest_free (tid_bitmap k)) + 1 :: 32 word)"
    "used (tid_bitmap k') = insert (lowest_free (tid_bitmap k)) (used (tid_bitmap k))"
    "sched_inv k' (Q(Ready_list \<mapsto> rs @ [t], All_list \<mapsto> as @ [t]))"
    "tid_pool_ok k' (Q(Ready_list \<mapsto> rs @ [t], All_list \<mapsto> as @ [t]))"
    "current_task k' = current_task k" "main_task k' = main_task k"
    "bits_cap (tid_bitmap k') = bits_cap (tid_bitmap k)" "kstate.more k' = kstate.more k" "locks k' = locks k"
    using task_start_result [OF inv q t nm mi, of a stk prio func arg] by blast
  have Q': "Q(Ready_list \<mapsto> rs @ [t], All_list \<mapsto> as @ [t]) = joined Q [t]" using q by (simp add: joined_def)
  have "ready_to_start k' (joined Q [t]) (Suc m)"
    using k' inv(3) u lf cap by (simp add: ready_to_start_def Q' lessThan_Suc)
  moreover have "same_rest k k'" using k'(7,8,10,11) by (simp add: same_rest_def)
  moreover have "tasks k' = (tasks k)(t \<mapsto> new_task a nm prio stk (ucast (of_nat (Suc m) :: 32 word)) func arg)"
    using k'(2,3) lf by (simp add: add.commute)
  ultimately show ?thesis by (rule that [OF k'(1)])
qed

lemma start_one_result:
  assumes s: "ready_to_start k Q m" and e: "can_start e mm tp i (Suc n) k" and m: "m < 1000800" and nm: "length nm < 32"
  obtains k' p' where "start_one e a mm ap fp nm msg i k p = Inr (None, k', p')" and "ready_to_start k' (joined Q [tp i]) (Suc m)"
    and "tasks k' = (tasks k)(tp i \<mapsto> nth_task e a mm ap fp nm i (Suc m))" and "same_rest k k'"
    and "can_start e mm tp (Suc i) n k'" and "sent p' = sent p"
proof -
  have i: "u_args e i" "fst (mm i) = Some (tp i)" "tasks k (tp i) = None" "main_task k \<noteq> Some (tp i)"
    using e by (auto simp: can_start_def)
  let ?prio = "generate_random_priority (u_rnd e i)"
  obtain k' where k': "task_start k a (Some (tp i)) (snd (mm i)) nm (word_of_int ?prio) fp (ap i) = Inr (Returned (Some (tp i)), k')"
    "ready_to_start k' (joined Q [tp i]) (Suc m)" "same_rest k k'"
    "tasks k' = (tasks k)(tp i \<mapsto> nth_task e a mm ap fp nm i (Suc m))"
    unfolding nth_task_def by (rule task_start_ready [OF s m nm i(3,4)])
  let ?p = "p\<lparr>args_blocks := args_blocks p @ [\<lparr>arg_priority = ?prio, arg_message = msg\<rparr>]\<rparr>"
  have "start_one e a mm ap fp nm msg i k p = Inr (None, k', ?p)"
    using i k'(1) by (simp add: start_one_def Let_def)
  moreover have "can_start e mm tp (Suc i) n k'"
  proof -
    have ij: "tp j \<noteq> tp i" if "j \<in> {Suc i..<Suc i + n}" for j
      using e that inj_onD [of tp "{i..<i + Suc n}" j i] by (auto simp: can_start_def)
    have "inj_on tp {Suc i..<Suc i + n}" using e by (auto simp: can_start_def intro: inj_on_subset)
    then show ?thesis using e k'(3,4) ij by (auto simp: can_start_def same_rest_def)
  qed
  ultimately show ?thesis using k'(2-4) by (intro that [of k' ?p]) simp_all
qed

lemma start_loop_result:
  "ready_to_start k Q m \<Longrightarrow> can_start e mm tp i n k \<Longrightarrow> m + n \<le> 1000800 \<Longrightarrow> length nm < 32
   \<Longrightarrow> \<exists>k' p'. start_loop e a mm ap fp nm msg i n k p = Inr (None, k', p')
     \<and> ready_to_start k' (joined Q (map tp [i..<i + n])) (m + n) \<and> same_rest k k' \<and> sent p' = sent p
     \<and> (\<forall>j<n. tasks k' (tp (i + j)) = Some (nth_task e a mm ap fp nm (i + j) (Suc m + j)))
     \<and> (\<forall>t. t \<notin> tp ` {i..<i + n} \<longrightarrow> tasks k' t = tasks k t)"
proof (induction n arbitrary: i k p Q m)
  case 0
  then have "joined Q [] = Q" by (auto simp: ready_to_start_def elim!: sched_invE intro: joined_Nil)
  with 0 show ?case by (simp add: same_rest_def)
next
  case (Suc n)
  have m: "m < 1000800" using Suc.prems(3) by simp
  obtain k1 p1 where k1: "start_one e a mm ap fp nm msg i k p = Inr (None, k1, p1)" "ready_to_start k1 (joined Q [tp i]) (Suc m)"
    "tasks k1 = (tasks k)(tp i \<mapsto> nth_task e a mm ap fp nm i (Suc m))" "same_rest k k1" "can_start e mm tp (Suc i) n k1" "sent p1 = sent p"
    by (rule start_one_result [OF Suc.prems(1,2) m Suc.prems(4)])
  have "Suc m + n \<le> 1000800" using Suc.prems(3) by simp
  from Suc.IH [OF k1(2,5) this Suc.prems(4), of p1] obtain k' p' where
    k': "start_loop e a mm ap fp nm msg (Suc i) n k1 p1 = Inr (None, k', p')"
    "ready_to_start k' (joined (joined Q [tp i]) (map tp [Suc i..<Suc i + n])) (Suc m + n)" "same_rest k1 k'" "sent p' = sent p1"
    "\<forall>j<n. tasks k' (tp (Suc i + j)) = Some (nth_task e a mm ap fp nm (Suc i + j) (Suc (Suc m) + j))"
    "\<forall>t. t \<notin> tp ` {Suc i..<Suc i + n} \<longrightarrow> tasks k' t = tasks k1 t" by blast
  have notin: "tp i \<notin> tp ` {Suc i..<Suc i + n}"
  proof
    assume "tp i \<in> tp ` {Suc i..<Suc i + n}"
    then obtain j where "tp i = tp j" "j \<in> {Suc i..<Suc i + n}" by blast
    then show False using Suc.prems(2) inj_onD [of tp "{i..<i + Suc n}" i j] by (auto simp: can_start_def)
  qed
  have "tasks k' (tp (i + j)) = Some (nth_task e a mm ap fp nm (i + j) (Suc m + j))" if "j < Suc n" for j
    using that k'(5) k'(6) [rule_format, OF notin] k1(3) by (cases j) simp_all
  moreover have "tasks k' t = tasks k t" if t: "t \<notin> tp ` {i..<i + Suc n}" for t
  proof -
    have "t \<noteq> tp i" using t by auto
    moreover have "t \<notin> tp ` {Suc i..<Suc i + n}" using t by auto
    ultimately show ?thesis using k'(6) k1(3) by simp
  qed
  moreover have up: "[i..<i + Suc n] = i # [Suc i..<Suc i + n]" by (simp add: upt_conv_Cons del: upt_Suc)
  have "ready_to_start k' (joined Q (map tp [i..<i + Suc n])) (m + Suc n)"
    using k'(2) unfolding up joined_simps(1) by simp
  moreover have "start_loop e a mm ap fp nm msg i (Suc n) k p = Inr (None, k', p')" using k1(1) k'(1) by simp
  ultimately show ?case
    using same_rest_trans [OF k1(4) k'(3)] k'(4) k1(6) by (intro exI [of _ k'] exI [of _ p'] conjI) simp_all
qed

section \<open>The start of a program\<close>

text \<open>
  A fresh process with what the system gives the library: memory for the main task at \<open>t0\<close>, for the
  timer manager and its first timer, a clock that does not wrap soon and a working interval timer;
  and what the programs need besides: a socket, a binding and memory for the message.
\<close>

definition fresh_library :: "start_env \<Rightarrow> int \<Rightarrow> task \<Rightarrow> 'a tstate_scheme \<Rightarrow> bool" where
  "fresh_library se ret t0 s \<longleftrightarrow> tasks s = Map.empty \<and> timers s = Map.empty \<and> 0 < clock_granularity s
     \<and> env_main se = Some t0 \<and> env_mgr se \<and> env_timer se \<noteq> None \<and> unat (env_now se) + 150000 < 2 ^ 32 \<and> ret \<noteq> - 1"

definition fresh_boot :: "uenv \<Rightarrow> start_env \<Rightarrow> int \<Rightarrow> task \<Rightarrow> 'a tstate_scheme \<Rightarrow> bool" where
  "fresh_boot e se ret t0 s \<longleftrightarrow> fresh_library se ret t0 s \<and> 0 \<le> u_sock e \<and> 0 \<le> u_bind e \<and> u_nlh e"

lemma fresh_bootD: "fresh_boot e se ret t0 s \<Longrightarrow> fresh_library se ret t0 s"
  by (simp add: fresh_boot_def)

text \<open>Memory for the tasks 1 to \<open>n\<close> and their argument blocks.\<close>

definition task_memory :: "uenv \<Rightarrow> task_mem \<Rightarrow> (nat \<Rightarrow> task) \<Rightarrow> task \<Rightarrow> nat \<Rightarrow> bool" where
  "task_memory e mm tp t0 n \<longleftrightarrow> inj_on tp {1..n} \<and> (\<forall>j\<in>{1..n}. u_args e j \<and> fst (mm j) = Some (tp j) \<and> tp j \<noteq> t0)"

lemma task_memory_le: "task_memory e mm tp t0 n \<Longrightarrow> m \<le> n \<Longrightarrow> task_memory e mm tp t0 m"
  by (auto simp: task_memory_def intro: inj_on_subset)

lemma uts_init_of_init:
  assumes "init se s t = Inr (Returned (), s', t')" and "ret \<noteq> - 1"
  obtains d' where "uts_init se ret d s t = Inr (Returned (), s', t', d')" and "d' SIGALRM = Signal_headler"
proof -
  let ?d = "signal SIGUSR1 Sigusr1_headler (signal SIGALRM Signal_headler d)"
  have "uts_init se ret d s t = Inr (Returned (), s', t', ?d)"
    using assms by (auto simp: uts_init_def init_def interrupt_init_def Let_def elim!: bnd_InrE split: prod.splits flow.splits)
  then show ?thesis by (rule that) (simp add: signal_def SIGALRM_def SIGUSR1_def)
qed

text \<open>The start of the library prints nothing.\<close>

definition same_text :: "tty \<Rightarrow> tty \<Rightarrow> bool" where
  "same_text t t' \<longleftrightarrow> tty_out t' = tty_out t \<and> stdio_buf t' = stdio_buf t"

lemma uts_init_silent: "uts_init se ret d s t = Inr (fl, s', t', d') \<Longrightarrow> same_text t t'"
  by (auto simp: uts_init_def console_init_def ioctl_fionbio_def same_text_def Let_def elim!: bnd_InrE split: prod.splits flow.splits)

lemma uts_init_result:
  assumes f: "fresh_library se ret t0 s"
  obtains s' t' d' where "uts_init se ret d s t = Inr (Returned (), s', t', d')" and "ready_to_start s' (boot_queues t0) 1"
    and "current_task s' = Some t0" and "main_task s' = Some t0" and "tasks s' = [t0 \<mapsto> main_struct (env_stack se)]"
    and "d' SIGALRM = Signal_headler" and "same_text t t'"
proof -
  obtain m where m: "env_timer se = Some m" using f by (auto simp: fresh_library_def)
  have fr: "tasks s = Map.empty" "timers s = Map.empty" "0 < clock_granularity s"
    "env_main se = Some t0" "env_mgr se" "unat (env_now se) + 150000 < 2 ^ 32" "ret \<noteq> - 1"
    using f by (simp_all add: fresh_library_def)
  obtain s' tt' R where s': "init se s t = Inr (Returned (), s', tt')" "timer_idle s' (boot_queues t0)"
    "tid_pool_ok s' (boot_queues t0)" "lock_free (locks s' Console_lock)" "current_task s' = Some t0" "main_task s' = Some t0"
    "live_tids s' = {1}" "tasks s' = [t0 \<mapsto> main_struct (env_stack se)]" "wheel {} [] s' R"
    "timers s' = [m \<mapsto> clean_timer (env_now se)]" "uJiffies s' = env_now se" "clock_granularity s' = clock_granularity s"
    "task_all_nums s' = 1" "used (tid_bitmap s') = {0}" "bits_cap (tid_bitmap s') = 1000800"
    by (rule init_result [OF fr(1-5) m fr(6), of t])
  obtain d' where init: "uts_init se ret d s t = Inr (Returned (), s', tt', d')" "d' SIGALRM = Signal_headler"
    by (rule uts_init_of_init [OF s'(1) fr(7)])
  moreover have "ready_to_start s' (boot_queues t0) 1"
    using s'(2,3,14,15) by (auto simp: ready_to_start_def timer_idle_def boot_queues_def)
  ultimately show ?thesis using s'(5,6,8) uts_init_silent [OF init(1)] by (intro that)
qed

lemma bench_starts:
  assumes f: "fresh_boot e se ret t0 s" and mem: "task_memory e mm tp t0 (Suc n)" and n: "n < 1000000"
  obtains s1 p1 t1 where "bench_start sends n e se ret a mm ap fp d s t p = Inr (None, s1, p1, t1)"
    and "ready_to_start s1 (joined (boot_queues t0) (map tp [1..<n + 2])) (n + 2)" and "current_task s1 = Some t0"
    and "\<forall>j<n. tasks s1 (tp (Suc j)) = Some (nth_task e a mm ap fp ''interfering_task'' (Suc j) (j + 2))"
    and "tasks s1 (tp (Suc n)) = Some (nth_task e a mm ap fp ''main_task'' (Suc n) (n + 2))"
proof -
  define t0' where "t0' = (let t = stdio_print starting_text t in
    if sends then stdio_flush (stdio_print (sent_text (u_pid e) (generate_random_priority (u_rnd e 0))) t) else t)"
  obtain s' t' d' where s': "uts_init se ret d s t0' = Inr (Returned (), s', t', d')" "ready_to_start s' (boot_queues t0) 1"
    "current_task s' = Some t0" "main_task s' = Some t0" "tasks s' = [t0 \<mapsto> main_struct (env_stack se)]"
    by (rule uts_init_result [OF fresh_bootD [OF f]])
  have can: "can_start e mm tp 1 (Suc n) s'"
    using mem s'(4,5) by (auto simp: can_start_def task_memory_def atLeastLessThanSuc_atLeastAtMost)
  then have can1: "can_start e mm tp 1 n s'" by (auto simp: can_start_def intro: inj_on_subset)
  define p0 where "p0 = (let p = snd (netlink_setup e (generate_random_priority (u_rnd e 0)) p) in if sends then send_nlh p else p)"
  have le: "1 + n \<le> 1000800" and nm: "length ''interfering_task'' < 32" "length ''main_task'' < 32" using n by simp_all
  obtain k1 p1 where k1: "start_loop e a mm ap fp ''interfering_task'' ''thread '' 1 n s' p0 = Inr (None, k1, p1)"
    "ready_to_start k1 (joined (boot_queues t0) (map tp [1..<1 + n])) (1 + n)" "same_rest s' k1" "sent p1 = sent p0"
    "\<forall>j<n. tasks k1 (tp (1 + j)) = Some (nth_task e a mm ap fp ''interfering_task'' (1 + j) (Suc 1 + j))"
    "\<forall>t. t \<notin> tp ` {1..<1 + n} \<longrightarrow> tasks k1 t = tasks s' t"
    using start_loop_result [OF s'(2) can1 le nm(1), of a ap fp "''thread ''" p0] by blast
  have new: "tp (Suc n) \<notin> tp ` {1..<1 + n}"
  proof
    assume "tp (Suc n) \<in> tp ` {1..<1 + n}"
    then obtain j where "tp (Suc n) = tp j" "j \<in> {1..<1 + n}" by blast
    then show False using mem inj_onD [of tp "{1..Suc n}" "Suc n" j] by (auto simp: task_memory_def)
  qed
  have can2: "can_start e mm tp (Suc n) (Suc 0) k1"
    using can k1(3) k1(6) [rule_format, OF new] by (auto simp: can_start_def same_rest_def)
  obtain k2 p2 where k2: "start_one e a mm ap fp ''main_task'' ''argA '' (Suc n) k1 p1 = Inr (None, k2, p2)"
    "ready_to_start k2 (joined (joined (boot_queues t0) (map tp [1..<1 + n])) [tp (Suc n)]) (Suc (1 + n))"
    "tasks k2 = (tasks k1)(tp (Suc n) \<mapsto> nth_task e a mm ap fp ''main_task'' (Suc n) (Suc (1 + n)))" "same_rest k1 k2"
    by (rule start_one_result [OF k1(2) can2 _ nm(2)]) (use n in simp)
  have ns: "fst (netlink_setup e (generate_random_priority (u_rnd e 0)) p) = None"
    using f by (simp add: fresh_boot_def netlink_setup_def Let_def)
  then have "bench_start sends n e se ret a mm ap fp d s t p = Inr (None, k2, p2, stdio_print newline (stdio_print newline t'))"
    using s'(1) k1(1) k2(1)
    by (cases "netlink_setup e (generate_random_priority (u_rnd e 0)) p")
      (cases sends; simp add: bench_start_def Let_def p0_def t0'_def)
  moreover have "joined (joined (boot_queues t0) (map tp [1..<1 + n])) [tp (Suc n)] = joined (boot_queues t0) (map tp [1..<n + 2])"
    by simp
  then have "ready_to_start k2 (joined (boot_queues t0) (map tp [1..<n + 2])) (n + 2)" using k2(2) by (simp add: numeral_2_eq_2)
  moreover have "tasks k2 (tp (Suc j)) = Some (nth_task e a mm ap fp ''interfering_task'' (Suc j) (j + 2))" if "j < n" for j
  proof -
    have "tp (Suc j) \<noteq> tp (Suc n)" using new that by (metis One_nat_def Suc_le_mono atLeastLessThan_iff imageI le0 not_less_eq plus_1_eq_Suc)
    then show ?thesis using k1(5) [rule_format, OF that] k2(3) by simp
  qed
  moreover have "tasks k2 (tp (Suc n)) = Some (nth_task e a mm ap fp ''main_task'' (Suc n) (n + 2))" using k2(3) by simp
  moreover have "current_task k2 = Some t0" using k2(4) k1(3) s'(3) by (simp add: same_rest_def)
  ultimately show ?thesis by (intro that [of k2 p2 "stdio_print newline (stdio_print newline t')"]) blast+
qed

section \<open>The programs\<close>

text \<open>A system that gives everything asked for: task \<open>j\<close> at address \<open>j\<close>, its block behind it.\<close>

definition demo_system :: uenv where
  "demo_system = \<lparr>u_pid = 4242, u_sock = 3, u_bind = 0, u_nlh = True, u_args = (\<lambda>_. True), u_rnd = (\<lambda>j. Read_value (of_nat j))\<rparr>"

definition demo_memory :: task_mem where
  "demo_memory j = (Some j, 8192 * (of_nat j + 1))"

lemma demo_boot: "fresh_boot demo_system demo_env 0 0 fresh_process"
  by (simp add: fresh_boot_def fresh_library_def demo_system_def demo_env_def fresh_process_def)

lemma two_tasks_inv: "\<exists>Q. sched_inv two_tasks Q"
  using two_tasks_ok by (auto simp: uts_ok_def timer_idle_def)

lemma demo_task_memory: "task_memory demo_system demo_memory (\<lambda>j. j) 0 n"
  by (simp add: task_memory_def demo_system_def demo_memory_def)

text \<open>
  A program that starts \<open>n\<close> tasks and a last one, waits for all tasks and, if that wait ended, would
  reach its final loop: \<open>s1\<close> is the state in which all are started, numbered and queued.
\<close>

definition starts_and_waits ::
    "nat \<Rightarrow> uenv \<Rightarrow> abi \<Rightarrow> task_mem \<Rightarrow> (nat \<Rightarrow> 64 word) \<Rightarrow> 64 word \<Rightarrow> (nat \<Rightarrow> task) \<Rightarrow> task
     \<Rightarrow> ((nat \<Rightarrow> 'a tstate_scheme) \<Rightarrow> (ending \<times> 'a tstate_scheme \<times> uproc \<times> tty) res) \<Rightarrow> bool" where
  "starts_and_waits n e a mm ap fp tp t0 M \<longleftrightarrow> (\<exists>s1 p1 t1. ready_to_start s1 (joined (boot_queues t0) (map tp [1..<n + 2])) (n + 2)
     \<and> current_task s1 = Some t0
     \<and> (\<forall>j<n. tasks s1 (tp (Suc j)) = Some (nth_task e a mm ap fp ''interfering_task'' (Suc j) (j + 2)))
     \<and> tasks s1 (tp (Suc n)) = Some (nth_task e a mm ap fp ''main_task'' (Suc n) (n + 2))
     \<and> (\<forall>polled. M polled = bnd (task_wait_all polled) (\<lambda>_. Inr (Looping, s1, p1, t1))))"

lemma bench_starts_and_waits:
  assumes f: "fresh_boot e se ret t0 s" and mem: "task_memory e mm tp t0 (Suc n)" and n: "n < 1000000"
  shows "starts_and_waits n e a mm ap fp tp t0
    (\<lambda>polled. bnd (bench_start sends n e se ret a mm ap fp d s t p) (bench_wait polled fin))"
proof -
  obtain s1 p1 t1 where s1: "bench_start sends n e se ret a mm ap fp d s t p = Inr (None, s1, p1, t1)"
    "ready_to_start s1 (joined (boot_queues t0) (map tp [1..<n + 2])) (n + 2)" "current_task s1 = Some t0"
    "\<forall>j<n. tasks s1 (tp (Suc j)) = Some (nth_task e a mm ap fp ''interfering_task'' (Suc j) (j + 2))"
    "tasks s1 (tp (Suc n)) = Some (nth_task e a mm ap fp ''main_task'' (Suc n) (n + 2))"
    by (rule bench_starts [OF f mem n])
  obtain p2 t2 where "fin (p1, t1) = (p2, t2)" by (cases "fin (p1, t1)")
  then show ?thesis
    unfolding starts_and_waits_def using s1
    by (intro exI [of _ s1] exI [of _ p2] exI [of _ t2]) (simp add: bench_wait_def)
qed

lemma starts_and_waits_hangs:
  "starts_and_waits n e a mm ap fp tp t0 M \<Longrightarrow> (\<And>i. \<exists>Q. sched_inv (polled i) Q) \<Longrightarrow> M polled = Inl No_return"
  using wait_never_returns [of polled] by (auto simp: starts_and_waits_def)

text \<open>
  C28. The six benchmark programs on the library never finish. Each starts the library in a fresh
  process, starts 25, 50 or 100 tasks and a last one, all of which succeeds, with the queues, the
  numbers and the task structures stated, when the system gives the memory, the socket and the
  timer; then \<open>main\<close> waits for all tasks. \<open>main\<close> is itself on the list of all tasks, so if the
  invariant of the scheduler holds at every poll the wait never ends: the code that follows in each
  program (la.c gives its socket back there) is never reached.
\<close>

theorem benchmarks_never_finish:
  assumes f: "fresh_boot e se ret t0 s" and mem: "task_memory e mm tp t0 101"
    and inv: "\<And>i. \<exists>Q. sched_inv (polled i) Q"
    and M: "(n, M) \<in> {(100, latency_main e se ret a mm ap fp d), (50, la_main e se ret a mm ap fp d),
      (50, time_latency_main e se ret a mm ap fp d), (50, \<lambda>polled. time_test_main e se ret a mm ap fp d polled elapsed),
      (25, time_time_main e se ret a mm ap fp d), (50, tt_main e se ret a mm ap fp d)}"
  shows "starts_and_waits n e a mm ap fp tp t0 (\<lambda>polled. M polled s t p) \<and> M polled s t p = Inl No_return"
proof -
  have "starts_and_waits n e a mm ap fp tp t0 (\<lambda>polled. bnd (bench_start sends n e se ret a mm ap fp d s t p) (bench_wait polled fin))"
    if "n \<le> 100" for sends n fin
    by (rule bench_starts_and_waits [OF f task_memory_le [OF mem]]) (use that in simp_all)
  then have "starts_and_waits n e a mm ap fp tp t0 (\<lambda>polled. M polled s t p)"
    using M by (auto simp: latency_main_def la_main_def time_latency_main_def time_test_main_def time_time_main_def tt_main_def)
  then show ?thesis using starts_and_waits_hangs [of _ _ _ _ _ _ _ _ "\<lambda>polled. M polled s t p" polled] inv by blast
qed

theorem benchmarks_never_finish_witness:
  "starts_and_waits 50 demo_system demo_abi demo_memory (\<lambda>j. 64 * of_nat j) 4198400 (\<lambda>j. j) 0
     (\<lambda>polled. la_main demo_system demo_env 0 demo_abi demo_memory (\<lambda>j. 64 * of_nat j) 4198400 (\<lambda>_. Sig_default) polled
       fresh_process empty_tty uproc_start)
   \<and> la_main demo_system demo_env 0 demo_abi demo_memory (\<lambda>j. 64 * of_nat j) 4198400 (\<lambda>_. Sig_default) (\<lambda>_. two_tasks)
       fresh_process empty_tty uproc_start = Inl No_return"
  by (rule benchmarks_never_finish [OF demo_boot demo_task_memory _ insertI2 [OF insertI1]]) (use two_tasks_inv in simp)

text \<open>The whole run of main.c.\<close>

lemma sent_text_line: "stdio_print (sent_text i j) t = t\<lparr>tty_out := tty_out t @ stdio_buf t @ sent_text i j, stdio_buf := []\<rparr>"
  by (rule stdio_print_line) (simp_all add: sent_text_def newline_def)

lemma uts_main_result:
  assumes f: "fresh_boot e se ret t0 s" and mem: "task_memory e mm tp t0 1001"
  shows "\<exists>s1 p1 t1. uts_main e se ret a mm ap f0 f1 d s t p = Inr (Looping, s1, p1, t1)
    \<and> ready_to_start s1 (joined (boot_queues t0) (map tp [1..<1002])) 1002 \<and> current_task s1 = Some t0
    \<and> tasks s1 (tp 1) = Some (nth_task e a mm ap f0 ''test1'' 1 2)
    \<and> (\<forall>j<1000. tasks s1 (tp (2 + j)) = Some (nth_task e a mm ap f1 ''abc'' (2 + j) (3 + j)))
    \<and> sent p1 = sent p @ [\<lparr>nlmsg_pid = u_pid e, nl_dest = 0, nl_data0 = u_pid e,
         nl_data1 = generate_random_priority (u_rnd e 0)\<rparr>]
    \<and> tty_out t1 = tty_out t @ stdio_buf t @ sent_text (u_pid e) (generate_random_priority (u_rnd e 0)) \<and> stdio_buf t1 = []"
proof -
  obtain s' t' d' where s': "uts_init se ret d s t = Inr (Returned (), s', t', d')" "ready_to_start s' (boot_queues t0) 1"
    "current_task s' = Some t0" "main_task s' = Some t0" "tasks s' = [t0 \<mapsto> main_struct (env_stack se)]" "same_text t t'"
    by (rule uts_init_result [OF fresh_bootD [OF f]])
  let ?t1 = "stdio_print (sent_text (u_pid e) (generate_random_priority (u_rnd e 0))) t'"
  obtain p0 where p0: "netlink_setup e (generate_random_priority (u_rnd e 0)) p = (None, p0)"
    and sent: "sent (send_nlh p0) = sent p @ [\<lparr>nlmsg_pid = u_pid e, nl_dest = 0, nl_data0 = u_pid e,
         nl_data1 = generate_random_priority (u_rnd e 0)\<rparr>]"
    using f by (simp add: fresh_boot_def netlink_setup_def send_nlh_def Let_def)
  have can: "can_start e mm tp 1 (Suc 1000) s'"
    using mem s'(4,5) by (auto simp: can_start_def task_memory_def intro: inj_on_subset)
  have nm: "length ''test1'' < 32" "length ''abc'' < 32" and le: "(1::nat) < 1000800" "Suc 1 + 1000 \<le> (1000800::nat)"
    by simp_all
  obtain k1 p1 where k1: "start_one e a mm ap f0 ''test1'' ''argA '' 1 s' (send_nlh p0) = Inr (None, k1, p1)"
    "ready_to_start k1 (joined (boot_queues t0) [tp 1]) (Suc 1)"
    "tasks k1 = (tasks s')(tp 1 \<mapsto> nth_task e a mm ap f0 ''test1'' 1 (Suc 1))" "same_rest s' k1"
    "can_start e mm tp (Suc 1) 1000 k1" "sent p1 = sent (send_nlh p0)"
    by (rule start_one_result [OF s'(2) can le(1) nm(1)])
  obtain k2 p2 where k2: "start_loop e a mm ap f1 ''abc'' ''thread '' (Suc 1) 1000 k1 p1 = Inr (None, k2, p2)"
    "ready_to_start k2 (joined (joined (boot_queues t0) [tp 1]) (map tp [Suc 1..<Suc 1 + 1000])) (Suc 1 + 1000)"
    "same_rest k1 k2" "sent p2 = sent p1"
    "\<forall>j<1000. tasks k2 (tp (Suc 1 + j)) = Some (nth_task e a mm ap f1 ''abc'' (Suc 1 + j) (Suc (Suc 1) + j))"
    "\<forall>t. t \<notin> tp ` {Suc 1..<Suc 1 + 1000} \<longrightarrow> tasks k2 t = tasks k1 t"
    using start_loop_result [OF k1(2,5) le(2) nm(2)] by blast
  have "tp 1 \<notin> tp ` {Suc 1..<Suc 1 + 1000}"
  proof
    assume "tp 1 \<in> tp ` {Suc 1..<Suc 1 + 1000}"
    then obtain j where "tp 1 = tp j" "j \<in> {Suc 1..<Suc 1 + 1000}" by blast
    then show False using mem inj_onD [of tp "{1..1001}" 1 j] by (auto simp: task_memory_def)
  qed
  then have first: "tasks k2 (tp 1) = Some (nth_task e a mm ap f0 ''test1'' 1 2)"
    using k2(6) k1(3) by (simp add: numeral_2_eq_2)
  have up: "[1..<1002] = 1 # [Suc 1..<Suc 1 + 1000]" by (subst upt_conv_Cons) simp_all
  have run: "uts_main e se ret a mm ap f0 f1 d s t p = Inr (Looping, k2, p2, ?t1)"
    using s'(1) p0 k1(1) k2(1) by (simp add: uts_main_def Let_def numeral_2_eq_2)
  have q: "ready_to_start k2 (joined (boot_queues t0) (map tp [1..<1002])) 1002" using k2(2) unfolding up by simp
  have "current_task k2 = Some t0" using k2(3) k1(4) s'(3) by (simp add: same_rest_def)
  moreover have "tasks k2 (tp (2 + j)) = Some (nth_task e a mm ap f1 ''abc'' (2 + j) (3 + j))" if "j < 1000" for j
    using k2(5) [rule_format, OF that] by (simp add: numeral_2_eq_2 numeral_3_eq_3)
  moreover have "tty_out ?t1 = tty_out t @ stdio_buf t @ sent_text (u_pid e) (generate_random_priority (u_rnd e 0))"
    "stdio_buf ?t1 = []"
    using s'(6) by (simp_all add: sent_text_line same_text_def)
  ultimately show ?thesis using run q first k2(4) k1(6) sent
    by (intro exI [of _ k2] exI [of _ p2] exI [of _ ?t1] conjI allI impI) simp_all
qed

text \<open>
  C8. A run of main.c. In a fresh process the library starts, the message goes to the kernel module,
  the printing task and a thousand more start, and \<open>main\<close> enters its last loop: it is still the running
  task, the 1001 tasks wait on the ready list in the order of their start, task \<open>i\<close> with number
  \<open>i + 1\<close>, its own priority and its own argument block, and the invariants of the scheduler and of
  the pool of numbers hold. The program has printed the one line about its message.
\<close>

theorem uts_main_spec:
  assumes f: "fresh_boot e se ret t0 s" and mem: "task_memory e mm tp t0 1001"
  shows "\<exists>s1 p1 t1. uts_main e se ret a mm ap f0 f1 d s t p = Inr (Looping, s1, p1, t1)
    \<and> ready_to_start s1 (joined (boot_queues t0) (map tp [1..<1002])) 1002 \<and> current_task s1 = Some t0
    \<and> tasks s1 (tp 1) = Some (nth_task e a mm ap f0 ''test1'' 1 2)
    \<and> (\<forall>j<1000. tasks s1 (tp (2 + j)) = Some (nth_task e a mm ap f1 ''abc'' (2 + j) (3 + j)))
    \<and> sent p1 = sent p @ [\<lparr>nlmsg_pid = u_pid e, nl_dest = 0, nl_data0 = u_pid e,
         nl_data1 = generate_random_priority (u_rnd e 0)\<rparr>]
    \<and> tty_out t1 = tty_out t @ stdio_buf t @ sent_text (u_pid e) (generate_random_priority (u_rnd e 0)) \<and> stdio_buf t1 = []"
  by (rule uts_main_result [OF assms])

theorem uts_main_spec_witness:
  "\<exists>s1 p1 t1. uts_main demo_system demo_env 0 demo_abi demo_memory (\<lambda>j. 64 * of_nat j) 4198400 4198656 (\<lambda>_. Sig_default)
     fresh_process empty_tty uproc_start = Inr (Looping, s1, p1, t1) \<and> current_task s1 = Some 0
     \<and> tid (the (tasks s1 1)) = 2 \<and> tid (the (tasks s1 1001)) = 1002
     \<and> tty_out t1 = ''Sent PID 4242 and priority 0 to kernel module'' @ newline"
proof -
  obtain s1 p1 t1 where run: "uts_main demo_system demo_env 0 demo_abi demo_memory (\<lambda>j. 64 * of_nat j) 4198400 4198656
      (\<lambda>_. Sig_default) fresh_process empty_tty uproc_start = Inr (Looping, s1, p1, t1)"
    and c: "current_task s1 = Some 0"
    and t1: "tasks s1 1 = Some (nth_task demo_system demo_abi demo_memory (\<lambda>j. 64 * of_nat j) 4198400 ''test1'' 1 2)"
    and ts: "\<forall>j<1000. tasks s1 (2 + j) = Some (nth_task demo_system demo_abi demo_memory (\<lambda>j. 64 * of_nat j) 4198656
       ''abc'' (2 + j) (3 + j))"
    and out: "tty_out t1 = tty_out empty_tty @ stdio_buf empty_tty @ sent_text (u_pid demo_system)
       (generate_random_priority (u_rnd demo_system 0))"
    using uts_main_spec [OF demo_boot demo_task_memory, of demo_abi "\<lambda>j. 64 * of_nat j" 4198400 4198656
       "\<lambda>_. Sig_default" empty_tty uproc_start] by blast
  have "tasks s1 1001 = Some (nth_task demo_system demo_abi demo_memory (\<lambda>j. 64 * of_nat j) 4198656 ''abc'' 1001 1002)"
    using ts [rule_format, of 999] by simp
  moreover have "tty_out t1 = ''Sent PID 4242 and priority 0 to kernel module'' @ newline"
    using out by (simp add: sent_text_def demo_system_def empty_tty_def generate_random_priority_def c_abs_def c_mod_nonneg
        print_int_def digits_of.simps)
  ultimately show ?thesis using run c t1 by (auto simp: nth_task_def new_task_def)
qed

text \<open>The four lines about a task, with its number, its name and its priority.\<close>

definition task_info :: "string \<Rightarrow> string \<Rightarrow> string \<Rightarrow> string" where
  "task_info i nm prio = ''tid = '' @ i @ newline @ ''name = '' @ nm @ newline @ ''priority = '' @ prio @ newline
     @ ''stack_magic = 19991120'' @ newline"

lemma task_info_line:
  "stdio_print (task_info i nm prio) t = t\<lparr>tty_out := tty_out t @ stdio_buf t @ task_info i nm prio, stdio_buf := []\<rparr>"
  by (rule stdio_print_line) (simp_all add: task_info_def newline_def)

lemma magic_digits: "digits_of 16 0x19991120 = ''19991120''"
  by (simp add: digits_of.simps)

lemma task_info_main: "tasks k p = Some (main_struct stk) \<Longrightarrow> print_task_info k (Some p) = Inr (task_info ''1'' ''main'' ''3'')"
  by (simp add: print_task_info_def task_info_def main_struct_def magic_digits print_int_def digits_of.simps)

lemma task_info_new:
  "tasks k p = Some (new_task a nm 31 stk i f g)
   \<Longrightarrow> print_task_info k (Some p) = Inr (task_info (print_int (sint i)) nm ''31'')"
  by (simp add: print_task_info_def task_info_def new_task_def magic_digits print_int_def digits_of.simps)

text \<open>
  C29. A run of schedule\_main.c. In a fresh process, with memory for two tasks, the program starts the
  library and both tasks and finds them again by their numbers: it prints the running main task with
  number 1, then the two tasks with the numbers 2 and 3, their names and the priority 31 they were
  given, and pauses with the clock signal let through, the tasks waiting in the order of their start.
\<close>

theorem schedule_main_spec:
  assumes f: "fresh_library se ret t0 s" and mm: "mm 0 = (Some t1, st1)" "mm 1 = (Some t2, st2)" "distinct [t0, t1, t2]"
  shows "\<exists>s' t'. schedule_main se ret a mm f0 f1 d s t = Inr (Returned (), s', t')
    \<and> tty_out t' = tty_out t @ stdio_buf t @ task_info ''1'' ''main'' ''3'' @ task_info ''2'' ''test'' ''31''
       @ task_info ''3'' ''test1'' ''31'' \<and> stdio_buf t' = []
    \<and> irq_on s' \<and> current_task s' = Some t0 \<and> sched_inv s' (joined (boot_queues t0) [t1, t2])"
proof -
  obtain s0 t' d' where s0: "uts_init se ret d s t = Inr (Returned (), s0, t', d')" "ready_to_start s0 (boot_queues t0) 1"
    "current_task s0 = Some t0" "main_task s0 = Some t0" "tasks s0 = [t0 \<mapsto> main_struct (env_stack se)]" "same_text t t'"
    by (rule uts_init_result [OF f])
  have nm: "length ''test'' < 32" "length ''test1'' < 32" and m: "(1::nat) < 1000800" "Suc 1 < 1000800" by simp_all
  have t1: "tasks s0 t1 = None" "main_task s0 \<noteq> Some t1" using mm(3) s0(4,5) by auto
  obtain s1 where s1: "task_start s0 a (Some t1) st1 ''test'' 31 f0 0 = Inr (Returned (Some t1), s1)"
    "ready_to_start s1 (joined (boot_queues t0) [t1]) (Suc 1)" "same_rest s0 s1"
    "tasks s1 = (tasks s0)(t1 \<mapsto> new_task a ''test'' 31 st1 (ucast (of_nat (Suc 1) :: 32 word)) f0 0)"
    by (rule task_start_ready [OF s0(2) m(1) nm(1) t1])
  have t2: "tasks s1 t2 = None" "main_task s1 \<noteq> Some t2" using mm(3) s0(4,5) s1(3,4) by (auto simp: same_rest_def)
  obtain s2 where s2: "task_start s1 a (Some t2) st2 ''test1'' 31 f1 0 = Inr (Returned (Some t2), s2)"
    "ready_to_start s2 (joined (joined (boot_queues t0) [t1]) [t2]) (Suc (Suc 1))" "same_rest s1 s2"
    "tasks s2 = (tasks s1)(t2 \<mapsto> new_task a ''test1'' 31 st2 (ucast (of_nat (Suc (Suc 1)) :: 32 word)) f1 0)"
    by (rule task_start_ready [OF s1(2) m(2) nm(2) t2])
  have inv: "sched_inv s2 (joined (boot_queues t0) [t1, t2])" using s2(2) by (simp add: ready_to_start_def)
  then have ok: "lists_ok s2 (joined (boot_queues t0) [t1, t2])" by (simp add: sched_inv_def)
  have all: "joined (boot_queues t0) [t1, t2] All_list = Some [t0, t1, t2]" by (simp add: boot_queues_def)
  have tk: "tasks s2 t0 = Some (main_struct (env_stack se))" "tasks s2 t1 = Some (new_task a ''test'' 31 st1 2 f0 0)"
    "tasks s2 t2 = Some (new_task a ''test1'' 31 st2 3 f1 0)"
    using s0(5) s1(4) s2(4) mm(3) by auto
  have find: "tid2task s2 2 = Inr (Some t1)" "tid2task s2 3 = Inr (Some t2)"
    using tk mm(3) by (simp_all add: tid2task_result [OF ok all] main_struct_def new_task_def)
  have info: "print_task_info s0 (Some t0) = Inr (task_info ''1'' ''main'' ''3'')"
    "print_task_info s2 (Some t1) = Inr (task_info ''2'' ''test'' ''31'')"
    "print_task_info s2 (Some t2) = Inr (task_info ''3'' ''test1'' ''31'')"
    using s0(5) tk by (simp_all add: task_info_main task_info_new print_int_def digits_of.simps)
  let ?t' = "stdio_print (task_info ''3'' ''test1'' ''31'') (stdio_print (task_info ''2'' ''test'' ''31'')
    (stdio_print (task_info ''1'' ''main'' ''3'') t'))"
  have "schedule_main se ret a mm f0 f1 d s t = Inr (Returned (), interrupt_enable s2, ?t')"
    using s0(1,3) s1(1) s2(1) mm find info by (simp add: schedule_main_def Let_def)
  moreover have "current_task s2 = Some t0" using s0(3) s1(3) s2(3) by (simp add: same_rest_def)
  moreover have "tty_out ?t' = tty_out t @ stdio_buf t @ task_info ''1'' ''main'' ''3'' @ task_info ''2'' ''test'' ''31''
       @ task_info ''3'' ''test1'' ''31''" "stdio_buf ?t' = []"
    using s0(6) by (simp_all add: task_info_line same_text_def)
  ultimately show ?thesis using inv by (intro exI [of _ "interrupt_enable s2"] exI [of _ ?t']) simp
qed

theorem schedule_main_spec_witness:
  "\<exists>s' t'. schedule_main demo_env 0 demo_abi (\<lambda>j. (Some (Suc j), 8192)) 4198400 4198656 (\<lambda>_. Sig_default) fresh_process empty_tty
     = Inr (Returned (), s', t') \<and> sched_inv s' (joined (boot_queues 0) [1, 2])
     \<and> tty_out t' = task_info ''1'' ''main'' ''3'' @ task_info ''2'' ''test'' ''31'' @ task_info ''3'' ''test1'' ''31''"
  using schedule_main_spec [OF fresh_bootD [OF demo_boot], of "\<lambda>j. (Some (Suc j), 8192)" 1 8192 2 8192
    demo_abi 4198400 4198656 "\<lambda>_. Sig_default" empty_tty] by (auto simp: empty_tty_def)

end
