(* ===== verification/KSignal.thy ===== *)
theory KSignal
  imports Prelude
begin

text \<open>
  The kernel module of src/User_Schedule/ROS2 (kernel/signal.c): a netlink message names a process
  and a number of time slices; each switch to the process uses one up, and when none is left
  a delayed work item blocks SIGUSR1 for it. The kernel's objects are a state of the module: its
  socket, work queue, queued work items and registered probe, each live or released.
\<close>

section \<open>State\<close>

datatype work = Work_now | Work_delayed

text \<open>
  \<open>k_blocked p\<close> is the set of signals blocked for process \<open>p\<close> (\<open>None\<close>: no such process);
  \<open>replies\<close> the messages sent back. \<open>nl_sk\<close> and \<open>wq\<close> tell whether the object they point to is
  live; \<open>None\<close> is the NULL pointer.
\<close>

record module =
  nl_sk :: "bool option"
  wq :: "bool option"
  pending_work :: "work option"
  tp_ptr :: bool
  is_registered :: bool
  target_pid :: int
  kticks :: int
  k_blocked :: "int \<rightharpoonup> nat set"
  replies :: "(int \<times> int) list"

datatype kfault = Use_after_free | Double_free

type_synonym 'a kres = "kfault + 'a"

definition kbnd :: "'a kres \<Rightarrow> ('a \<Rightarrow> 'b kres) \<Rightarrow> 'b kres" where
  "kbnd m f = (case m of Inl e \<Rightarrow> Inl e | Inr x \<Rightarrow> f x)"

lemma kbnd_simps [simp]: "kbnd (Inr x) f = f x" "kbnd (Inl e) f = Inl e"
  by (simp_all add: kbnd_def)

definition kSIGUSR1 :: nat where "kSIGUSR1 = 10"

text \<open>
  \<open>queue_delayed_work\<close> does nothing when the item is queued already; a destroyed queue is memory
  that has been freed.
\<close>

definition queue_delayed_work :: "work \<Rightarrow> module \<Rightarrow> module kres" where
  "queue_delayed_work w m =
     (if wq m \<noteq> Some True then Inl Use_after_free
      else if pending_work m \<noteq> None then Inr m else Inr (m\<lparr>pending_work := Some w\<rparr>))"

definition destroy_workqueue :: "module \<Rightarrow> module kres" where
  "destroy_workqueue m = (if wq m = Some True then Inr (m\<lparr>wq := Some False\<rparr>) else Inl Double_free)"

definition netlink_kernel_release :: "module \<Rightarrow> module kres" where
  "netlink_kernel_release m = (if nl_sk m = Some True then Inr (m\<lparr>nl_sk := Some False\<rparr>) else Inl Double_free)"

section \<open>The module's functions\<close>

text \<open>The function the macro \<open>TRACEPOINT_FIND(sched_switch)\<close> makes, and the loop that calls it.\<close>

definition sched_switch_tracepoint_find :: "string \<Rightarrow> module \<Rightarrow> module" where
  "sched_switch_tracepoint_find name m = (if name = ''sched_switch'' then m\<lparr>tp_ptr := True\<rparr> else m)"

definition clear_tracepoint :: "module \<Rightarrow> module" where
  "clear_tracepoint m = (if is_registered m then m\<lparr>is_registered := False\<rparr> else m)"

text \<open>The work item. The process found under a pid has that pid, so the inner test fails never.\<close>

definition block_sigusr1_for_pid :: "module \<Rightarrow> module kres" where
  "block_sigusr1_for_pid m =
     (let m = (case k_blocked m (target_pid m) of
          None \<Rightarrow> m
        | Some B \<Rightarrow>
            if kticks m = 0 then m\<lparr>k_blocked := (k_blocked m)(target_pid m \<mapsto> insert kSIGUSR1 B)\<rparr> else m)
      in if kticks m > 0 then queue_delayed_work Work_delayed m else Inr m)"

definition sched_switch_tracepoint_callback :: "int \<Rightarrow> module \<Rightarrow> module kres" where
  "sched_switch_tracepoint_callback next_pid m =
     (if next_pid \<noteq> target_pid m then Inr m
      else if kticks m > 0 then
        (let m = m\<lparr>kticks := kticks m - 1\<rparr>
         in if kticks m = 0 then queue_delayed_work Work_now m else Inr m)
      else Inr m)"

text \<open>
  A netlink message: the sender's pid in the header, two numbers as data; \<open>room\<close> tells whether
  \<open>nlmsg_new\<close> gets memory for the answer.
\<close>

definition netlink_recv_msg :: "int \<Rightarrow> int \<Rightarrow> int \<Rightarrow> bool \<Rightarrow> module \<Rightarrow> module kres" where
  "netlink_recv_msg nlmsg_pid data0 data1 room m =
     (let sender_pid = nlmsg_pid; m = m\<lparr>target_pid := data0, kticks := data1\<rparr> in
      if \<not> room then Inr m
      else if nl_sk m \<noteq> Some True then Inl Use_after_free
      else Inr (m\<lparr>replies := replies m @ [(sender_pid, target_pid m)]\<rparr>))"

text \<open>The kernel's answers during \<open>netlink_init\<close>: the tracepoints' names, in the kernel's order.\<close>

record kenv =
  sock_created :: bool
  wq_created :: bool
  tracepoints :: "string list"
  register_err :: bool

definition EINVAL :: int where "EINVAL = 22"
definition ENOMEM :: int where "ENOMEM = 12"

definition netlink_init :: "kenv \<Rightarrow> module \<Rightarrow> (int \<times> module) kres" where
  "netlink_init e m =
     (let m = m\<lparr>nl_sk := (if sock_created e then Some True else None)\<rparr> in
      if nl_sk m = None then Inr (- 10, m) else
      (let m = m\<lparr>wq := (if wq_created e then Some True else None)\<rparr> in
       if wq m = None then kbnd (netlink_kernel_release m) (\<lambda>m. Inr (- ENOMEM, m)) else
       kbnd (queue_delayed_work Work_delayed m) (\<lambda>m.
       (let m = fold sched_switch_tracepoint_find (tracepoints e) m in
        if \<not> tp_ptr m then
          kbnd (destroy_workqueue m) (\<lambda>m.
          kbnd (netlink_kernel_release m) (\<lambda>m. Inr (0, m)))
        else if register_err e then
          (let m = clear_tracepoint m in
           kbnd (destroy_workqueue m) (\<lambda>m.
           kbnd (netlink_kernel_release m) (\<lambda>m. Inr (- EINVAL, m))))
        else Inr (0, m\<lparr>is_registered := True\<rparr>)))))"

definition netlink_exit :: "module \<Rightarrow> module kres" where
  "netlink_exit m =
     (let m = clear_tracepoint m; m = m\<lparr>pending_work := None\<rparr> in
      kbnd (destroy_workqueue m) (\<lambda>m. netlink_kernel_release m))"

text \<open>
  The kernel runs a queued item on its queue: it is no longer queued when its function starts.
\<close>

definition run_work :: "module \<Rightarrow> module kres" where
  "run_work m = (case pending_work m of None \<Rightarrow> Inr m
     | Some _ \<Rightarrow> if wq m \<noteq> Some True then Inl Use_after_free
         else block_sigusr1_for_pid (m\<lparr>pending_work := None\<rparr>))"

definition module_start :: "module" where
  "module_start = \<lparr>nl_sk = None, wq = None, pending_work = None, tp_ptr = False, is_registered = False,
     target_pid = -1, kticks = 0, k_blocked = Map.empty, replies = []\<rparr>"

section \<open>Histories of events\<close>

datatype kevent = Ev_switch int | Ev_message int int int bool | Ev_work

definition kstep :: "kevent \<Rightarrow> module \<Rightarrow> module kres" where
  "kstep ev m = (case ev of
       Ev_switch p \<Rightarrow> if is_registered m then sched_switch_tracepoint_callback p m else Inr m
     | Ev_message p a b room \<Rightarrow> netlink_recv_msg p a b room m
     | Ev_work \<Rightarrow> run_work m)"

fun krun :: "kevent list \<Rightarrow> module \<Rightarrow> module kres" where
  "krun [] m = Inr m"
| "krun (ev # evs) m = kbnd (kstep ev m) (krun evs)"

section \<open>Properties\<close>

text \<open>The module after a successful start: every object live.\<close>

definition module_live :: "module \<Rightarrow> bool" where
  "module_live m \<longleftrightarrow> nl_sk m = Some True \<and> wq m = Some True \<and> is_registered m"

lemma queue_live: "wq m = Some True \<Longrightarrow>
    queue_delayed_work w m = Inr (m\<lparr>pending_work := Some (case pending_work m of None \<Rightarrow> w | Some v \<Rightarrow> v)\<rparr>)"
  by (cases "pending_work m") (auto simp: queue_delayed_work_def)

text \<open>What a run of switches leaves: the counter goes down to 0, and a work item is queued when it gets there.\<close>

lemma krun_append: "krun (xs @ ys) m = kbnd (krun xs m) (krun ys)"
proof (induction xs arbitrary: m)
  case (Cons ev xs)
  then show ?case by (cases "kstep ev m") simp_all
qed simp

lemma krun_switches:
  assumes "module_live m" and "0 \<le> kticks m" and "kticks m = 0 \<longrightarrow> pending_work m \<noteq> None"
  shows "\<exists>m'. krun (map Ev_switch ps) m = Inr m' \<and> module_live m' \<and> target_pid m' = target_pid m
    \<and> kticks m' = max 0 (kticks m - int (count_list ps (target_pid m))) \<and> k_blocked m' = k_blocked m
    \<and> (kticks m' = 0 \<longrightarrow> pending_work m' \<noteq> None)"
  using assms
proof (induction ps arbitrary: m)
  case Nil
  then show ?case by simp
next
  case (Cons q ps)
  obtain m1 where m1: "kstep (Ev_switch q) m = Inr m1" "module_live m1" "target_pid m1 = target_pid m"
    "kticks m1 = max 0 (kticks m - (if q = target_pid m then 1 else 0))" "k_blocked m1 = k_blocked m"
    "kticks m1 = 0 \<longrightarrow> pending_work m1 \<noteq> None"
  proof (cases "q = target_pid m \<and> 0 < kticks m")
    case True
    let ?m = "m\<lparr>kticks := kticks m - 1\<rparr>"
    have w: "wq ?m = Some True" using Cons.prems(1) by (simp add: module_live_def)
    show ?thesis
    proof (cases "kticks m = 1")
      case True
      then show ?thesis
        using that [of "?m\<lparr>pending_work := Some (case pending_work ?m of None \<Rightarrow> Work_now | Some v \<Rightarrow> v)\<rparr>"]
          Cons.prems \<open>q = target_pid m \<and> 0 < kticks m\<close> queue_live [OF w]
        by (simp add: kstep_def sched_switch_tracepoint_callback_def module_live_def)
    next
      case False
      then show ?thesis
        using that [of ?m] Cons.prems \<open>q = target_pid m \<and> 0 < kticks m\<close>
        by (simp add: kstep_def sched_switch_tracepoint_callback_def module_live_def)
    qed
  next
    case False
    then show ?thesis
      using that [of m] Cons.prems
      by (auto simp: kstep_def sched_switch_tracepoint_callback_def module_live_def)
  qed
  obtain m' where "krun (map Ev_switch ps) m1 = Inr m'" "module_live m'" "target_pid m' = target_pid m1"
    "kticks m' = max 0 (kticks m1 - int (count_list ps (target_pid m1)))" "k_blocked m' = k_blocked m1"
    "kticks m' = 0 \<longrightarrow> pending_work m' \<noteq> None"
    using Cons.IH [of m1] m1 by force
  with m1 show ?case by auto
qed

text \<open>
  The kernel module's countdown: after a message naming process \<open>p\<close> and \<open>n\<close> slices, and any
  sequence of switches, the work item blocks SIGUSR1 for \<open>p\<close> when at least \<open>n\<close> of the switches
  were to \<open>p\<close>, and leaves its mask as it was otherwise; switches to other processes do not count.
  No released object is used.
\<close>

lemma countdown_result:
  assumes m: "module_live m" and p: "k_blocked m p = Some B" and n: "0 < n"
  shows "\<exists>m'. krun (Ev_message s p n room # map Ev_switch ps @ [Ev_work]) m = Inr m' \<and> module_live m'
    \<and> target_pid m' = p \<and> kticks m' = max 0 (n - int (count_list ps p))
    \<and> k_blocked m' p = Some (if n \<le> int (count_list ps p) then insert kSIGUSR1 B else B)"
proof -
  let ?m = "m\<lparr>target_pid := p, kticks := n\<rparr>"
  obtain m0 where m0: "kstep (Ev_message s p n room) m = Inr m0" "module_live m0" "target_pid m0 = p"
    "kticks m0 = n" "k_blocked m0 = k_blocked m"
  proof (cases room)
    case True
    then show ?thesis
      using that [of "?m\<lparr>replies := replies m @ [(s, p)]\<rparr>"] m
      by (simp add: kstep_def netlink_recv_msg_def module_live_def)
  next
    case False
    then show ?thesis
      using that [of ?m] m by (simp add: kstep_def netlink_recv_msg_def module_live_def)
  qed
  have pre: "0 \<le> kticks m0" "kticks m0 = 0 \<longrightarrow> pending_work m0 \<noteq> None" using m0(4) n by simp_all
  obtain m1 where m1: "krun (map Ev_switch ps) m0 = Inr m1" "module_live m1" "target_pid m1 = p"
    "kticks m1 = max 0 (n - int (count_list ps p))" "k_blocked m1 = k_blocked m"
    "kticks m1 = 0 \<longrightarrow> pending_work m1 \<noteq> None"
    using krun_switches [OF m0(2) pre, of ps, unfolded m0(3-5)] by blast
  have w: "wq m1 = Some True" using m1(2) by (simp add: module_live_def)
  obtain m2 where m2: "run_work m1 = Inr m2" "module_live m2" "target_pid m2 = p" "kticks m2 = kticks m1"
    "k_blocked m2 p = Some (if n \<le> int (count_list ps p) then insert kSIGUSR1 B else B)"
  proof (cases "pending_work m1")
    case None
    then have "\<not> n \<le> int (count_list ps p)" using m1(4,6) by auto
    then show ?thesis using that [of m1] m1 p None by (simp add: run_work_def)
  next
    case (Some v)
    note q = queue_live [of "m1\<lparr>pending_work := None\<rparr>" Work_delayed]
    show ?thesis
    proof (cases "n \<le> int (count_list ps p)")
      case True
      then show ?thesis
        using that [of "m1\<lparr>pending_work := None, k_blocked := (k_blocked m)(p \<mapsto> insert kSIGUSR1 B)\<rparr>"] Some m1 p w
        by (simp add: run_work_def block_sigusr1_for_pid_def module_live_def)
    next
      case False
      then show ?thesis
        using that [of "m1\<lparr>pending_work := Some Work_delayed\<rparr>"] Some m1 p w q
        by (simp add: run_work_def block_sigusr1_for_pid_def module_live_def)
    qed
  qed
  then show ?thesis using m0(1) m1(1,4) by (auto simp: krun_append kstep_def)
qed

text \<open>Once the counter is at 0 no switch changes the module.\<close>

lemma countdown_over: "kticks m = 0 \<Longrightarrow> krun (map Ev_switch qs) m = Inr m"
  by (induction qs) (simp_all add: kstep_def sched_switch_tracepoint_callback_def)

definition demo_module :: "module" where
  "demo_module = module_start\<lparr>nl_sk := Some True, wq := Some True, is_registered := True,
     k_blocked := [100 \<mapsto> {}]\<rparr>"

text \<open>
  C35. A start that does not find the tracepoint reports success after it has destroyed the work
  queue and released the socket: the work item that is still queued then runs on freed memory, and
  unloading the module releases both objects a second time.
\<close>

theorem failed_start_double_free:
  assumes "sock_created e" and "wq_created e" and "''sched_switch'' \<notin> set (tracepoints e)"
  shows "\<exists>m. netlink_init e module_start = Inr (0, m) \<and> run_work m = Inl Use_after_free
    \<and> netlink_exit m = Inl Double_free"
proof -
  have find: "fold sched_switch_tracepoint_find ns m = m" if "''sched_switch'' \<notin> set ns" for ns m
    using that by (induction ns) (auto simp: sched_switch_tracepoint_find_def)
  show ?thesis
    using assms find [OF assms(3)]
    by (simp add: netlink_init_def module_start_def netlink_kernel_release_def destroy_workqueue_def
        queue_delayed_work_def run_work_def netlink_exit_def clear_tracepoint_def)
qed

theorem failed_start_double_free_witness:
  "\<exists>m. netlink_init \<lparr>sock_created = True, wq_created = True, tracepoints = [''irq_entry''], register_err = False\<rparr>
      module_start = Inr (0, m) \<and> netlink_exit m = Inl Double_free"
  using failed_start_double_free [of "\<lparr>sock_created = True, wq_created = True, tracepoints = [''irq_entry''], register_err = False\<rparr>"]
  by auto

end
