(* ===== verification/UtsModule.thy ===== *)
theory UtsModule
  imports ProgramRuns KSignal
begin

text \<open>
  A program of the user scheduler together with the kernel module: the message the program sends
  starts the module's countdown, at whose end the module blocks a signal of the program.
\<close>

text \<open>The message as the module receives it; \<open>room\<close> tells whether it has memory for its answer.\<close>

definition message_event :: "bool \<Rightarrow> nlmsg \<Rightarrow> kevent" where
  "message_event room x = Ev_message (nlmsg_pid x) (nl_data0 x) (nl_data1 x) room"

text \<open>The process with the signal mask the kernel holds for it.\<close>

definition with_mask :: "int \<Rightarrow> module \<Rightarrow> 'a kstate_scheme \<Rightarrow> 'a kstate_scheme" where
  "with_mask p m s = s\<lparr>sigmask := the (k_blocked m p)\<rparr>"

definition installed :: "dispositions \<Rightarrow> dispositions" where
  "installed d = signal SIGUSR1 Sigusr1_headler (signal SIGALRM Signal_headler d)"

lemma installed_simps [simp]: "installed d SIGALRM = Signal_headler" "installed d SIGUSR1 = Sigusr1_headler"
  by (simp_all add: installed_def signal_def SIGALRM_def SIGUSR1_def)

text \<open>
  What a blocked SIGUSR1 means to a process of the user scheduler: the clock goes on as before, and
  \<open>interrupt_enable\<close> lets the signal through again.
\<close>

lemma blocked_usr1:
  assumes "sigmask s = insert SIGUSR1 B" and "SIGALRM \<notin> B"
  shows "deliver uc now tm (installed d) SIGUSR1 s = Some (Inr (Returned (), s))
    \<and> deliver uc now tm (installed d) SIGALRM s = Some (sigreturn (sigmask s) (uts_timer_handler uc s now tm))
    \<and> deliver uc now tm (installed d) SIGUSR1 (interrupt_enable s)
        = Some (sigreturn (sigmask (interrupt_enable s)) (sigusr1_headler (interrupt_enable s)))"
proof -
  have "SIGALRM \<noteq> SIGUSR1" by (simp add: SIGALRM_def SIGUSR1_def)
  moreover have "SIGUSR1 \<notin> sigmask (interrupt_enable s)"
    using irq_on_simps(1) [of s] by (simp add: irq_on_def)
  ultimately show ?thesis using assms by (simp add: deliver_def signal_headler_def)
qed

text \<open>
  C34. main.c and the kernel module. In a fresh process main.c starts all its tasks, and its message
  makes the module count the switches to the process: after as many as the priority in the message the
  work item blocks SIGUSR1 for the process, with fewer the mask stays as it was, and no released
  object is used. The block does not hold the scheduler up: SIGUSR1 stays pending, but the clock signal
  SIGALRM is handled as before, the next \<open>interrupt_enable\<close> of any library function lets SIGUSR1 in
  again, and no later switch makes the module block it once more.
\<close>

theorem module_block_lifted:
  assumes f: "fresh_boot e se ret t0 s" and mem: "task_memory e mm tp t0 1001" and live: "module_live m"
    and B: "k_blocked m (u_pid e) = Some B" "SIGALRM \<notin> B" and n: "0 < generate_random_priority (u_rnd e 0)"
  shows "\<exists>s1 p1 t1 m'. uts_main e se ret a mm ap f0 f1 d s t p = Inr (Looping, s1, p1, t1)
    \<and> krun (map (message_event room) (drop (length (sent p)) (sent p1)) @ map Ev_switch ps @ [Ev_work]) m = Inr m'
    \<and> module_live m'
    \<and> (if generate_random_priority (u_rnd e 0) \<le> int (count_list ps (u_pid e)) then
        (let s2 = with_mask (u_pid e) m' s1 in
           sigmask s2 = insert SIGUSR1 B
         \<and> deliver uc now tm (installed d) SIGUSR1 s2 = Some (Inr (Returned (), s2))
         \<and> deliver uc now tm (installed d) SIGALRM s2 = Some (sigreturn (sigmask s2) (uts_timer_handler uc s2 now tm))
         \<and> deliver uc now tm (installed d) SIGUSR1 (interrupt_enable s2)
             = Some (sigreturn (sigmask (interrupt_enable s2)) (sigusr1_headler (interrupt_enable s2)))
         \<and> krun (map Ev_switch qs) m' = Inr m')
       else k_blocked m' (u_pid e) = Some B)"
proof -
  let ?n = "generate_random_priority (u_rnd e 0)"
  obtain s1 p1 t1 where run: "uts_main e se ret a mm ap f0 f1 d s t p = Inr (Looping, s1, p1, t1)"
    and sent: "sent p1 = sent p @ [\<lparr>nlmsg_pid = u_pid e, nl_dest = 0, nl_data0 = u_pid e, nl_data1 = ?n\<rparr>]"
    using uts_main_result [OF f mem] by blast
  obtain m' where m': "krun (Ev_message (u_pid e) (u_pid e) ?n room # map Ev_switch ps @ [Ev_work]) m = Inr m'"
    "module_live m'" "kticks m' = max 0 (?n - int (count_list ps (u_pid e)))"
    "k_blocked m' (u_pid e) = Some (if ?n \<le> int (count_list ps (u_pid e)) then insert kSIGUSR1 B else B)"
    using countdown_result [OF live B(1) n, of "u_pid e" room ps] by blast
  have events: "map (message_event room) (drop (length (sent p)) (sent p1)) = [Ev_message (u_pid e) (u_pid e) ?n room]"
    by (simp add: sent message_event_def)
  have same: "kSIGUSR1 = SIGUSR1" by (simp add: kSIGUSR1_def SIGUSR1_def)
  show ?thesis
  proof (cases "?n \<le> int (count_list ps (u_pid e))")
    case True
    let ?s = "with_mask (u_pid e) m' s1"
    have mask: "sigmask ?s = insert SIGUSR1 B" using m'(4) True by (simp add: with_mask_def same)
    have "krun (map Ev_switch qs) m' = Inr m'" using m'(3) True by (intro countdown_over) simp
    then show ?thesis
      using run m'(1,2) mask blocked_usr1 [OF mask B(2), of uc now tm d] True
      by (intro exI [of _ s1] exI [of _ p1] exI [of _ t1] exI [of _ m']) (simp add: events Let_def)
  next
    case False
    then show ?thesis using run m'(1,2,4)
      by (intro exI [of _ s1] exI [of _ p1] exI [of _ t1] exI [of _ m']) (simp add: events)
  qed
qed

definition demo_module_at :: "int \<Rightarrow> module" where
  "demo_module_at p = demo_module\<lparr>k_blocked := [p \<mapsto> {}]\<rparr>"

definition busy_system :: uenv where
  "busy_system = demo_system\<lparr>u_rnd := (\<lambda>_. Read_value 3)\<rparr>"

theorem module_block_lifted_witness:
  "\<exists>s1 p1 t1 m'. uts_main busy_system demo_env 0 demo_abi demo_memory (\<lambda>j. 64 * of_nat j) 4198400 4198656 (\<lambda>_. Sig_default)
     fresh_process empty_tty uproc_start = Inr (Looping, s1, p1, t1)
    \<and> krun (map (message_event True) (sent p1) @ map Ev_switch [4242, 7, 4242, 4242] @ [Ev_work]) (demo_module_at 4242) = Inr m'
    \<and> sigmask (with_mask 4242 m' s1) = {SIGUSR1}"
proof -
  have f: "fresh_boot busy_system demo_env 0 0 fresh_process" and mem: "task_memory busy_system demo_memory (\<lambda>j. j) 0 1001"
    using demo_boot demo_task_memory [of 1001] by (simp_all add: busy_system_def fresh_boot_def task_memory_def)
  have m: "module_live (demo_module_at 4242)" "k_blocked (demo_module_at 4242) (u_pid busy_system) = Some {}"
    by (simp_all add: demo_module_at_def demo_module_def module_live_def busy_system_def demo_system_def)
  have pr: "generate_random_priority (u_rnd busy_system 0) = 3" "u_pid busy_system = 4242"
    by (simp_all add: busy_system_def demo_system_def generate_random_priority_def c_abs_def c_mod_nonneg)
  show ?thesis
    using module_block_lifted [OF f mem m, of demo_abi "\<lambda>j. 64 * of_nat j" 4198400 4198656 "\<lambda>_. Sig_default" empty_tty
        uproc_start True "[4242, 7, 4242, 4242]" idle_code 5000 None "[]"]
    by (auto simp: pr uproc_start_def Let_def)
qed

end
