(* ===== verification/Spec2Isabelle.thy ===== *)
theory Spec2Isabelle
  imports RoundRobin Selection TaskProps Ioqueue BenchProps UtsLocks UtsModule
begin

text \<open>
  Verification of the user level thread library in src/Thread and of the user scheduler built on
  it in src/User_Schedule/ROS2/user_thread_scheduler/src (below: US).

  \<^bold>\<open>The program.\<close> The library runs many tasks in one process. A signal stands for the clock
  interrupt: its handler saves the registers the kernel put on the signal stack into the running
  task's structure and loads those of the next ready task (task/task.c, with three assembly
  routines). Shielding a critical section means blocking that signal
  (interrupt/analog_interrupt.c). Tasks hang on intrusive lists (lib/list.c), take their numbers
  from a bit map (lib/bitmap.c), wait for each other on semaphores and locks (task/sync.c) and
  ring buffers (device/ioqueue.c), and sleep by timers of a wheel (interrupt/timer.c). hook.c
  replaces the sleeping functions and \<open>fcntl\<close> of the C library. In src/Thread the clock is a BPF program
  that counts switches and sends SIGUSR1, with a loader that also holds the demonstration tasks
  (kernel/); in US it is an interval timer, and a kernel module (kernel/signal.c)
  counts slices and blocks the signal. The main programs start tasks that train
  small neural networks, under this library, POSIX threads or OpenMP.

  \<^bold>\<open>Theories and sources.\<close>
  \<^item> Prelude: faults, results, sequencing, C's division; generic lemmas.
  \<^item> Bitmap: lib/bitmap.c. CList: lib/list.c on a heap of nodes, with the predicate relating a
    list on the heap to a HOL list.
  \<^item> Kernel: the structures of include/task.h and include/sync.h and the globals of task/task.c as
    the record \<open>kstate\<close>; disjoint queues on one heap.
  \<^item> Context: task/*.asm instruction by instruction. Interrupts: the signal mask.
  \<^item> Sched, SchedInv, Demo, RoundRobin, Selection: the switching half of task/task.c, the
    invariant, concrete states for the examples, round robin, the searches.
  \<^item> Sync, SyncInv, Mutex: task/sync.c, its branches, and its interleavings under preemption between
    the loads and stores of a lock.
  \<^item> TaskLife, TidPool, TaskProps: the creating and ending half of task/task.c.
  \<^item> TimerList, TimerWheel: interrupt/timer.c. TimerRings, TimerProps, TimerService, TimerApi: the
    wheel as lists of timers, its invariant, the service it refines, its operations on the invariant.
  \<^item> Ioqueue: device/ioqueue.c. Devices: device/console.c, task/debug.c, task/init.c. Hook,
    HookProps: hook.c. Startup: the state \<open>init\<close> leaves and the timers on it.
  \<^item> Bpf: kernel/signalkill.bpf.c and kernel/signalkill.c. KSignal: US/kernel/signal.c.
  \<^item> UtsInterrupts: the handlers of US/interrupt and US/task/init.c.
  \<^item> Alarm, ClockTick: a sleeper's timer, and one tick of the clock of US, from the timers it serves
    to the task it leaves running. Sleeping: histories of computing, sleeping and ticking over
    hook.c, the handlers and the wheel. UtsLocks: task/sync.c under the clock of US.
  \<^item> NeuralNet, BenchProps: the networks of US/ttl/tt.c and US/la.c over an abstract arithmetic, and
    what the tasks that train them do with their arrays.
  \<^item> UserPrograms, ProgramRuns: the main programs of US with their tasks and what they print, the
    demonstrations of test\_dir/test\_code, and the runs of the programs from a fresh process.
    UtsModule: main.c and the kernel module together.

  \<^bold>\<open>How code becomes definitions.\<close> A C function is a function on the state that returns a result
  or a fault: a failed assertion and \<open>PANIC\<close> spin, NULL and memory that is no live object fault
  when they are accessed, and a loop that does not end is the fault \<open>No_return\<close>. Integers keep
  their width; where a signed sum of the source overflows it wraps, as in the code a compiler makes
  of it without optimising. A function during which the processor can go to another task returns \<open>Switched\<close>
  with the state in which that task runs; the rest of the call is a definition of its own
  (\<open>sema_down_loop\<close>, \<open>lock_acquired\<close>, \<open>ioq_getchar_resume\<close>). Loops over lists are partial functions
  into an option, so that not returning is a value and returning is proved. No fuel is used
  anywhere. Results of \<open>malloc\<close>, the clock, \<open>rand\<close>, libbpf, the C library behind \<open>dlsym\<close> and the
  callbacks of timers are parameters.

  \<^bold>\<open>What is shown.\<close>
  \<^item> Lists and bit maps do what a HOL list and a set of numbers do; a full map faults.
  \<^item> \<open>sched_inv\<close>, the scheduler's invariant (disjoint queues of live tasks, status by list, the
    running task on no ready queue), is established by \<open>task_init\<close> and kept by every operation
    whose code keeps it; the operations are described exactly on each branch.
  \<^item> Round robin order and transparency of preemption. Mutual exclusion under every interleaving in
    which no preemption falls between the test of a semaphore and the store of the lowered value;
    and what a preemption there does to a woken task: two tasks inside, or a value of 255. The
    wakeup that is lost in \<open>sema_up\<close>.
  \<^item> The timing wheel refines a service that holds a set of timers and serves those due, millisecond
    by millisecond; creating and deleting a timer undo each other; with the library's granularity of
    ten a timer can come hundreds of milliseconds early.
  \<^item> \<open>init\<close> establishes every invariant at once. The hooks show a task its own descriptor flags.
  \<^item> One tick of the clock of US on every branch, and with it: no sleeper is forgotten, a lone sleeper
    hangs the process, in src/Thread the clock never wakes a sleeper, and the locks of US are not
    shielded from its clock.
  \<^item> The character queue against a contract of a bounded queue, and its deadlock when the consumer is
    preempted between its test and the lock.
  \<^item> The clock sources: one signal per 31 switches, the module's countdown, failing starts.
  \<^item> The networks: no access outside the arrays on samples that are there, the shuffle a
    permutation although its last divisor overflows, batches without influence; the benchmark tasks
    leave their arrays.
  \<^item> Whole programs: main.c runs 1001 tasks with distinct numbers, schedule\_main.c finds its tasks
    by number, both with the text on the terminal. The six benchmarks on the library start all their tasks and
    never finish; the one on POSIX threads creates a thread it never joins. main.c's message makes the
    kernel module block SIGUSR1 after the slices it asks for; the block neither lasts nor stops the
    clock.

  The contracts are locales, each interpreted on the code's model: a queue (CList, met by the linked
  list), an index pool (TidPool, met by the bit map), a bounded queue (Ioqueue, met by
  \<open>ioq_putchar\<close> and \<open>ioq_getchar\<close>), and a handler of the clock signal (Sleeping) with two extensions, one that serves the
  timers, met by the handler of US, and one that does not, met by the handler of src/Thread.

  \<^bold>\<open>Not modelled.\<close> kernel/vmlinux.h is generated. The copies of the library under US are the same
  text as src/Thread and add nothing. The kernel's own scheduling and signal delivery order, the
  floating point arithmetic, and the threads of the C library and of OpenMP are parameters or left
  out, as is what \<open>perror\<close> writes on the error stream. The standard output is taken to be a
  terminal, flushed at the end of each line, and the arrays of a network to be found where the code
  does not check \<open>malloc\<close>. Preemption inside a function is modelled where the results depend on it
  (Mutex, \<open>task_exit\<close>, the test of the character queue), elsewhere calls are atomic: in Mutex the
  functions on the waiting list, \<open>task_block\<close> and \<open>task_unblock\<close> are single steps, and the two stores of
  hook.c's \<open>sleep\<close>, the mark and the time, are one.
\<close>

end
